(* ===== verification/Prelude.thy ===== *)
theory Prelude
  imports Main "HOL-Library.Word"
begin

unbundle bit_operations_syntax

text \<open>
  Types, error numbers and generic lemmas shared by every component: the fixed-width C
  integers as words, the kernel's error numbers (they are returned negated, as C ints) and
  facts on words and on lists updated by index.
\<close>

section \<open>Fixed-width integers\<close>

type_synonym u8 = "8 word"
type_synonym u16 = "16 word"
type_synonym u32 = "32 word"
type_synonym u64 = "64 word"


section \<open>Error numbers (include/uapi/asm-generic/errno-base.h)\<close>

definition EPERM :: int where "EPERM = 1"
definition ENOENT :: int where "ENOENT = 2"
definition ESRCH :: int where "ESRCH = 3"
definition EINTR :: int where "EINTR = 4"
definition EIO :: int where "EIO = 5"
definition E2BIG :: int where "E2BIG = 7"
definition EAGAIN :: int where "EAGAIN = 11"
definition ENOMEM :: int where "ENOMEM = 12"
definition EACCES :: int where "EACCES = 13"
definition EFAULT :: int where "EFAULT = 14"
definition EBUSY :: int where "EBUSY = 16"
definition EEXIST :: int where "EEXIST = 17"
definition ENODEV :: int where "ENODEV = 19"
definition EINVAL :: int where "EINVAL = 22"
definition ENOSPC :: int where "ENOSPC = 28"
definition ERANGE :: int where "ERANGE = 34"

definition ENOSYS :: int where "ENOSYS = 38"
definition EOVERFLOW :: int where "EOVERFLOW = 75"

lemmas errno_defs =
  EPERM_def ENOENT_def ESRCH_def EINTR_def EIO_def E2BIG_def EAGAIN_def ENOMEM_def EACCES_def
  EFAULT_def EBUSY_def EEXIST_def ENODEV_def EINVAL_def ENOSPC_def ERANGE_def ENOSYS_def EOVERFLOW_def

section \<open>Words\<close>

lemma unat_bound: "unat (w :: 'a::len word) < 2 ^ LENGTH('a)"
  by (rule unsigned_less)

lemma unat_Suc_le:
  fixes a b :: "'a::len word"
  assumes "a < b"
  shows "unat (a + 1) = Suc (unat a)"
proof -
  have "unat a < unat b" using assms by (simp add: word_less_nat_alt)
  then have "Suc (unat a) < 2 ^ LENGTH('a)" using unat_bound [of b] by linarith
  then show ?thesis by (simp add: unat_word_ariths)
qed

lemma unat_add_no_wrap:
  fixes a b :: "'a::len word"
  shows "unat a + unat b < 2 ^ LENGTH('a) \<Longrightarrow> unat (a + b) = unat a + unat b"
  by (rule unat_add_lem [THEN iffD1])

lemma xor_cancel_right [simp]:
  fixes a b :: "'a::len word"
  shows "(a XOR b) XOR b = a"
  by (simp add: xor.assoc)

lemma word_bits_iff:
  fixes v w :: "'a::len word"
  shows "v = w \<longleftrightarrow> (\<forall>n < LENGTH('a). bit v n = bit w n)"
  by (auto intro: bit_word_eqI)

lemma test_two_bits:
  fixes w :: "'a::len word"
  assumes "m < LENGTH('a)" and "n < LENGTH('a)"
  shows "w AND (push_bit m 1 OR push_bit n 1) \<noteq> 0 \<longleftrightarrow> bit w m \<or> bit w n"
  using assms by (auto simp: word_bits_iff bit_simps)

section \<open>Lists updated by index\<close>

lemma all_nth_updateI:
  assumes "\<And>j. j < length xs \<Longrightarrow> j \<noteq> i \<Longrightarrow> P j (xs ! j)"
    and "i < length xs \<Longrightarrow> P i v"
  shows "\<forall>j < length xs. P j (xs[i := v] ! j)"
proof (intro allI impI)
  fix j assume "j < length xs"
  then show "P j (xs[i := v] ! j)"
    using assms by (cases "j = i") (auto simp: nth_list_update)
qed

end
