(* ===== verification/Kthread.thy ===== *)
theory Kthread
  imports Prelude
begin

text \<open>
  The life cycle of a kernel thread (kernel/kthread.c) and the mutex it may block on
  (kernel/locking/mutex.c). A thread is created asleep, is woken, tests whether it was
  stopped already, runs its function and exits with a result that \<open>kthread_stop\<close> reads.
  The blocking operations \<open>kthread_stop\<close> and \<open>kthread_park\<close> are split where they sleep: a
  request that sets the flag bits and wakes the thread, and a return that is enabled once
  the completion is done.
\<close>

section \<open>struct kthread and its flag bits\<close>

definition KTHREAD_IS_PER_CPU :: nat where "KTHREAD_IS_PER_CPU = 0"
definition KTHREAD_SHOULD_STOP :: nat where "KTHREAD_SHOULD_STOP = 1"
definition KTHREAD_SHOULD_PARK :: nat where "KTHREAD_SHOULD_PARK = 2"

lemmas kthread_bits = KTHREAD_IS_PER_CPU_def KTHREAD_SHOULD_STOP_def KTHREAD_SHOULD_PARK_def

text \<open>
  The fields of \<open>struct kthread\<close> the operations below read or write; the two completions are
  the booleans "done". \<open>kt_notify\<close> is the TIF_NOTIFY_SIGNAL flag of the task, \<open>kt_exiting\<close>
  its PF_EXITING flag.
\<close>

record kthread =
  kt_flags :: u64
  kt_cpu :: int
  kt_result :: int
  kt_parked :: bool
  kt_exited :: bool
  kt_notify :: bool
  kt_exiting :: bool

definition set_kthread_struct :: kthread where
  "set_kthread_struct =
     \<lparr>kt_flags = 0, kt_cpu = 0, kt_result = 0, kt_parked = False, kt_exited = False,
      kt_notify = False, kt_exiting = False\<rparr>"

definition kthread_should_stop :: "kthread \<Rightarrow> bool" where
  "kthread_should_stop k = bit (kt_flags k) KTHREAD_SHOULD_STOP"

definition kthread_should_park :: "kthread \<Rightarrow> bool" where
  "kthread_should_park k = bit (kt_flags k) KTHREAD_SHOULD_PARK"

definition kthread_should_stop_or_park :: "kthread \<Rightarrow> bool" where
  "kthread_should_stop_or_park k \<longleftrightarrow>
     kt_flags k AND (push_bit KTHREAD_SHOULD_STOP 1 OR push_bit KTHREAD_SHOULD_PARK 1) \<noteq> 0"

definition kthread_set_per_cpu :: "kthread \<Rightarrow> int \<Rightarrow> kthread" where
  "kthread_set_per_cpu k cpu =
     (if cpu < 0 then k\<lparr>kt_flags := unset_bit KTHREAD_IS_PER_CPU (kt_flags k)\<rparr>
      else k\<lparr>kt_cpu := cpu, kt_flags := set_bit KTHREAD_IS_PER_CPU (kt_flags k)\<rparr>)"

definition kthread_is_per_cpu :: "kthread \<Rightarrow> bool" where
  "kthread_is_per_cpu k = bit (kt_flags k) KTHREAD_IS_PER_CPU"

section \<open>Exit, start, park and stop\<close>

text \<open>\<open>do_exit\<close> completes \<open>vfork_done\<close>, which \<open>set_kthread_struct\<close> made the \<open>exited\<close> completion.\<close>

definition kthread_exit :: "kthread \<Rightarrow> int \<Rightarrow> kthread" where
  "kthread_exit k r = k\<lparr>kt_result := r, kt_exiting := True, kt_exited := True\<rparr>"

text \<open>
  One round of \<open>__kthread_parkme\<close>: True when the thread leaves the loop and runs on, False when
  it completes \<open>parked\<close> and sleeps.
\<close>

definition kthread_parkme :: "kthread \<Rightarrow> bool \<times> kthread" where
  "kthread_parkme k =
     (if \<not> kthread_should_park k then (True, k) else (False, k\<lparr>kt_parked := True\<rparr>))"

text \<open>
  The tail of \<open>kthread\<close>, from the wake-up on. \<open>Inl\<close>: the thread exits without ever calling
  its function. \<open>Inr\<close>: it goes through \<open>__kthread_parkme\<close>; with True it calls the function.
\<close>

definition kthread_main :: "kthread \<Rightarrow> kthread + bool \<times> kthread" where
  "kthread_main k =
     (if kthread_should_stop k then Inl (kthread_exit k (- EINTR)) else Inr (kthread_parkme k))"

definition kthread_unpark :: "kthread \<Rightarrow> kthread" where
  "kthread_unpark k = k\<lparr>kt_flags := unset_bit KTHREAD_SHOULD_PARK (kt_flags k)\<rparr>"

definition kthread_park_request :: "kthread \<Rightarrow> int + kthread" where
  "kthread_park_request k =
     (if kt_exiting k then Inl (- ENOSYS)
      else if kthread_should_park k then Inl (- EBUSY)
      else Inr (k\<lparr>kt_flags := set_bit KTHREAD_SHOULD_PARK (kt_flags k)\<rparr>))"

text \<open>The rest of \<open>kthread_park\<close>: the caller consumes the completion.\<close>

definition kthread_park_return :: "kthread \<Rightarrow> (int \<times> kthread) option" where
  "kthread_park_return k = (if kt_parked k then Some (0, k\<lparr>kt_parked := False\<rparr>) else None)"

definition kthread_stop_request :: "kthread \<Rightarrow> kthread" where
  "kthread_stop_request k =
     (let k1 = k\<lparr>kt_flags := set_bit KTHREAD_SHOULD_STOP (kt_flags k)\<rparr>;
          k2 = kthread_unpark k1
      in k2\<lparr>kt_notify := True\<rparr>)"

definition kthread_stop_return :: "kthread \<Rightarrow> int option" where
  "kthread_stop_return k = (if kt_exited k then Some (kt_result k) else None)"

section \<open>The mutex\<close>

text \<open>
  The owner word without its three flag bits: None is an unlocked mutex. An interruptible
  lock takes a free mutex. Otherwise it sleeps until the mutex is free or a signal is
  pending; a thread that already went to the slow path may see the pending signal although
  the mutex has just been released, so the interrupted outcome (\<open>intr\<close>) only asks for the
  signal. \<open>signal_pending\<close> is true once TIF_NOTIFY_SIGNAL is set.
\<close>

type_synonym mutex = "nat option"

datatype lock_result = Lock_wait | Lock_eintr | Lock_acquired mutex

definition mutex_is_locked :: "mutex \<Rightarrow> bool" where
  "mutex_is_locked lk \<longleftrightarrow> lk \<noteq> None"

definition mutex_trylock :: "mutex \<Rightarrow> nat \<Rightarrow> mutex option" where
  "mutex_trylock lk me = (if mutex_is_locked lk then None else Some (Some me))"

definition mutex_lock_interruptible :: "bool \<Rightarrow> bool \<Rightarrow> nat \<Rightarrow> mutex \<Rightarrow> lock_result" where
  "mutex_lock_interruptible intr sig me lk =
     (if intr then (if sig then Lock_eintr else Lock_wait)
      else case mutex_trylock lk me of Some lk' \<Rightarrow> Lock_acquired lk' | None \<Rightarrow> Lock_wait)"

definition mutex_unlock :: "mutex \<Rightarrow> mutex" where
  "mutex_unlock lk = None"

section \<open>Lemmas\<close>

lemmas kthread_ops =
  set_kthread_struct_def kthread_should_stop_def kthread_should_park_def kthread_exit_def
  kthread_parkme_def kthread_main_def kthread_unpark_def kthread_park_request_def
  kthread_stop_request_def kthread_stop_return_def

lemma should_stop_or_park_iff:
  "kthread_should_stop_or_park k \<longleftrightarrow> kthread_should_stop k \<or> kthread_should_park k"
  unfolding kthread_should_stop_or_park_def kthread_should_stop_def kthread_should_park_def
  by (rule test_two_bits) (simp_all add: kthread_bits)

lemma stop_request_should_stop [simp]: "kthread_should_stop (kthread_stop_request k)"
  by (simp add: kthread_ops kthread_bits bit_simps Let_def)

lemma stop_request_fields [simp]:
  "kt_exited (kthread_stop_request k) = kt_exited k"
  "kt_result (kthread_stop_request k) = kt_result k"
  "kt_notify (kthread_stop_request k)"
  by (simp_all add: kthread_ops Let_def)

lemma stop_request_unparks [simp]: "\<not> kthread_should_park (kthread_stop_request k)"
  by (simp add: kthread_ops kthread_bits bit_simps Let_def)

lemma new_kthread_flags [simp]:
  "\<not> kthread_should_stop set_kthread_struct" "\<not> kthread_should_park set_kthread_struct"
  "\<not> kt_exited set_kthread_struct" "\<not> kt_notify set_kthread_struct"
  by (simp_all add: kthread_ops)

lemma kthread_exit_fields [simp]:
  "kt_exited (kthread_exit k r)" "kt_result (kthread_exit k r) = r"
  "kthread_should_stop (kthread_exit k r) = kthread_should_stop k"
  "kthread_should_park (kthread_exit k r) = kthread_should_park k"
  "kt_notify (kthread_exit k r) = kt_notify k"
  by (simp_all add: kthread_ops)

end
