(* ===== verification/Xor_Workers.thy ===== *)
theory Xor_Workers
  imports Kthread
begin

text \<open>
  The XOR worker threads of the encryption and decryption system calls (my_encrypt.c,
  my_decrypt.c) and their interleaving with the thread that creates, stops and joins them.
  Heap objects are kmalloc'ed byte arrays under an address; a freed object is unmapped, and an
  access outside a mapped object is a fault. Every step is atomic: one loop iteration of a
  worker, one call of the main thread.
\<close>

section \<open>Heap objects and worker arguments\<close>

type_synonym mem = "nat \<rightharpoonup> u8 list"

definition FILE_DATA :: nat where "FILE_DATA = 0"
definition KEY_DATA :: nat where "KEY_DATA = 1"
definition WORKERS :: nat where "WORKERS = 2"
definition WORKER_ARGS :: nat where "WORKER_ARGS = 3"

lemmas obj_defs = FILE_DATA_def KEY_DATA_def WORKERS_def WORKER_ARGS_def

record worker_args_t =
  input_data :: nat
  cipher_key :: nat
  range_start :: u64
  range_end :: u64
  key_length :: u64

record decrypt_thread_args_t =
  d_buffer :: nat
  d_key :: nat
  d_start_offset :: u64
  d_end_offset :: u64
  d_key_length :: u64

text \<open>\<open>buf[idx] ^= key[idx % klen]\<close>: None is an invalid access or a division by zero.\<close>

definition xor_byte :: "mem \<Rightarrow> nat \<Rightarrow> nat \<Rightarrow> u64 \<Rightarrow> u64 \<Rightarrow> mem option" where
  "xor_byte m buf key klen idx =
     (case m buf of None \<Rightarrow> None
      | Some d \<Rightarrow> (case m key of None \<Rightarrow> None
        | Some k \<Rightarrow>
            if klen = 0 \<or> length d \<le> unat idx \<or> length k \<le> unat (idx mod klen) then None
            else Some (m(buf \<mapsto> d[unat idx := d ! unat idx XOR k ! unat (idx mod klen)]))))"

section \<open>The worker functions\<close>

datatype wpc = W_lock | W_loop u64

datatype wres = W_block | W_fault | W_step mem mutex wpc | W_ret mem mutex int

text \<open>
  One step of a worker: at \<open>W_lock\<close> it is in \<open>mutex_lock_interruptible\<close>, at \<open>W_loop idx\<close> it is
  about to test the loop condition with that index.
\<close>

definition xor_encrypt_worker ::
  "nat \<Rightarrow> worker_args_t \<Rightarrow> bool \<Rightarrow> bool \<Rightarrow> bool \<Rightarrow> mem \<Rightarrow> mutex \<Rightarrow> wpc \<Rightarrow> wres" where
  "xor_encrypt_worker me args intr sig stop m lk pc =
     (case pc of
        W_lock \<Rightarrow> (case mutex_lock_interruptible intr sig me lk of
            Lock_wait \<Rightarrow> W_block
          | Lock_eintr \<Rightarrow> W_ret m lk (- EINTR)
          | Lock_acquired lk' \<Rightarrow> W_step m lk' (W_loop (range_start args)))
      | W_loop idx \<Rightarrow>
          if idx < range_end args then
            if stop then W_ret m (mutex_unlock lk) (- EINTR)
            else (case xor_byte m (input_data args) (cipher_key args) (key_length args) idx of
                None \<Rightarrow> W_fault
              | Some m' \<Rightarrow> W_step m' lk (W_loop (idx + 1)))
          else W_ret m (mutex_unlock lk) 0)"

definition xor_decrypt_worker ::
  "nat \<Rightarrow> decrypt_thread_args_t \<Rightarrow> bool \<Rightarrow> bool \<Rightarrow> bool \<Rightarrow> mem \<Rightarrow> mutex \<Rightarrow> wpc \<Rightarrow> wres" where
  "xor_decrypt_worker me args intr sig stop m lk pc =
     (case pc of
        W_lock \<Rightarrow> (case mutex_lock_interruptible intr sig me lk of
            Lock_wait \<Rightarrow> W_block
          | Lock_eintr \<Rightarrow> W_ret m lk (- EINTR)
          | Lock_acquired lk' \<Rightarrow> W_step m lk' (W_loop (d_start_offset args)))
      | W_loop i \<Rightarrow>
          if i < d_end_offset args then
            if stop then W_ret m (mutex_unlock lk) (- EINTR)
            else (case xor_byte m (d_buffer args) (d_key args) (d_key_length args) i of
                None \<Rightarrow> W_fault
              | Some m' \<Rightarrow> W_step m' lk (W_loop (i + 1)))
          else W_ret m (mutex_unlock lk) 0)"

section \<open>The threads of one system call\<close>

datatype tpc = T_created | T_run wpc | T_exited

record 'a wthread =
  t_args :: 'a
  t_kt :: kthread
  t_pc :: tpc

text \<open>
  The main thread: creating worker i, about to stop worker i, waiting for worker i to exit,
  writing the output file, at the cleanup label, returned.
\<close>

datatype mpc = M_create nat | M_stop nat | M_join nat | M_save | M_cleanup int | M_done int

record ('a, 'f) xstate =
  xs_mem :: mem
  xs_lock :: mutex
  xs_thr :: "'a wthread list"
  xs_offset :: u64
  xs_mpc :: mpc
  xs_saved :: "u8 list option"
  xs_fs :: 'f
  xs_fault :: bool
  xs_dead_stop :: bool

text \<open>
  What one call is run with: the number of threads, the lengths, the segment size, the result
  of creating thread i (None, or the error of \<open>kthread_run\<close>) and the function that writes the
  output file.
\<close>

record 'f xcall =
  xc_num :: nat
  xc_len :: u64
  xc_klen :: u64
  xc_seg :: u64
  xc_create :: "nat \<Rightarrow> int option"
  xc_save :: "'f \<Rightarrow> u8 list \<Rightarrow> int \<times> 'f"

text \<open>The bodies of the two creation loops up to \<open>kthread_run\<close>.\<close>

definition worker_args_init :: "'f xcall \<Rightarrow> nat \<Rightarrow> u64 \<Rightarrow> worker_args_t" where
  "worker_args_init c i off =
     \<lparr>input_data = FILE_DATA, cipher_key = KEY_DATA, range_start = off,
      range_end = (if Suc i = xc_num c then xc_len c else off + xc_seg c),
      key_length = xc_klen c\<rparr>"

definition decrypt_args_init :: "'f xcall \<Rightarrow> nat \<Rightarrow> u64 \<Rightarrow> decrypt_thread_args_t" where
  "decrypt_args_init c i off =
     \<lparr>d_buffer = FILE_DATA, d_key = KEY_DATA, d_start_offset = off,
      d_end_offset = (if Suc i = xc_num c then xc_len c else off + xc_seg c),
      d_key_length = xc_klen c\<rparr>"

text \<open>
  One step of the main thread; None is a blocked or finished main thread, and nothing moves
  after a fault. \<open>xs_dead_stop\<close> records a \<open>kthread_stop\<close> on a thread that has exited already.
\<close>

definition pool_main ::
  "('f xcall \<Rightarrow> nat \<Rightarrow> u64 \<Rightarrow> 'a) \<Rightarrow> 'f xcall \<Rightarrow> ('a, 'f) xstate \<Rightarrow> ('a, 'f) xstate option" where
  "pool_main mk c s =
     (if xs_fault s then None else
      case xs_mpc s of
        M_create i \<Rightarrow>
          if i < xc_num c then
            (case xc_create c i of
               Some e \<Rightarrow> Some (s\<lparr>xs_offset := xs_offset s + xc_seg c, xs_mpc := M_cleanup e\<rparr>)
             | None \<Rightarrow> Some (s\<lparr>xs_thr := xs_thr s @
                   [\<lparr>t_args = mk c i (xs_offset s), t_kt = set_kthread_struct,
                     t_pc = T_created\<rparr>],
                 xs_offset := xs_offset s + xc_seg c, xs_mpc := M_create (Suc i)\<rparr>))
          else Some (s\<lparr>xs_mpc := M_stop 0\<rparr>)
      | M_stop i \<Rightarrow>
          if i < xc_num c then
            (let t = xs_thr s ! i in
             Some (s\<lparr>xs_thr := (xs_thr s)[i := t\<lparr>t_kt := kthread_stop_request (t_kt t)\<rparr>],
               xs_dead_stop := (xs_dead_stop s \<or> kt_exited (t_kt t)), xs_mpc := M_join i\<rparr>))
          else Some (s\<lparr>xs_mpc := M_save\<rparr>)
      | M_join i \<Rightarrow>
          (case kthread_stop_return (t_kt (xs_thr s ! i)) of
             None \<Rightarrow> None
           | Some worker_result \<Rightarrow> Some (s\<lparr>xs_mpc := M_stop (Suc i)\<rparr>))
      | M_save \<Rightarrow>
          (case xs_mem s FILE_DATA of
             None \<Rightarrow> Some (s\<lparr>xs_fault := True\<rparr>)
           | Some d \<Rightarrow> (case xc_save c (xs_fs s) d of (r, fs) \<Rightarrow>
               Some (s\<lparr>xs_saved := Some d, xs_fs := fs, xs_mpc := M_cleanup r\<rparr>)))
      | M_cleanup r \<Rightarrow>
          Some (s\<lparr>xs_mem := (xs_mem s)(FILE_DATA := None, KEY_DATA := None, WORKERS := None,
                     WORKER_ARGS := None), xs_mpc := M_done r\<rparr>)
      | M_done r \<Rightarrow> None)"

text \<open>
  One step of worker i. A created thread runs the tail of \<open>kthread\<close>; a running one reads its
  arguments, which must not have been freed.
\<close>

definition pool_thread ::
  "(nat \<Rightarrow> 'a \<Rightarrow> bool \<Rightarrow> bool \<Rightarrow> bool \<Rightarrow> mem \<Rightarrow> mutex \<Rightarrow> wpc \<Rightarrow> wres) \<Rightarrow> bool \<Rightarrow> nat \<Rightarrow>
   ('a, 'f) xstate \<Rightarrow> ('a, 'f) xstate option" where
  "pool_thread wfn intr i s =
     (if xs_fault s \<or> length (xs_thr s) \<le> i then None else
      let t = xs_thr s ! i in
      case t_pc t of
        T_exited \<Rightarrow> None
      | T_created \<Rightarrow>
          (if intr then None else
           case kthread_main (t_kt t) of
             Inl k \<Rightarrow> Some (s\<lparr>xs_thr := (xs_thr s)[i := t\<lparr>t_kt := k, t_pc := T_exited\<rparr>]\<rparr>)
           | Inr (go, k) \<Rightarrow>
               if go then Some (s\<lparr>xs_thr := (xs_thr s)[i := t\<lparr>t_kt := k, t_pc := T_run W_lock\<rparr>]\<rparr>)
               else None)
      | T_run pc \<Rightarrow>
          if xs_mem s WORKER_ARGS = None then Some (s\<lparr>xs_fault := True\<rparr>) else
          (case wfn i (t_args t) intr (kt_notify (t_kt t)) (kthread_should_stop (t_kt t))
                  (xs_mem s) (xs_lock s) pc of
             W_block \<Rightarrow> None
           | W_fault \<Rightarrow> Some (s\<lparr>xs_fault := True\<rparr>)
           | W_step m lk pc' \<Rightarrow>
               Some (s\<lparr>xs_mem := m, xs_lock := lk,
                 xs_thr := (xs_thr s)[i := t\<lparr>t_pc := T_run pc'\<rparr>]\<rparr>)
           | W_ret m lk r \<Rightarrow>
               Some (s\<lparr>xs_mem := m, xs_lock := lk,
                 xs_thr := (xs_thr s)[i := t\<lparr>t_kt := kthread_exit (t_kt t) r, t_pc := T_exited\<rparr>]\<rparr>)))"

text \<open>A schedule is a list of events; an event that is not enabled leaves the state as it is.\<close>

datatype event = Main | Run nat | Intr nat

fun pool_event where
  "pool_event wfn mk c s Main = pool_main mk c s"
| "pool_event wfn mk c s (Run i) = pool_thread wfn False i s"
| "pool_event wfn mk c s (Intr i) = pool_thread wfn True i s"

fun pool_run where
  "pool_run wfn mk c s [] = s"
| "pool_run wfn mk c s (e # es) =
     pool_run wfn mk c (case pool_event wfn mk c s e of None \<Rightarrow> s | Some s' \<Rightarrow> s') es"

text \<open>The state in which the creation loop starts, all four objects allocated.\<close>

definition pool_init :: "u8 list \<Rightarrow> u8 list \<Rightarrow> 'f \<Rightarrow> ('a, 'f) xstate" where
  "pool_init data key fs =
     \<lparr>xs_mem = [FILE_DATA \<mapsto> data, KEY_DATA \<mapsto> key, WORKERS \<mapsto> [], WORKER_ARGS \<mapsto> []],
      xs_lock = None, xs_thr = [], xs_offset = 0, xs_mpc = M_create 0, xs_saved = None,
      xs_fs = fs, xs_fault = False, xs_dead_stop = False\<rparr>"

inductive pool_reach for wfn mk c s0 where
  start: "pool_reach wfn mk c s0 s0"
| step: "pool_reach wfn mk c s0 s \<Longrightarrow> pool_event wfn mk c s e = Some s' \<Longrightarrow>
    pool_reach wfn mk c s0 s'"

section \<open>What the ciphertext should be\<close>

definition xor_stream :: "u8 list \<Rightarrow> u8 list \<Rightarrow> nat \<Rightarrow> u8 list" where
  "xor_stream d key kl = map (\<lambda>p. d ! p XOR key ! (p mod kl)) [0..<length d]"

definition range_lo :: "nat \<Rightarrow> nat \<Rightarrow> nat \<Rightarrow> nat" where
  "range_lo n len i = i * (len div n)"

definition range_hi :: "nat \<Rightarrow> nat \<Rightarrow> nat \<Rightarrow> nat" where
  "range_hi n len i = (if Suc i = n then len else Suc i * (len div n))"

end
