(* ===== verification/Xor_Pool.thy ===== *)
theory Xor_Pool
  imports Xor_Workers
begin

text \<open>
  Correctness of the worker pool under every interleaving. The interface between the pool and
  a worker function is the locale \<open>xor_pool\<close>; the invariant, its consequences and the
  termination argument are proved once in it and then taken over by both system calls.
\<close>

section \<open>The ranges partition the data\<close>

lemma range_lo_hi: "i < n \<Longrightarrow> range_lo n len i \<le> range_hi n len i"
proof -
  assume i: "i < n"
  have "i * (len div n) \<le> n * (len div n)" using i by simp
  also have "\<dots> \<le> len" by simp
  finally show ?thesis by (simp add: range_lo_def range_hi_def)
qed

lemma range_hi_le: "i < n \<Longrightarrow> range_hi n len i \<le> len"
proof -
  assume i: "i < n"
  have "Suc i * (len div n) \<le> n * (len div n)" using i by (intro mult_le_mono1) simp
  also have "\<dots> \<le> len" by simp
  finally show ?thesis by (simp add: range_hi_def)
qed

lemma range_hi_next: "Suc i < n \<Longrightarrow> range_hi n len i = range_lo n len (Suc i)"
  by (simp add: range_lo_def range_hi_def)

lemma range_before:
  assumes "i < j" "j < n"
  shows "range_hi n len i \<le> range_lo n len j"
proof -
  have "Suc i * (len div n) \<le> j * (len div n)" using assms by (intro mult_le_mono1) simp
  then show ?thesis using assms by (simp add: range_lo_def range_hi_def)
qed

lemma range_disjoint:
  assumes "i < n" "j < n" "range_lo n len i \<le> p" "p < range_hi n len i"
    "range_lo n len j \<le> p" "p < range_hi n len j"
  shows "i = j"
proof (rule ccontr)
  assume "i \<noteq> j"
  then consider "i < j" | "j < i" by linarith
  then show False
    using range_before [of i j n len] range_before [of j i n len] assms by cases linarith+
qed

text \<open>The thread whose range holds position p.\<close>

definition owner_of :: "nat \<Rightarrow> nat \<Rightarrow> nat \<Rightarrow> nat" where
  "owner_of n len p = (if len div n = 0 then n - 1 else min (n - 1) (p div (len div n)))"

lemma owner_of_range:
  assumes "0 < n" "p < len"
  shows "owner_of n len p < n" "range_lo n len (owner_of n len p) \<le> p"
    "p < range_hi n len (owner_of n len p)"
proof -
  let ?s = "len div n"
  show "owner_of n len p < n" using assms by (auto simp: owner_of_def)
  have *: "range_lo n len (owner_of n len p) \<le> p \<and> p < range_hi n len (owner_of n len p)"
  proof (cases "?s = 0")
    case True
    then show ?thesis using assms by (simp add: owner_of_def range_lo_def range_hi_def)
  next
    case False
    show ?thesis
    proof (cases "p div ?s < n - 1")
      case True
      have "p div ?s * ?s \<le> p" by simp
      moreover have "p < Suc (p div ?s) * ?s"
        using False by (simp add: dividend_less_div_times)
      ultimately show ?thesis
        using True False assms by (simp add: owner_of_def range_lo_def range_hi_def)
    next
      case ge: False
      then have "(n - 1) * ?s \<le> p div ?s * ?s" by (intro mult_le_mono1) simp
      also have "\<dots> \<le> p" by simp
      finally show ?thesis
        using ge False assms by (simp add: owner_of_def range_lo_def range_hi_def min_def)
    qed
  qed
  then show "range_lo n len (owner_of n len p) \<le> p" "p < range_hi n len (owner_of n len p)"
    by auto
qed

section \<open>The data at a given progress\<close>

text \<open>Thread i has processed its range up to \<open>prog i\<close>.\<close>

definition blend :: "u8 list \<Rightarrow> u8 list \<Rightarrow> nat \<Rightarrow> nat \<Rightarrow> (nat \<Rightarrow> nat) \<Rightarrow> u8 list" where
  "blend d key kl n prog =
     map (\<lambda>p. if p < prog (owner_of n (length d) p) then d ! p XOR key ! (p mod kl) else d ! p)
       [0..<length d]"

lemma length_blend [simp]: "length (blend d key kl n prog) = length d"
  by (simp add: blend_def)

lemma nth_blend: "p < length d \<Longrightarrow>
    blend d key kl n prog ! p =
      (if p < prog (owner_of n (length d) p) then d ! p XOR key ! (p mod kl) else d ! p)"
  by (simp add: blend_def)

lemma blend_start:
  assumes "0 < n" "\<And>i. i < n \<Longrightarrow> prog i = range_lo n (length d) i"
  shows "blend d key kl n prog = d"
proof (rule nth_equalityI)
  fix p assume "p < length (blend d key kl n prog)"
  then have p: "p < length d" by simp
  with assms owner_of_range [of n p "length d"]
  have "\<not> p < prog (owner_of n (length d) p)" by simp
  with p show "blend d key kl n prog ! p = d ! p" by (simp add: nth_blend)
qed simp

lemma blend_full:
  assumes "0 < n" "\<And>i. i < n \<Longrightarrow> prog i = range_hi n (length d) i"
  shows "blend d key kl n prog = xor_stream d key kl"
proof (rule nth_equalityI)
  fix p assume "p < length (blend d key kl n prog)"
  then have p: "p < length d" by simp
  with assms owner_of_range [of n p "length d"]
  have "p < prog (owner_of n (length d) p)" by simp
  with p show "blend d key kl n prog ! p = xor_stream d key kl ! p"
    by (simp add: nth_blend xor_stream_def)
qed (simp add: xor_stream_def)

lemma blend_advance:
  assumes i: "i < n" and lo: "range_lo n (length d) i \<le> prog i"
    and hi: "prog i < range_hi n (length d) i"
    and others: "\<And>j. j < n \<Longrightarrow> prog j \<le> range_hi n (length d) j"
  shows "(blend d key kl n prog)[prog i := blend d key kl n prog ! prog i XOR key ! (prog i mod kl)] =
         blend d key kl n (prog(i := Suc (prog i)))"
proof (rule nth_equalityI)
  let ?L = "length d"
  fix p assume "p < length ((blend d key kl n prog)[prog i := blend d key kl n prog ! prog i XOR key ! (prog i mod kl)])"
  then have p: "p < ?L" by simp
  have n: "0 < n" using i by simp
  have own: "owner_of n ?L (prog i) = i"
  proof -
    have L: "prog i < ?L" using hi range_hi_le [OF i, of ?L] by linarith
    show ?thesis
      using range_disjoint [OF owner_of_range(1) i owner_of_range(2,3) lo hi] n L by blast
  qed
  show "(blend d key kl n prog)[prog i := blend d key kl n prog ! prog i XOR key ! (prog i mod kl)] ! p =
        blend d key kl n (prog(i := Suc (prog i))) ! p"
    using p own by (cases "p = prog i") (auto simp: nth_blend nth_list_update less_Suc_eq)
qed simp

section \<open>The invariant\<close>

definition call_ok :: "'f xcall \<Rightarrow> u8 list \<Rightarrow> u8 list \<Rightarrow> bool" where
  "call_ok c d key \<longleftrightarrow>
     0 < xc_num c \<and> xc_num c < 2 ^ 31 \<and> unat (xc_len c) = length d \<and>
     xc_klen c \<noteq> 0 \<and> unat (xc_klen c) \<le> length key \<and>
     xc_seg c = xc_len c div word_of_nat (xc_num c) \<and> (\<forall>i < xc_num c. xc_create c i = None)"

definition thr_ok ::
  "('f xcall \<Rightarrow> nat \<Rightarrow> u64 \<Rightarrow> 'a) \<Rightarrow> 'f xcall \<Rightarrow> nat \<Rightarrow> nat \<Rightarrow> 'a wthread \<Rightarrow> nat \<Rightarrow> bool" where
  "thr_ok mk c L i t q \<longleftrightarrow>
     (\<exists>off. t_args t = mk c i off \<and> unat off = range_lo (xc_num c) L i) \<and>
     \<not> kthread_should_park (t_kt t) \<and>
     range_lo (xc_num c) L i \<le> q \<and> q \<le> range_hi (xc_num c) L i \<and>
     kt_exited (t_kt t) = (t_pc t = T_exited) \<and>
     (case t_pc t of
        T_created \<Rightarrow> q = range_lo (xc_num c) L i
      | T_run W_lock \<Rightarrow> q = range_lo (xc_num c) L i
      | T_run (W_loop idx) \<Rightarrow> q = unat idx
      | T_exited \<Rightarrow> kt_result (t_kt t) = 0 \<and> q = range_hi (xc_num c) L i \<or>
                    kt_result (t_kt t) = - EINTR)"

definition in_loop :: "'a wthread \<Rightarrow> bool" where
  "in_loop t \<longleftrightarrow> (\<exists>idx. t_pc t = T_run (W_loop idx))"

definition all_exited :: "nat \<Rightarrow> 'a wthread list \<Rightarrow> bool" where
  "all_exited m ts \<longleftrightarrow> (\<forall>j < m. t_pc (ts ! j) = T_exited)"

definition phase_ok ::
  "'f xcall \<Rightarrow> 'f \<Rightarrow> u8 list \<Rightarrow> u8 list \<Rightarrow> ('a, 'f) xstate \<Rightarrow> bool" where
  "phase_ok c fs0 buf key s \<longleftrightarrow>
     (case xs_mpc s of
        M_create i \<Rightarrow> length (xs_thr s) = i \<and> i \<le> xc_num c \<and>
          unat (xs_offset s) = i * unat (xc_seg c) \<and>
          (\<forall>j < i. \<not> kthread_should_stop (t_kt (xs_thr s ! j)))
      | M_stop i \<Rightarrow> length (xs_thr s) = xc_num c \<and> i \<le> xc_num c \<and> all_exited i (xs_thr s)
      | M_join i \<Rightarrow> length (xs_thr s) = xc_num c \<and> i < xc_num c \<and> all_exited i (xs_thr s) \<and>
          kthread_should_stop (t_kt (xs_thr s ! i))
      | M_save \<Rightarrow> length (xs_thr s) = xc_num c \<and> all_exited (xc_num c) (xs_thr s)
      | M_cleanup r \<Rightarrow> length (xs_thr s) = xc_num c \<and> all_exited (xc_num c) (xs_thr s) \<and>
          xs_saved s = Some buf \<and> (r, xs_fs s) = xc_save c fs0 buf
      | M_done r \<Rightarrow> length (xs_thr s) = xc_num c \<and> all_exited (xc_num c) (xs_thr s) \<and>
          xs_saved s = Some buf \<and> (r, xs_fs s) = xc_save c fs0 buf)"

definition before_save :: "mpc \<Rightarrow> bool" where
  "before_save pc \<longleftrightarrow> (case pc of M_cleanup _ \<Rightarrow> False | M_done _ \<Rightarrow> False | _ \<Rightarrow> True)"

definition pool_inv ::
  "('f xcall \<Rightarrow> nat \<Rightarrow> u64 \<Rightarrow> 'a) \<Rightarrow> 'f xcall \<Rightarrow> 'f \<Rightarrow> u8 list \<Rightarrow> u8 list \<Rightarrow> (nat \<Rightarrow> nat) \<Rightarrow>
   ('a, 'f) xstate \<Rightarrow> bool" where
  "pool_inv mk c fs0 d key prog s \<longleftrightarrow>
     \<not> xs_fault s \<and>
     length (xs_thr s) \<le> xc_num c \<and>
     (\<forall>i < length (xs_thr s). thr_ok mk c (length d) i (xs_thr s ! i) (prog i)) \<and>
     (\<forall>i. length (xs_thr s) \<le> i \<longrightarrow> prog i = range_lo (xc_num c) (length d) i) \<and>
     (\<forall>i. xs_lock s = Some i \<longleftrightarrow> i < length (xs_thr s) \<and> in_loop (xs_thr s ! i)) \<and>
     ((\<forall>r. xs_mpc s \<noteq> M_done r) \<longrightarrow>
        xs_mem s FILE_DATA = Some (blend d key (unat (xc_klen c)) (xc_num c) prog) \<and>
        xs_mem s KEY_DATA = Some key \<and> xs_mem s WORKER_ARGS \<noteq> None) \<and>
     (before_save (xs_mpc s) \<longrightarrow> xs_fs s = fs0) \<and>
     phase_ok c fs0 (blend d key (unat (xc_klen c)) (xc_num c) prog) key s"

lemma pool_invD:
  assumes "pool_inv mk c fs0 d key prog s"
  shows "\<not> xs_fault s" "length (xs_thr s) \<le> xc_num c"
    "\<And>i. i < length (xs_thr s) \<Longrightarrow> thr_ok mk c (length d) i (xs_thr s ! i) (prog i)"
    "\<And>i. length (xs_thr s) \<le> i \<Longrightarrow> prog i = range_lo (xc_num c) (length d) i"
    "\<And>i. xs_lock s = Some i \<longleftrightarrow> i < length (xs_thr s) \<and> in_loop (xs_thr s ! i)"
    "(\<And>r. xs_mpc s \<noteq> M_done r) \<Longrightarrow>
      xs_mem s FILE_DATA = Some (blend d key (unat (xc_klen c)) (xc_num c) prog)"
    "(\<And>r. xs_mpc s \<noteq> M_done r) \<Longrightarrow> xs_mem s KEY_DATA = Some key"
    "(\<And>r. xs_mpc s \<noteq> M_done r) \<Longrightarrow> xs_mem s WORKER_ARGS \<noteq> None"
    "before_save (xs_mpc s) \<Longrightarrow> xs_fs s = fs0"
    "phase_ok c fs0 (blend d key (unat (xc_klen c)) (xc_num c) prog) key s"
  using assms by (simp_all add: pool_inv_def)

lemma pool_inv_main:
  assumes inv: "pool_inv mk c fs0 d key prog s"
    and same: "xs_lock s' = xs_lock s" "xs_fault s' = xs_fault s" "xs_thr s' = xs_thr s"
    and mem: "xs_mem s' = xs_mem s \<or> (\<exists>r. xs_mpc s' = M_done r)"
    and pc: "\<And>r. xs_mpc s \<noteq> M_done r"
    and fs: "before_save (xs_mpc s') \<Longrightarrow> xs_fs s' = xs_fs s \<and> before_save (xs_mpc s)"
    and ph: "phase_ok c fs0 (blend d key (unat (xc_klen c)) (xc_num c) prog) key s'"
  shows "pool_inv mk c fs0 d key prog s'"
  using pool_invD [OF inv] same mem pc fs ph unfolding pool_inv_def by auto

lemma call_ok_seg:
  assumes "call_ok c d key"
  shows "unat (xc_seg c) = length d div xc_num c"
proof -
  have "unat (word_of_nat (xc_num c) :: u64) = xc_num c"
    using assms by (simp add: call_ok_def unat_of_nat)
  then show ?thesis using assms by (simp add: call_ok_def unat_div)
qed

lemma call_ok_key_index:
  assumes "call_ok c d key"
  shows "unat (idx mod xc_klen c) = unat idx mod unat (xc_klen c)"
    "unat idx mod unat (xc_klen c) < length key"
proof -
  have "0 < unat (xc_klen c)"
    using assms by (auto simp: call_ok_def unat_eq_0 intro: gr0I)
  then have "unat idx mod unat (xc_klen c) < unat (xc_klen c)" by simp
  then show "unat idx mod unat (xc_klen c) < length key"
    using assms by (simp add: call_ok_def)
  show "unat (idx mod xc_klen c) = unat idx mod unat (xc_klen c)"
    by (simp add: unat_mod)
qed

lemma range_hi_seg:
  assumes ok: "call_ok c d key" and i: "i < xc_num c"
    and off: "unat off = range_lo (xc_num c) (length d) i"
  shows "unat (if Suc i = xc_num c then xc_len c else off + xc_seg c) =
         range_hi (xc_num c) (length d) i"
proof (cases "Suc i = xc_num c")
  case True
  then show ?thesis using ok by (simp add: call_ok_def range_hi_def)
next
  case False
  have sum: "unat off + unat (xc_seg c) = range_hi (xc_num c) (length d) i"
    using False off call_ok_seg [OF ok] by (simp add: range_lo_def range_hi_def)
  also have "\<dots> \<le> length d" using i by (rule range_hi_le)
  also have "\<dots> < 2 ^ 64" using ok unat_bound [of "xc_len c"] by (simp add: call_ok_def)
  finally have "unat (off + xc_seg c) = unat off + unat (xc_seg c)"
    by (simp add: unat_word_ariths)
  then show ?thesis using False sum by simp
qed

text \<open>Replacing one thread that has not exited keeps the invariant.\<close>

lemma pool_inv_thread:
  assumes inv: "pool_inv mk c fs0 d key prog s"
    and i: "i < length (xs_thr s)" and run: "t_pc (xs_thr s ! i) \<noteq> T_exited"
    and ok: "thr_ok mk c (length d) i t' q"
    and stop: "kthread_should_stop (t_kt t') = kthread_should_stop (t_kt (xs_thr s ! i))"
    and lki: "lk' = Some i \<longleftrightarrow> in_loop t'"
    and lkj: "\<And>j. j \<noteq> i \<Longrightarrow> lk' = Some j \<longleftrightarrow> xs_lock s = Some j"
    and m: "m' FILE_DATA = Some (blend d key (unat (xc_klen c)) (xc_num c) (prog(i := q)))"
      "m' KEY_DATA = xs_mem s KEY_DATA" "m' WORKER_ARGS = xs_mem s WORKER_ARGS"
  shows "pool_inv mk c fs0 d key (prog(i := q))
           (s\<lparr>xs_mem := m', xs_lock := lk', xs_thr := (xs_thr s)[i := t']\<rparr>)"
proof -
  have le: "length (xs_thr s) \<le> xc_num c" using inv by (simp add: pool_inv_def)
  have ph: "phase_ok c fs0 (blend d key (unat (xc_klen c)) (xc_num c) prog) key s"
    using inv by (simp add: pool_inv_def)
  have notdone: "before_save (xs_mpc s)" "\<And>r. xs_mpc s \<noteq> M_done r"
    using ph i run le
    by (auto simp: phase_ok_def all_exited_def before_save_def split: mpc.splits)
  have "phase_ok c fs0 (blend d key (unat (xc_klen c)) (xc_num c) (prog(i := q))) key
          (s\<lparr>xs_mem := m', xs_lock := lk', xs_thr := (xs_thr s)[i := t']\<rparr>)"
    using ph i run stop notdone
    by (cases "xs_mpc s")
      (auto simp: phase_ok_def all_exited_def before_save_def nth_list_update)
  then show ?thesis
    using inv i ok lki lkj m notdone le
    by (auto simp: pool_inv_def nth_list_update)
qed

section \<open>A bound on the length of every run\<close>

definition main_rank :: "nat \<Rightarrow> mpc \<Rightarrow> nat" where
  "main_rank n pc = (case pc of M_create i \<Rightarrow> (n - i) + 2 * n + 4 | M_stop i \<Rightarrow> 2 * (n - i) + 3
     | M_join i \<Rightarrow> 2 * (n - i) + 2 | M_save \<Rightarrow> 2 | M_cleanup _ \<Rightarrow> 1 | M_done _ \<Rightarrow> 0)"

definition thr_rank :: "nat \<Rightarrow> 'a wthread \<Rightarrow> nat" where
  "thr_rank L t = (case t_pc t of T_created \<Rightarrow> L + 3 | T_run W_lock \<Rightarrow> L + 2
     | T_run (W_loop idx) \<Rightarrow> Suc (L - unat idx) | T_exited \<Rightarrow> 0)"

definition pool_rank :: "nat \<Rightarrow> nat \<Rightarrow> ('a, 'f) xstate \<Rightarrow> nat" where
  "pool_rank n L s = (L + 4) * main_rank n (xs_mpc s) + sum_list (map (thr_rank L) (xs_thr s))"

fun pool_exec where
  "pool_exec wfn mk c s [] = Some s"
| "pool_exec wfn mk c s (e # es) =
     (case pool_event wfn mk c s e of None \<Rightarrow> None | Some s' \<Rightarrow> pool_exec wfn mk c s' es)"

lemma sum_list_map_update:
  fixes f :: "'a \<Rightarrow> nat"
  assumes "i < length xs"
  shows "sum_list (map f (xs[i := x])) + f (xs ! i) = sum_list (map f xs) + f x"
  using assms by (induction xs arbitrary: i) (auto split: nat.splits)

lemma sum_list_map_update_same:
  fixes f :: "'a \<Rightarrow> nat"
  assumes "i < length xs" "f x = f (xs ! i)"
  shows "sum_list (map f (xs[i := x])) = sum_list (map f xs)"
  using sum_list_map_update [OF assms(1), of f x] assms(2) by simp

lemma thr_rank_kt [simp]: "thr_rank L (t\<lparr>t_kt := k\<rparr>) = thr_rank L t"
  by (simp add: thr_rank_def)

lemma thr_rank_created [simp]: "t_pc t = T_created \<Longrightarrow> thr_rank L t = L + 3"
  by (simp add: thr_rank_def)

lemma thr_rank_update:
  assumes "i < length (xs_thr s)" "thr_rank L t < thr_rank L (xs_thr s ! i)"
  shows "pool_rank n L (s\<lparr>xs_mem := m, xs_lock := lk, xs_thr := (xs_thr s)[i := t]\<rparr>) < pool_rank n L s"
    "pool_rank n L (s\<lparr>xs_lock := lk, xs_thr := (xs_thr s)[i := t]\<rparr>) < pool_rank n L s"
    "pool_rank n L (s\<lparr>xs_thr := (xs_thr s)[i := t]\<rparr>) < pool_rank n L s"
  using sum_list_map_update [of i "xs_thr s" "thr_rank L" t] assms by (simp_all add: pool_rank_def)

lemma main_rank_step:
  assumes "main_rank n pc' < main_rank n (xs_mpc s)"
    "sum_list (map (thr_rank L) ts) \<le> sum_list (map (thr_rank L) (xs_thr s)) + (L + 3)"
    "xs_mpc s' = pc'" "xs_thr s' = ts"
  shows "pool_rank n L s' < pool_rank n L s"
proof -
  have "(L + 4) * Suc (main_rank n pc') \<le> (L + 4) * main_rank n (xs_mpc s)"
    using assms(1) by (intro mult_le_mono2) simp
  then show ?thesis using assms(2-4) by (simp add: pool_rank_def)
qed

section \<open>The interface between the pool and a worker function\<close>

locale xor_pool =
  fixes wfn :: "nat \<Rightarrow> 'a \<Rightarrow> bool \<Rightarrow> bool \<Rightarrow> bool \<Rightarrow> mem \<Rightarrow> mutex \<Rightarrow> wpc \<Rightarrow> wres"
    and mk :: "'f xcall \<Rightarrow> nat \<Rightarrow> u64 \<Rightarrow> 'a"
  assumes lock_wait: "mutex_lock_interruptible intr sig me lk = Lock_wait \<Longrightarrow>
      wfn me a intr sig stop m lk W_lock = W_block"
    and lock_eintr: "mutex_lock_interruptible intr sig me lk = Lock_eintr \<Longrightarrow>
      wfn me a intr sig stop m lk W_lock = W_ret m lk (- EINTR)"
    and lock_acquired: "mutex_lock_interruptible intr sig me lk = Lock_acquired lk' \<Longrightarrow>
      wfn me (mk c i off) intr sig stop m lk W_lock = W_step m lk' (W_loop off)"
    and loop_finish: "\<not> idx < (if Suc i = xc_num c then xc_len c else off + xc_seg c) \<Longrightarrow>
      wfn me (mk c i off) intr sig stop m lk (W_loop idx) = W_ret m None 0"
    and loop_stopped: "idx < (if Suc i = xc_num c then xc_len c else off + xc_seg c) \<Longrightarrow>
      wfn me (mk c i off) intr sig True m lk (W_loop idx) = W_ret m None (- EINTR)"
    and loop_byte: "idx < (if Suc i = xc_num c then xc_len c else off + xc_seg c) \<Longrightarrow>
      m FILE_DATA = Some buf \<Longrightarrow> m KEY_DATA = Some key \<Longrightarrow> unat idx < length buf \<Longrightarrow>
      xc_klen c \<noteq> 0 \<Longrightarrow> unat (idx mod xc_klen c) < length key \<Longrightarrow>
      wfn me (mk c i off) intr sig False m lk (W_loop idx) =
        W_step (m(FILE_DATA \<mapsto> buf[unat idx := buf ! unat idx XOR key ! unat (idx mod xc_klen c)]))
          lk (W_loop (idx + 1))"
begin

lemma init_inv:
  assumes "call_ok c d key"
  shows "pool_inv mk c fs d key (range_lo (xc_num c) (length d)) (pool_init d key fs)"
proof -
  have "blend d key (unat (xc_klen c)) (xc_num c) (range_lo (xc_num c) (length d)) = d"
    using assms by (intro blend_start) (simp_all add: call_ok_def)
  then show ?thesis
    by (simp add: pool_inv_def pool_init_def phase_ok_def before_save_def obj_defs)
qed

text \<open>A worker that starts or takes the lock.\<close>

lemma created_inv:
  assumes ok: "call_ok c d key" and inv: "pool_inv mk c fs0 d key prog s"
    and i: "i < length (xs_thr s)" and pc: "t_pc (xs_thr s ! i) = T_created"
    and st: "pool_thread wfn intr i s = Some s'"
  shows "\<exists>prog'. pool_inv mk c fs0 d key prog' s'"
proof -
  let ?t = "xs_thr s ! i"
  have tok: "thr_ok mk c (length d) i ?t (prog i)" using inv i by (simp add: pool_inv_def)
  then have park: "\<not> kthread_should_park (t_kt ?t)" by (simp add: thr_ok_def)
  have notdone: "xs_mpc s \<noteq> M_done r" for r
    using inv i pc by (auto simp: pool_inv_def phase_ok_def all_exited_def)
  have nl: "xs_lock s \<noteq> Some i" using inv pc by (auto simp: pool_inv_def in_loop_def)
  define t' where "t' = (if kthread_should_stop (t_kt ?t)
      then ?t\<lparr>t_kt := kthread_exit (t_kt ?t) (- EINTR), t_pc := T_exited\<rparr>
      else ?t\<lparr>t_pc := T_run W_lock\<rparr>)"
  have s': "s' = s\<lparr>xs_mem := xs_mem s, xs_lock := xs_lock s, xs_thr := (xs_thr s)[i := t']\<rparr>"
    using st pc i park
    by (auto simp: pool_thread_def Let_def kthread_main_def kthread_parkme_def t'_def
        split: if_splits)
  have "thr_ok mk c (length d) i t' (prog i)"
    using tok pc park by (auto simp: thr_ok_def t'_def)
  then have "pool_inv mk c fs0 d key (prog(i := prog i)) s'"
    unfolding s' using inv notdone nl
    by (intro pool_inv_thread [OF inv i])
      (auto simp: pc pool_inv_def t'_def in_loop_def)
  then show ?thesis by blast
qed

lemma lock_inv:
  assumes ok: "call_ok c d key" and inv: "pool_inv mk c fs0 d key prog s"
    and i: "i < length (xs_thr s)" and pc: "t_pc (xs_thr s ! i) = T_run W_lock"
    and st: "pool_thread wfn intr i s = Some s'"
  shows "\<exists>prog'. pool_inv mk c fs0 d key prog' s'"
proof -
  let ?t = "xs_thr s ! i"
  have tok: "thr_ok mk c (length d) i ?t (prog i)" using inv i by (simp add: pool_inv_def)
  then obtain off where a: "t_args ?t = mk c i off"
    and off: "unat off = range_lo (xc_num c) (length d) i" by (auto simp: thr_ok_def)
  have notdone: "xs_mpc s \<noteq> M_done r" for r
    using inv i pc by (auto simp: pool_inv_def phase_ok_def all_exited_def)
  then have mem: "xs_mem s FILE_DATA = Some (blend d key (unat (xc_klen c)) (xc_num c) prog)"
    "xs_mem s WORKER_ARGS \<noteq> None" using inv by (auto simp: pool_inv_def)
  have nf: "\<not> xs_fault s" using inv by (simp add: pool_inv_def)
  have nl: "xs_lock s \<noteq> Some i" using inv pc by (auto simp: pool_inv_def in_loop_def)
  show ?thesis
  proof (cases "mutex_lock_interruptible intr (kt_notify (t_kt ?t)) i (xs_lock s)")
    case Lock_wait
    then show ?thesis using st pc i mem nf by (simp add: pool_thread_def Let_def lock_wait)
  next
    case Lock_eintr
    define t' where "t' = ?t\<lparr>t_kt := kthread_exit (t_kt ?t) (- EINTR), t_pc := T_exited\<rparr>"
    have s': "s' = s\<lparr>xs_mem := xs_mem s, xs_lock := xs_lock s, xs_thr := (xs_thr s)[i := t']\<rparr>"
      using st pc i mem nf Lock_eintr by (simp add: pool_thread_def Let_def lock_eintr t'_def)
    have "thr_ok mk c (length d) i t' (prog i)"
      using tok pc by (auto simp: thr_ok_def t'_def)
    then have "pool_inv mk c fs0 d key (prog(i := prog i)) s'"
      unfolding s' using mem nl
      by (intro pool_inv_thread [OF inv i]) (auto simp: pc t'_def in_loop_def)
    then show ?thesis by blast
  next
    case (Lock_acquired lk')
    then have lk: "xs_lock s = None" "lk' = Some i"
      by (auto simp: mutex_lock_interruptible_def mutex_trylock_def mutex_is_locked_def
          split: if_splits)
    define t' where "t' = ?t\<lparr>t_pc := T_run (W_loop off)\<rparr>"
    have s': "s' = s\<lparr>xs_mem := xs_mem s, xs_lock := lk', xs_thr := (xs_thr s)[i := t']\<rparr>"
      using st pc i mem nf a lock_acquired [OF Lock_acquired, of c i off]
      by (simp add: pool_thread_def Let_def t'_def)
    have "thr_ok mk c (length d) i t' (prog i)"
      using tok pc off by (auto simp: thr_ok_def t'_def)
    then have "pool_inv mk c fs0 d key (prog(i := prog i)) s'"
      unfolding s' using mem lk
      by (intro pool_inv_thread [OF inv i]) (auto simp: pc t'_def in_loop_def)
    then show ?thesis by blast
  qed
qed

text \<open>A worker in its loop holds the lock, its index is its progress, and the buffers are live.\<close>

lemma loop_facts:
  assumes ok: "call_ok c d key" and inv: "pool_inv mk c fs0 d key prog s"
    and i: "i < length (xs_thr s)" and pc: "t_pc (xs_thr s ! i) = T_run (W_loop idx)"
  obtains off where "t_args (xs_thr s ! i) = mk c i off"
    "unat (if Suc i = xc_num c then xc_len c else off + xc_seg c) =
       range_hi (xc_num c) (length d) i"
    "prog i = unat idx" "range_lo (xc_num c) (length d) i \<le> prog i"
    "prog i \<le> range_hi (xc_num c) (length d) i" "i < xc_num c"
    "xs_mem s FILE_DATA = Some (blend d key (unat (xc_klen c)) (xc_num c) prog)"
    "xs_mem s KEY_DATA = Some key" "xs_mem s WORKER_ARGS \<noteq> None"
    "\<not> xs_fault s" "xs_lock s = Some i" "thr_ok mk c (length d) i (xs_thr s ! i) (prog i)"
proof -
  let ?t = "xs_thr s ! i" and ?n = "xc_num c" and ?L = "length d"
  have iN: "i < ?n" using inv i by (simp add: pool_inv_def)
  have tok: "thr_ok mk c ?L i ?t (prog i)" using inv i by (simp add: pool_inv_def)
  then obtain off where a: "t_args ?t = mk c i off" and off: "unat off = range_lo ?n ?L i"
    by (auto simp: thr_ok_def)
  have q: "prog i = unat idx" "range_lo ?n ?L i \<le> prog i" "prog i \<le> range_hi ?n ?L i"
    using tok pc by (auto simp: thr_ok_def)
  have notdone: "xs_mpc s \<noteq> M_done r" for r
    using inv i pc by (auto simp: pool_inv_def phase_ok_def all_exited_def)
  show thesis
    by (rule that [OF a range_hi_seg [OF ok iN off] q iN])
      (use inv i pc notdone tok in \<open>auto simp: pool_inv_def in_loop_def\<close>)
qed

text \<open>What a step of such a worker does.\<close>

lemma loop_step:
  assumes ok: "call_ok c d key" and inv: "pool_inv mk c fs0 d key prog s"
    and i: "i < length (xs_thr s)" and pc: "t_pc (xs_thr s ! i) = T_run (W_loop idx)"
    and b: "b = blend d key (unat (xc_klen c)) (xc_num c) prog"
  obtains (fin) "prog i = range_hi (xc_num c) (length d) i"
      "pool_thread wfn intr i s = Some (s\<lparr>xs_mem := xs_mem s, xs_lock := None,
         xs_thr := (xs_thr s)[i := (xs_thr s ! i)\<lparr>t_kt := kthread_exit (t_kt (xs_thr s ! i)) 0,
           t_pc := T_exited\<rparr>]\<rparr>)"
  | (stop) "pool_thread wfn intr i s = Some (s\<lparr>xs_mem := xs_mem s, xs_lock := None,
         xs_thr := (xs_thr s)[i := (xs_thr s ! i)\<lparr>t_kt := kthread_exit (t_kt (xs_thr s ! i)) (- EINTR),
           t_pc := T_exited\<rparr>]\<rparr>)"
  | (byte) "prog i < range_hi (xc_num c) (length d) i" "unat (idx + 1) = Suc (unat idx)"
      "pool_thread wfn intr i s = Some (s\<lparr>xs_mem := (xs_mem s)(FILE_DATA \<mapsto>
           b[unat idx := b ! unat idx XOR key ! unat (idx mod xc_klen c)]), xs_lock := Some i,
         xs_thr := (xs_thr s)[i := (xs_thr s ! i)\<lparr>t_pc := T_run (W_loop (idx + 1))\<rparr>]\<rparr>)"
proof -
  let ?t = "xs_thr s ! i"
  obtain off where a: "t_args ?t = mk c i off"
    and hi: "unat (if Suc i = xc_num c then xc_len c else off + xc_seg c) =
       range_hi (xc_num c) (length d) i"
    and q: "prog i = unat idx" "prog i \<le> range_hi (xc_num c) (length d) i" and iN: "i < xc_num c"
    and mem: "xs_mem s FILE_DATA = Some b" "xs_mem s KEY_DATA = Some key"
      "xs_mem s WORKER_ARGS \<noteq> None" "\<not> xs_fault s" and lk: "xs_lock s = Some i"
    using loop_facts [OF ok inv i pc] b by metis
  let ?hi = "if Suc i = xc_num c then xc_len c else off + xc_seg c"
  note unfold = pc i mem a lk
  consider "\<not> idx < ?hi" | "idx < ?hi" "kthread_should_stop (t_kt ?t)"
    | "idx < ?hi" "\<not> kthread_should_stop (t_kt ?t)" by blast
  then show thesis
  proof cases
    case 1
    then have "prog i = range_hi (xc_num c) (length d) i"
      using hi q by (simp add: word_less_nat_alt del: if_split)
    then show ?thesis
      using 1 unfold by (intro fin) (auto simp: pool_thread_def Let_def loop_finish)
  next
    case 2
    then show ?thesis
      using unfold by (intro stop) (auto simp: pool_thread_def Let_def loop_stopped)
  next
    case 3
    have lt: "prog i < range_hi (xc_num c) (length d) i"
      using 3(1) hi q(1) by (simp add: word_less_nat_alt del: if_split)
    then have len: "unat idx < length b" using range_hi_le [OF iN, of "length d"] q(1) b by simp
    have kl: "xc_klen c \<noteq> 0" using ok by (simp add: call_ok_def)
    have "wfn i (mk c i off) intr (kt_notify (t_kt ?t)) False (xs_mem s) (Some i) (W_loop idx) =
        W_step ((xs_mem s)(FILE_DATA \<mapsto> b[unat idx := b ! unat idx XOR key ! unat (idx mod xc_klen c)]))
          (Some i) (W_loop (idx + 1))"
      using 3(1) mem(1,2) len kl call_ok_key_index [OF ok, of idx] by (intro loop_byte) auto
    then show ?thesis
      using unfold 3(2)
      by (intro byte [OF lt unat_Suc_le [OF 3(1)]]) (auto simp: pool_thread_def Let_def)
  qed
qed

lemma loop_exit_inv:
  assumes inv: "pool_inv mk c fs0 d key prog s"
    and i: "i < length (xs_thr s)" and pc: "t_pc (xs_thr s ! i) = T_run (W_loop idx)"
    and mem: "xs_mem s FILE_DATA = Some (blend d key (unat (xc_klen c)) (xc_num c) prog)"
    and lk: "xs_lock s = Some i" and tok: "thr_ok mk c (length d) i (xs_thr s ! i) (prog i)"
    and r: "r = 0 \<and> prog i = range_hi (xc_num c) (length d) i \<or> r = - EINTR"
    and s': "s' = s\<lparr>xs_mem := xs_mem s, xs_lock := None, xs_thr := (xs_thr s)[i :=
      (xs_thr s ! i)\<lparr>t_kt := kthread_exit (t_kt (xs_thr s ! i)) r, t_pc := T_exited\<rparr>]\<rparr>"
  shows "\<exists>prog'. pool_inv mk c fs0 d key prog' s'"
proof -
  have "thr_ok mk c (length d) i
      ((xs_thr s ! i)\<lparr>t_kt := kthread_exit (t_kt (xs_thr s ! i)) r, t_pc := T_exited\<rparr>) (prog i)"
    using tok pc r by (auto simp: thr_ok_def)
  then have "pool_inv mk c fs0 d key (prog(i := prog i)) s'"
    unfolding s' using mem lk by (intro pool_inv_thread [OF inv i]) (auto simp: pc in_loop_def)
  then show ?thesis by blast
qed

text \<open>Otherwise it processes one byte.\<close>

lemma loop_byte_inv:
  assumes ok: "call_ok c d key" and inv: "pool_inv mk c fs0 d key prog s"
    and i: "i < length (xs_thr s)" and pc: "t_pc (xs_thr s ! i) = T_run (W_loop idx)"
    and mem: "xs_mem s FILE_DATA = Some (blend d key (unat (xc_klen c)) (xc_num c) prog)"
    and lk: "xs_lock s = Some i" and tok: "thr_ok mk c (length d) i (xs_thr s ! i) (prog i)"
    and iN: "i < xc_num c" and q: "prog i = unat idx"
    and lt: "prog i < range_hi (xc_num c) (length d) i" and suc: "unat (idx + 1) = Suc (unat idx)"
    and b: "b = blend d key (unat (xc_klen c)) (xc_num c) prog"
    and s': "s' = s\<lparr>xs_mem := (xs_mem s)(FILE_DATA \<mapsto>
        b[unat idx := b ! unat idx XOR key ! unat (idx mod xc_klen c)]),
      xs_lock := Some i, xs_thr := (xs_thr s)[i := (xs_thr s ! i)\<lparr>t_pc := T_run (W_loop (idx + 1))\<rparr>]\<rparr>"
  shows "\<exists>prog'. pool_inv mk c fs0 d key prog' s'"
proof -
  let ?n = "xc_num c" and ?L = "length d"
  have others: "prog j \<le> range_hi ?n ?L j" if "j < ?n" for j
    using inv that range_lo_hi [OF that, of ?L]
    by (cases "j < length (xs_thr s)") (auto simp: pool_inv_def thr_ok_def)
  have lo: "range_lo ?n ?L i \<le> prog i" using tok by (simp add: thr_ok_def)
  have "b[unat idx := b ! unat idx XOR key ! unat (idx mod xc_klen c)] =
      blend d key (unat (xc_klen c)) ?n (prog(i := Suc (prog i)))"
    using blend_advance [OF iN lo lt others, of key "unat (xc_klen c)"]
      call_ok_key_index [OF ok, of idx] q by (simp add: b)
  moreover have "thr_ok mk c ?L i ((xs_thr s ! i)\<lparr>t_pc := T_run (W_loop (idx + 1))\<rparr>) (Suc (prog i))"
    using tok pc lt q suc by (auto simp: thr_ok_def)
  ultimately have "pool_inv mk c fs0 d key (prog(i := Suc (prog i))) s'"
    unfolding s' using lk
    by (intro pool_inv_thread [OF inv i]) (auto simp: pc in_loop_def obj_defs)
  then show ?thesis by blast
qed

lemma loop_inv:
  assumes ok: "call_ok c d key" and inv: "pool_inv mk c fs0 d key prog s"
    and i: "i < length (xs_thr s)" and pc: "t_pc (xs_thr s ! i) = T_run (W_loop idx)"
    and st: "pool_thread wfn intr i s = Some s'"
  shows "\<exists>prog'. pool_inv mk c fs0 d key prog' s'"
proof -
  obtain q: "prog i = unat idx" and iN: "i < xc_num c"
    and mem: "xs_mem s FILE_DATA = Some (blend d key (unat (xc_klen c)) (xc_num c) prog)"
    and lk: "xs_lock s = Some i" and tok: "thr_ok mk c (length d) i (xs_thr s ! i) (prog i)"
    using loop_facts [OF ok inv i pc] by metis
  note exit = loop_exit_inv [OF inv i pc mem lk tok]
  show ?thesis
  proof (cases rule: loop_step [OF ok inv i pc refl, of intr, case_names fin stop byte])
    case fin
    then show ?thesis using st by (intro exit [of 0]) auto
  next
    case stop
    then show ?thesis using st by (intro exit [of "- EINTR"]) auto
  next
    case byte
    then show ?thesis
      using st by (intro loop_byte_inv [OF ok inv i pc mem lk tok iN q byte(1,2) refl]) simp
  qed
qed

lemma thread_inv:
  assumes "call_ok c d key" "pool_inv mk c fs0 d key prog s" "pool_thread wfn intr i s = Some s'"
  shows "\<exists>prog'. pool_inv mk c fs0 d key prog' s'"
proof -
  have i: "i < length (xs_thr s)" using assms(3) by (auto simp: pool_thread_def split: if_splits)
  show ?thesis
  proof (cases "t_pc (xs_thr s ! i)")
    case T_created
    then show ?thesis using created_inv [OF assms(1,2) i _ assms(3)] by blast
  next
    case T_exited
    with assms i show ?thesis by (simp add: pool_thread_def split: if_splits)
  next
    case (T_run pc)
    then show ?thesis
      using lock_inv [OF assms(1,2) i _ assms(3)] loop_inv [OF assms(1,2) i _ assms(3)]
      by (cases pc) auto
  qed
qed

text \<open>The main thread.\<close>

lemma create_inv:
  assumes ok: "call_ok c d key" and inv: "pool_inv mk c fs0 d key prog s"
    and pc: "xs_mpc s = M_create i" and i: "i < xc_num c" and st: "pool_main mk c s = Some s'"
  shows "pool_inv mk c fs0 d key prog s'"
proof -
  let ?n = "xc_num c" and ?L = "length d"
  let ?t = "\<lparr>t_args = mk c i (xs_offset s), t_kt = set_kthread_struct, t_pc = T_created\<rparr>"
  have nf: "\<not> xs_fault s" and len: "length (xs_thr s) = i"
    and off: "unat (xs_offset s) = i * unat (xc_seg c)"
    using inv pc by (auto simp: pool_inv_def phase_ok_def)
  have cr: "xc_create c i = None" using ok i by (simp add: call_ok_def)
  have s': "s' = s\<lparr>xs_thr := xs_thr s @ [?t], xs_offset := xs_offset s + xc_seg c,
      xs_mpc := M_create (Suc i)\<rparr>"
    using st pc i nf cr by (simp add: pool_main_def)
  have seg: "unat (xc_seg c) = ?L div ?n" using ok by (rule call_ok_seg)
  have new: "thr_ok mk c ?L i ?t (prog i)"
    using inv len off seg range_lo_hi [OF i, of ?L]
    by (auto simp: thr_ok_def pool_inv_def range_lo_def)
  have sum: "unat (xs_offset s) + unat (xc_seg c) = Suc i * (?L div ?n)" using off seg by simp
  also have "\<dots> \<le> ?n * (?L div ?n)" using i by (intro mult_le_mono1) simp
  also have "\<dots> \<le> ?L" by simp
  also have "?L < 2 ^ LENGTH(64)" using ok unat_bound [of "xc_len c"] by (simp add: call_ok_def)
  finally have "unat (xs_offset s + xc_seg c) = Suc i * unat (xc_seg c)"
    using sum seg by (simp only: unat_add_no_wrap)
  then have ph: "phase_ok c fs0 (blend d key (unat (xc_klen c)) ?n prog) key s'"
    using pool_invD(10) [OF inv] pc i len
    by (auto simp: s' phase_ok_def nth_append less_Suc_eq)
  have thr: "thr_ok mk c ?L j (xs_thr s' ! j) (prog j)" if "j < length (xs_thr s')" for j
    using that new pool_invD(3) [OF inv] len by (cases "j = i") (auto simp: s' nth_append)
  have lk: "xs_lock s' = Some j \<longleftrightarrow> j < length (xs_thr s') \<and> in_loop (xs_thr s' ! j)" for j
    using pool_invD(5) [OF inv, of j] len
    by (cases "j = i") (auto simp: s' nth_append in_loop_def)
  show ?thesis
    unfolding pool_inv_def
    using pool_invD [OF inv] i len thr lk ph by (simp add: s' pc before_save_def)
qed

lemma stop_inv:
  assumes inv: "pool_inv mk c fs0 d key prog s"
    and pc: "xs_mpc s = M_stop i" and i: "i < xc_num c" and st: "pool_main mk c s = Some s'"
  shows "pool_inv mk c fs0 d key prog s'"
proof -
  let ?t = "xs_thr s ! i"
  have nf: "\<not> xs_fault s" and len: "length (xs_thr s) = xc_num c" and ex: "all_exited i (xs_thr s)"
    using inv pc by (auto simp: pool_inv_def phase_ok_def)
  let ?t' = "?t\<lparr>t_kt := kthread_stop_request (t_kt ?t)\<rparr>"
  have s': "s' = s\<lparr>xs_thr := (xs_thr s)[i := ?t'],
      xs_dead_stop := (xs_dead_stop s \<or> kt_exited (t_kt ?t)), xs_mpc := M_join i\<rparr>"
    using st pc i nf by (simp add: pool_main_def Let_def)
  have tok: "thr_ok mk c (length d) i ?t (prog i)" using inv i len by (simp add: pool_inv_def)
  have "thr_ok mk c (length d) i ?t' (prog i)"
    using tok by (cases "t_pc ?t") (auto simp: thr_ok_def split: wpc.splits)
  then have thr: "thr_ok mk c (length d) j (xs_thr s' ! j) (prog j)" if "j < length (xs_thr s')" for j
    using that pool_invD(3) [OF inv] len i by (cases "j = i") (auto simp: s')
  have lk: "xs_lock s' = Some j \<longleftrightarrow> j < length (xs_thr s') \<and> in_loop (xs_thr s' ! j)" for j
    using pool_invD(5) [OF inv, of j] len i by (cases "j = i") (auto simp: s' in_loop_def)
  have ph: "phase_ok c fs0 (blend d key (unat (xc_klen c)) (xc_num c) prog) key s'"
    using len i ex by (auto simp: s' phase_ok_def all_exited_def nth_list_update)
  show ?thesis
    unfolding pool_inv_def
    using pool_invD [OF inv] len thr lk ph by (simp add: s' pc before_save_def)
qed

lemma main_inv:
  assumes ok: "call_ok c d key" and inv: "pool_inv mk c fs0 d key prog s"
    and st: "pool_main mk c s = Some s'"
  shows "pool_inv mk c fs0 d key prog s'"
proof -
  note nf = pool_invD(1) [OF inv] and ph = pool_invD(10) [OF inv] and mem = pool_invD(6) [OF inv]
  show ?thesis
  proof (cases "xs_mpc s")
    case (M_create i)
    show ?thesis
    proof (cases "i < xc_num c")
      case True
      then show ?thesis by (rule create_inv [OF ok inv M_create _ st])
    next
      case False
      then show ?thesis
        using M_create st nf ph
        by (intro pool_inv_main [OF inv])
          (auto simp: pool_main_def phase_ok_def all_exited_def before_save_def)
    qed
  next
    case (M_stop i)
    show ?thesis
    proof (cases "i < xc_num c")
      case True
      then show ?thesis by (rule stop_inv [OF inv M_stop _ st])
    next
      case False
      then show ?thesis
        using M_stop st nf ph
        by (intro pool_inv_main [OF inv]) (auto simp: pool_main_def phase_ok_def before_save_def)
    qed
  next
    case (M_join i)
    then have len: "i < length (xs_thr s)" and ex: "all_exited i (xs_thr s)"
      using ph by (auto simp: phase_ok_def)
    have "kt_exited (t_kt (xs_thr s ! i))" and s': "s' = s\<lparr>xs_mpc := M_stop (Suc i)\<rparr>"
      using st M_join nf by (auto simp: pool_main_def kthread_stop_return_def split: if_splits)
    then have "t_pc (xs_thr s ! i) = T_exited"
      using pool_invD(3) [OF inv len] by (simp add: thr_ok_def)
    then have "all_exited (Suc i) (xs_thr s)" using ex by (auto simp: all_exited_def less_Suc_eq)
    then show ?thesis
      using M_join ph
      by (intro pool_inv_main [OF inv]) (auto simp: s' phase_ok_def before_save_def)
  next
    case M_save
    obtain r fs where sv: "xc_save c (xs_fs s) (blend d key (unat (xc_klen c)) (xc_num c) prog) = (r, fs)"
      by (cases "xc_save c (xs_fs s) (blend d key (unat (xc_klen c)) (xc_num c) prog)")
    have "xs_fs s = fs0" using pool_invD(9) [OF inv] M_save by (simp add: before_save_def)
    then show ?thesis
      using M_save st nf ph mem sv
      by (intro pool_inv_main [OF inv]) (auto simp: pool_main_def phase_ok_def before_save_def)
  next
    case (M_cleanup r)
    then show ?thesis
      using st nf ph
      by (intro pool_inv_main [OF inv]) (auto simp: pool_main_def phase_ok_def before_save_def)
  next
    case (M_done r)
    then show ?thesis using st nf by (simp add: pool_main_def)
  qed
qed

lemma event_inv:
  assumes "call_ok c d key" "pool_inv mk c fs0 d key prog s" "pool_event wfn mk c s e = Some s'"
  shows "\<exists>prog'. pool_inv mk c fs0 d key prog' s'"
proof (cases e)
  case Main
  then show ?thesis using main_inv [OF assms(1,2)] assms(3) by auto
next
  case (Run i)
  then show ?thesis using thread_inv [OF assms(1,2)] assms(3) by auto
next
  case (Intr i)
  then show ?thesis using thread_inv [OF assms(1,2)] assms(3) by auto
qed

lemma reach_inv:
  assumes "call_ok c d key" and "pool_reach wfn mk c (pool_init d key fs0) s"
  shows "\<exists>prog. pool_inv mk c fs0 d key prog s"
  using assms(2)
proof (induction rule: pool_reach.induct)
  case start
  show ?case using init_inv [OF assms(1)] by blast
next
  case (step s e s')
  then show ?case using event_inv [OF assms(1)] by blast
qed

section \<open>Termination and progress\<close>

lemma lock_rank:
  assumes inv: "pool_inv mk c fs0 d key prog s"
    and i: "i < length (xs_thr s)" and pc: "t_pc (xs_thr s ! i) = T_run W_lock"
    and args: "xs_mem s WORKER_ARGS \<noteq> None" and st: "pool_thread wfn intr i s = Some s'"
  shows "pool_rank n L s' < pool_rank n L s"
proof -
  let ?t = "xs_thr s ! i"
  note nf = pool_invD(1) [OF inv]
  obtain off where a: "t_args ?t = mk c i off"
    using pool_invD(3) [OF inv i] by (auto simp: thr_ok_def)
  show ?thesis
  proof (cases "mutex_lock_interruptible intr (kt_notify (t_kt ?t)) i (xs_lock s)")
    case Lock_wait
    then show ?thesis using st i nf pc args by (simp add: pool_thread_def Let_def lock_wait)
  next
    case Lock_eintr
    then show ?thesis
      using st i nf pc args
      by (auto simp: pool_thread_def Let_def lock_eintr thr_rank_def intro!: thr_rank_update)
  next
    case (Lock_acquired lk')
    then show ?thesis
      using st i nf pc args a
      by (auto simp: pool_thread_def Let_def lock_acquired thr_rank_def intro!: thr_rank_update)
  qed
qed

lemma loop_rank:
  assumes ok: "call_ok c d key" and inv: "pool_inv mk c fs0 d key prog s"
    and i: "i < length (xs_thr s)" and pc: "t_pc (xs_thr s ! i) = T_run (W_loop idx)"
    and st: "pool_thread wfn intr i s = Some s'"
  shows "pool_rank n (length d) s' < pool_rank n (length d) s"
proof (cases rule: loop_step [OF ok inv i pc refl, of intr, case_names fin stop byte])
  case byte
  have "prog i = unat idx" using pool_invD(3) [OF inv i] pc by (simp add: thr_ok_def)
  moreover have "i < xc_num c" using pool_invD(2) [OF inv] i by simp
  ultimately have "unat idx < length d"
    using byte(1) range_hi_le [of i "xc_num c" "length d"] by simp
  then have "thr_rank (length d) ((xs_thr s ! i)\<lparr>t_pc := T_run (W_loop (idx + 1))\<rparr>) <
      thr_rank (length d) (xs_thr s ! i)"
    using byte(2) pc by (simp add: thr_rank_def)
  then show ?thesis using thr_rank_update(1) [OF i] byte(3) st by simp
qed (use st pc i in \<open>auto simp: thr_rank_def intro!: thr_rank_update\<close>)

lemma thread_rank:
  assumes ok: "call_ok c d key" and inv: "pool_inv mk c fs0 d key prog s"
    and st: "pool_thread wfn intr i s = Some s'"
  shows "pool_rank n (length d) s' < pool_rank n (length d) s"
proof -
  have i: "i < length (xs_thr s)" and nf: "\<not> xs_fault s"
    using st by (auto simp: pool_thread_def split: if_splits)
  let ?t = "xs_thr s ! i"
  have run: "t_pc ?t \<noteq> T_exited" using st i nf by (auto simp: pool_thread_def)
  then have notdone: "xs_mpc s \<noteq> M_done r" for r
    using pool_invD(10) [OF inv] i by (auto simp: phase_ok_def all_exited_def)
  then have args: "xs_mem s WORKER_ARGS \<noteq> None" using pool_invD(8) [OF inv] by blast
  show ?thesis
  proof (cases "t_pc ?t")
    case T_exited
    with run show ?thesis by simp
  next
    case T_created
    then show ?thesis
      using st i nf
      by (auto simp: pool_thread_def Let_def thr_rank_def split: if_splits sum.splits
          intro!: thr_rank_update)
  next
    case (T_run pc)
    then show ?thesis
      using lock_rank [OF inv i _ args st] loop_rank [OF ok inv i _ st] by (cases pc) auto
  qed
qed

lemma main_rank_less:
  assumes inv: "pool_inv mk c fs0 d key prog s" and st: "pool_main mk c s = Some s'"
  shows "pool_rank (xc_num c) (length d) s' < pool_rank (xc_num c) (length d) s"
proof (rule main_rank_step [OF _ _ refl refl])
  note nf = pool_invD(1) [OF inv] and ph = pool_invD(10) [OF inv] and nf' = pool_invD(6) [OF inv]
  show "main_rank (xc_num c) (xs_mpc s') < main_rank (xc_num c) (xs_mpc s)"
    using st nf ph nf'
    by (auto simp: pool_main_def main_rank_def phase_ok_def Let_def
        split: mpc.splits if_splits option.splits prod.splits)
  show "sum_list (map (thr_rank (length d)) (xs_thr s')) \<le>
      sum_list (map (thr_rank (length d)) (xs_thr s)) + (length d + 3)"
    using st nf ph
    by (auto simp: pool_main_def phase_ok_def Let_def sum_list_map_update_same
        split: mpc.splits if_splits option.splits prod.splits)
qed

lemma event_rank:
  assumes "call_ok c d key" "pool_inv mk c fs0 d key prog s" "pool_event wfn mk c s e = Some s'"
  shows "pool_rank (xc_num c) (length d) s' < pool_rank (xc_num c) (length d) s"
  using assms(3) main_rank_less [OF assms(2)] thread_rank [OF assms(1,2)] by (cases e) auto

lemma exec_bound:
  assumes "call_ok c d key" "pool_inv mk c fs0 d key prog s" "pool_exec wfn mk c s es = Some s'"
  shows "length es + pool_rank (xc_num c) (length d) s' \<le> pool_rank (xc_num c) (length d) s"
  using assms(2,3)
proof (induction es arbitrary: s prog)
  case (Cons e es)
  then obtain s1 where s1: "pool_event wfn mk c s e = Some s1" "pool_exec wfn mk c s1 es = Some s'"
    by (auto split: option.splits)
  obtain prog1 where "pool_inv mk c fs0 d key prog1 s1"
    using event_inv [OF assms(1) Cons.prems(1) s1(1)] by blast
  from Cons.IH [OF this s1(2)] event_rank [OF assms(1) Cons.prems(1) s1(1)]
  show ?case by simp
qed simp

lemma exec_inv:
  assumes "call_ok c d key" "pool_exec wfn mk c s es = Some s'" "pool_inv mk c fs0 d key prog s"
  shows "\<exists>prog'. pool_inv mk c fs0 d key prog' s'"
  using assms(2,3)
proof (induction es arbitrary: s prog)
  case (Cons e es)
  then show ?case using event_inv [OF assms(1)] by (auto split: option.splits) blast
qed auto

text \<open>A worker in its loop can always move, and so can a waiting one once the lock is free.\<close>

lemma loop_enabled:
  assumes ok: "call_ok c d key" and inv: "pool_inv mk c fs0 d key prog s"
    and i: "i < length (xs_thr s)" and l: "in_loop (xs_thr s ! i)"
  shows "\<exists>s'. pool_thread wfn False i s = Some s'"
proof -
  obtain idx where pc: "t_pc (xs_thr s ! i) = T_run (W_loop idx)" using l by (auto simp: in_loop_def)
  show ?thesis by (rule loop_step [OF ok inv i pc refl, of False]) auto
qed

lemma thread_progress:
  assumes ok: "call_ok c d key" and inv: "pool_inv mk c fs0 d key prog s"
    and i: "i < length (xs_thr s)" and run: "t_pc (xs_thr s ! i) \<noteq> T_exited"
  shows "\<exists>j s'. pool_thread wfn False j s = Some s'"
proof -
  let ?t = "xs_thr s ! i"
  have nf: "\<not> xs_fault s" using pool_invD(1) [OF inv] .
  have notdone: "xs_mpc s \<noteq> M_done r" for r
    using pool_invD(2,10) [OF inv] i run by (auto simp: phase_ok_def all_exited_def)
  then have args: "xs_mem s WORKER_ARGS \<noteq> None" using pool_invD(8) [OF inv] by blast
  have tok: "thr_ok mk c (length d) i ?t (prog i)" using pool_invD(3) [OF inv i] .
  consider "t_pc ?t = T_created" | "t_pc ?t = T_run W_lock" | "in_loop ?t"
    using run by (cases "t_pc ?t") (auto simp: in_loop_def split: wpc.splits intro: wpc.exhaust)
  then show ?thesis
  proof cases
    case 1
    have "\<exists>s'. pool_thread wfn False i s = Some s'"
      using 1 i nf tok
      by (auto simp: pool_thread_def Let_def kthread_main_def kthread_parkme_def thr_ok_def)
    then show ?thesis by blast
  next
    case 2
    obtain off where a: "t_args ?t = mk c i off" using tok by (auto simp: thr_ok_def)
    show ?thesis
    proof (cases "xs_lock s")
      case None
      then have "mutex_lock_interruptible False (kt_notify (t_kt ?t)) i None = Lock_acquired (Some i)"
        by (simp add: mutex_lock_interruptible_def mutex_trylock_def mutex_is_locked_def)
      then have "\<exists>s'. pool_thread wfn False i s = Some s'"
        using 2 i nf a args None by (auto simp: pool_thread_def Let_def lock_acquired)
      then show ?thesis by blast
    next
      case (Some j)
      then show ?thesis using loop_enabled [OF ok inv, of j] pool_invD(5) [OF inv, of j] by blast
    qed
  next
    case 3
    then show ?thesis using loop_enabled [OF ok inv i] by blast
  qed
qed

lemma progress:
  assumes ok: "call_ok c d key" and inv: "pool_inv mk c fs0 d key prog s"
    and nd: "\<And>r. xs_mpc s \<noteq> M_done r"
  shows "\<exists>e s'. pool_event wfn mk c s e = Some s'"
proof -
  note nf = pool_invD(1) [OF inv] and ph = pool_invD(10) [OF inv] and mem = pool_invD(6) [OF inv nd]
  have "(\<exists>s'. pool_event wfn mk c s Main = Some s') \<or> (\<exists>j s'. pool_event wfn mk c s (Run j) = Some s')"
  proof (cases "xs_mpc s")
    case (M_join i)
    then have i: "i < length (xs_thr s)" using ph by (simp add: phase_ok_def)
    show ?thesis
    proof (cases "kt_exited (t_kt (xs_thr s ! i))")
      case True
      then show ?thesis using M_join nf by (simp add: pool_main_def kthread_stop_return_def)
    next
      case False
      then have "t_pc (xs_thr s ! i) \<noteq> T_exited"
        using pool_invD(3) [OF inv i] by (simp add: thr_ok_def)
      then show ?thesis using thread_progress [OF ok inv i] by auto
    qed
  qed (use nd nf mem in \<open>auto simp: pool_main_def Let_def split: option.splits prod.splits\<close>)
  then show ?thesis by blast
qed

section \<open>Consequences for reachable states\<close>

lemma reach_mutex:
  assumes "call_ok c d key" "pool_reach wfn mk c (pool_init d key fs0) s"
    "i < length (xs_thr s)" "j < length (xs_thr s)" "in_loop (xs_thr s ! i)" "in_loop (xs_thr s ! j)"
  shows "i = j"
proof -
  obtain prog where "pool_inv mk c fs0 d key prog s" using reach_inv [OF assms(1,2)] by blast
  from pool_invD(5) [OF this] assms(3-) show ?thesis by (metis option.inject)
qed

lemma reach_done:
  assumes "call_ok c d key" "pool_reach wfn mk c (pool_init d key fs0) s" "xs_mpc s = M_done r"
  obtains prog where "\<And>i. i < xc_num c \<Longrightarrow>
      range_lo (xc_num c) (length d) i \<le> prog i \<and> prog i \<le> range_hi (xc_num c) (length d) i"
    "\<And>i. i < xc_num c \<Longrightarrow> kt_result (t_kt (xs_thr s ! i)) = 0 \<Longrightarrow>
      prog i = range_hi (xc_num c) (length d) i"
    "xs_saved s = Some (blend d key (unat (xc_klen c)) (xc_num c) prog)"
    "(r, xs_fs s) = xc_save c fs0 (blend d key (unat (xc_klen c)) (xc_num c) prog)"
    "length (xs_thr s) = xc_num c" "\<not> xs_fault s"
proof -
  obtain prog where inv: "pool_inv mk c fs0 d key prog s" using reach_inv [OF assms(1,2)] by blast
  have ph: "length (xs_thr s) = xc_num c" "all_exited (xc_num c) (xs_thr s)"
    "xs_saved s = Some (blend d key (unat (xc_klen c)) (xc_num c) prog)"
    "(r, xs_fs s) = xc_save c fs0 (blend d key (unat (xc_klen c)) (xc_num c) prog)"
    using pool_invD(10) [OF inv] assms(3) by (auto simp: phase_ok_def)
  have tok: "thr_ok mk c (length d) i (xs_thr s ! i) (prog i)" if "i < xc_num c" for i
    using pool_invD(3) [OF inv] that ph(1) by simp
  have ex: "t_pc (xs_thr s ! i) = T_exited" if "i < xc_num c" for i
    using ph(2) that by (simp add: all_exited_def)
  have full: "prog i = range_hi (xc_num c) (length d) i"
    if "i < xc_num c" "kt_result (t_kt (xs_thr s ! i)) = 0" for i
    using tok [OF that(1)] ex [OF that(1)] that(2) by (simp add: thr_ok_def errno_defs)
  show thesis
    by (rule that [of prog]) (use tok full ph pool_invD(1) [OF inv] in \<open>auto simp: thr_ok_def\<close>)
qed

lemma reach_complete:
  assumes "call_ok c d key" "pool_reach wfn mk c (pool_init d key fs0) s" "xs_mpc s = M_done r"
    "\<And>i. i < xc_num c \<Longrightarrow> kt_result (t_kt (xs_thr s ! i)) = 0"
  shows "xs_saved s = Some (xor_stream d key (unat (xc_klen c)))"
    "(r, xs_fs s) = xc_save c fs0 (xor_stream d key (unat (xc_klen c)))"
proof -
  obtain prog where p: "\<And>i. i < xc_num c \<Longrightarrow> kt_result (t_kt (xs_thr s ! i)) = 0 \<Longrightarrow>
      prog i = range_hi (xc_num c) (length d) i"
    "xs_saved s = Some (blend d key (unat (xc_klen c)) (xc_num c) prog)"
    "(r, xs_fs s) = xc_save c fs0 (blend d key (unat (xc_klen c)) (xc_num c) prog)"
    using reach_done [OF assms(1-3)] by metis
  have "blend d key (unat (xc_klen c)) (xc_num c) prog = xor_stream d key (unat (xc_klen c))"
    using assms(1,4) p(1) by (intro blend_full) (auto simp: call_ok_def)
  then show "xs_saved s = Some (xor_stream d key (unat (xc_klen c)))"
    "(r, xs_fs s) = xc_save c fs0 (xor_stream d key (unat (xc_klen c)))" using p by auto
qed

section \<open>A run in which no worker does any work\<close>

text \<open>Every thread is still before its stop test or has exited in it.\<close>

definition idle_threads :: "('a, 'f) xstate \<Rightarrow> bool" where
  "idle_threads s \<longleftrightarrow> (\<forall>i < length (xs_thr s). t_pc (xs_thr s ! i) = T_created \<or> t_pc (xs_thr s ! i) = T_exited)"

lemma idle_main_or_run:
  assumes ok: "call_ok c d key" and inv: "pool_inv mk c fs0 d key (range_lo (xc_num c) (length d)) s"
    and idle: "idle_threads s" and nd: "\<And>r. xs_mpc s \<noteq> M_done r"
  shows "\<exists>e s'. pool_event wfn mk c s e = Some s' \<and> idle_threads s' \<and>
    pool_inv mk c fs0 d key (range_lo (xc_num c) (length d)) s'"
proof (cases "pool_main mk c s")
  case (Some s')
  have "idle_threads s'"
    using Some idle pool_invD(1,6,10) [OF inv]
    by (auto simp: pool_main_def idle_threads_def Let_def nth_append nth_list_update phase_ok_def
        split: mpc.splits if_splits option.splits prod.splits)
  moreover have "pool_inv mk c fs0 d key (range_lo (xc_num c) (length d)) s'"
    using main_inv [OF ok inv Some] .
  ultimately show ?thesis using Some by (intro exI [of _ Main]) auto
next
  case None
  then obtain i where pc: "xs_mpc s = M_join i" and ex: "\<not> kt_exited (t_kt (xs_thr s ! i))"
    using nd pool_invD(1) [OF inv] pool_invD(6) [OF inv nd]
    by (cases "xs_mpc s") (auto simp: pool_main_def Let_def kthread_stop_return_def
        split: if_splits option.splits prod.splits)
  have i: "i < length (xs_thr s)" and stop: "kthread_should_stop (t_kt (xs_thr s ! i))"
    using pool_invD(10) [OF inv] pc by (auto simp: phase_ok_def)
  let ?t = "xs_thr s ! i"
  note tok = pool_invD(3) [OF inv i]
  have cr: "t_pc ?t = T_created" using idle i ex tok by (auto simp: idle_threads_def thr_ok_def)
  let ?t' = "?t\<lparr>t_kt := kthread_exit (t_kt ?t) (- EINTR), t_pc := T_exited\<rparr>"
  let ?s' = "s\<lparr>xs_mem := xs_mem s, xs_lock := xs_lock s, xs_thr := (xs_thr s)[i := ?t']\<rparr>"
  have st: "pool_event wfn mk c s (Run i) = Some ?s'"
    using cr i stop pool_invD(1) [OF inv] by (simp add: pool_thread_def Let_def kthread_main_def)
  have "thr_ok mk c (length d) i ?t' (range_lo (xc_num c) (length d) i)"
    using tok cr by (auto simp: thr_ok_def)
  moreover have "xs_lock s \<noteq> Some i" using pool_invD(5) [OF inv, of i] cr by (simp add: in_loop_def)
  ultimately have "pool_inv mk c fs0 d key ((range_lo (xc_num c) (length d))(i := range_lo (xc_num c) (length d) i)) ?s'"
    using pool_invD(6) [OF inv nd] by (intro pool_inv_thread [OF inv i]) (auto simp: cr in_loop_def)
  moreover have "idle_threads ?s'" using idle i by (auto simp: idle_threads_def nth_list_update)
  ultimately show ?thesis using st by (intro exI [of _ "Run i"]) auto
qed

lemma idle_run:
  assumes ok: "call_ok c d key"
    and inv: "pool_inv mk c fs0 d key (range_lo (xc_num c) (length d)) s"
    and idle: "idle_threads s" and reach: "pool_reach wfn mk c s0 s"
  shows "\<exists>s' r. pool_reach wfn mk c s0 s' \<and> xs_mpc s' = M_done r \<and>
    pool_inv mk c fs0 d key (range_lo (xc_num c) (length d)) s'"
  using inv idle reach
proof (induction "pool_rank (xc_num c) (length d) s" arbitrary: s rule: less_induct)
  case less
  show ?case
  proof (cases "\<exists>r. xs_mpc s = M_done r")
    case True
    then show ?thesis using less.prems by blast
  next
    case False
    then obtain e s' where st: "pool_event wfn mk c s e = Some s'" and "idle_threads s'"
      and "pool_inv mk c fs0 d key (range_lo (xc_num c) (length d)) s'"
      using idle_main_or_run [OF ok less.prems(1,2)] by blast
    then show ?thesis
      using less.hyps [OF event_rank [OF ok less.prems(1) st]] pool_reach.step [OF less.prems(3) st]
      by blast
  qed
qed

lemma may_write_input:
  assumes ok: "call_ok c d key"
  shows "\<exists>s r. pool_reach wfn mk c (pool_init d key fs0) s \<and> xs_mpc s = M_done r \<and>
    xs_saved s = Some d \<and> (r, xs_fs s) = xc_save c fs0 d"
proof -
  have n: "0 < xc_num c" using ok by (simp add: call_ok_def)
  have "blend d key (unat (xc_klen c)) (xc_num c) (range_lo (xc_num c) (length d)) = d"
    using n by (intro blend_start) auto
  moreover have "idle_threads (pool_init d key fs0 :: ('a, 'f) xstate)"
    by (simp add: idle_threads_def pool_init_def)
  ultimately show ?thesis
    using idle_run [OF ok init_inv [OF ok] _ pool_reach.start] pool_invD(10)
    by (fastforce simp: phase_ok_def)
qed

end

end
