(* ===== verification/Xor_Syscalls.thy ===== *)
theory Xor_Syscalls
  imports Xor_Pool
begin

text \<open>
  The two system calls of Practica2 (my_encrypt.c, my_decrypt.c) from the first
  \<open>copy_from_user\<close> to the cleanup label, on top of the worker pool. The virtual file system,
  the slab allocator and the user-memory copy are not part of the repository: they are the
  fields of the record \<open>kenv\<close>, a parameter of every definition. Its type variable \<open>'f\<close> is the
  state of the rest of the kernel, \<open>'h\<close> an open file.
\<close>

section \<open>Services outside the repository\<close>

datatype open_mode = O_RDONLY | O_WRONLY_CREAT

type_synonym path = "u8 list"

record ('f, 'h) kenv =
  copy_from_user :: "'f \<Rightarrow> u64 \<Rightarrow> nat \<Rightarrow> u8 list option"
  filp_open :: "'f \<Rightarrow> path \<Rightarrow> open_mode \<Rightarrow> (int + 'h) \<times> 'f"
  i_size_read :: "'f \<Rightarrow> 'h \<Rightarrow> int"
  kernel_read :: "'f \<Rightarrow> 'h \<Rightarrow> u64 \<Rightarrow> u8 list"
  kernel_write :: "'f \<Rightarrow> 'h \<Rightarrow> u8 list \<Rightarrow> int \<times> 'f"
  filp_close :: "'f \<Rightarrow> 'h \<Rightarrow> 'f"
  kmalloc :: "'f \<Rightarrow> u64 \<Rightarrow> u8 list option"
  kthread_run_err :: "'f \<Rightarrow> nat \<Rightarrow> int option"

text \<open>
  \<open>kernel_read\<close> is the bytes it delivered, at most as many as asked for; they land at the start
  of the buffer, whose other bytes stay as the allocator left them.
\<close>

definition fill_buffer :: "u8 list \<Rightarrow> u64 \<Rightarrow> u8 list \<Rightarrow> u8 list" where
  "fill_buffer buf n bytes = (let got = take (unat n) bytes in got @ drop (length got) buf)"

text \<open>\<open>kmalloc_array\<close> (include/linux/slab.h) on the element count as a \<open>size_t\<close>.\<close>

definition kmalloc_array :: "('f, 'h) kenv \<Rightarrow> 'f \<Rightarrow> u64 \<Rightarrow> nat \<Rightarrow> u8 list option" where
  "kmalloc_array env w n sz =
     (if 2 ^ 64 \<le> unat n * sz then None else kmalloc env w (word_of_nat (unat n * sz)))"

section \<open>Reading the data and the key, writing the result\<close>

definition load_key_from_file ::
  "('f, 'h) kenv \<Rightarrow> 'f \<Rightarrow> path \<Rightarrow> (u8 list \<times> u64) option \<times> 'f" where
  "load_key_from_file env w key_filepath =
     (case filp_open env w key_filepath O_RDONLY of
        (Inl e, w1) \<Rightarrow> (None, w1)
      | (Inr key_file, w1) \<Rightarrow>
          let key_len = word_of_int (i_size_read env w1 key_file) :: u64 in
          if key_len = 0 then (None, filp_close env w1 key_file) else
          (case kmalloc env w1 (key_len + 1) of
             None \<Rightarrow> (None, filp_close env w1 key_file)
           | Some key_buffer \<Rightarrow>
               let b = fill_buffer key_buffer key_len (kernel_read env w1 key_file key_len)
               in (Some (b[unat key_len := 0], key_len), filp_close env w1 key_file)))"

definition read_data_from_file ::
  "('f, 'h) kenv \<Rightarrow> 'f \<Rightarrow> path \<Rightarrow> (u8 list \<times> u64) option \<times> 'f" where
  "read_data_from_file env w filename =
     (case filp_open env w filename O_RDONLY of
        (Inl e, w1) \<Rightarrow> (None, w1)
      | (Inr input_file, w1) \<Rightarrow>
          let data_size = word_of_int (i_size_read env w1 input_file) :: u64 in
          if data_size = 0 then (None, filp_close env w1 input_file) else
          (case kmalloc env w1 data_size of
             None \<Rightarrow> (None, filp_close env w1 input_file)
           | Some buffer \<Rightarrow>
               (Some (fill_buffer buffer data_size (kernel_read env w1 input_file data_size),
                  data_size), filp_close env w1 input_file)))"

definition save_data_to_file ::
  "('f, 'h) kenv \<Rightarrow> path \<Rightarrow> 'f \<Rightarrow> u8 list \<Rightarrow> int \<times> 'f" where
  "save_data_to_file env filename w output_data =
     (case filp_open env w filename O_WRONLY_CREAT of
        (Inl e, w1) \<Rightarrow> (e, w1)
      | (Inr output_file, w1) \<Rightarrow>
          (case kernel_write env w1 output_file output_data of (written, w2) \<Rightarrow>
             if written < 0 then (written, filp_close env w2 output_file)
             else (0, filp_close env w2 output_file)))"

text \<open>The same three functions in my_decrypt.c.\<close>

definition load_key ::
  "('f, 'h) kenv \<Rightarrow> 'f \<Rightarrow> path \<Rightarrow> (u8 list \<times> u64) option \<times> 'f" where
  "load_key env w key_path =
     (case filp_open env w key_path O_RDONLY of
        (Inl e, w1) \<Rightarrow> (None, w1)
      | (Inr key_file, w1) \<Rightarrow>
          let key_size = word_of_int (i_size_read env w1 key_file) :: u64 in
          if key_size = 0 then (None, filp_close env w1 key_file) else
          (case kmalloc env w1 (key_size + 1) of
             None \<Rightarrow> (None, filp_close env w1 key_file)
           | Some key_buffer \<Rightarrow>
               let b = fill_buffer key_buffer key_size (kernel_read env w1 key_file key_size)
               in (Some (b[unat key_size := 0], key_size), filp_close env w1 key_file)))"

definition load_data ::
  "('f, 'h) kenv \<Rightarrow> 'f \<Rightarrow> path \<Rightarrow> (u8 list \<times> u64) option \<times> 'f" where
  "load_data env w input_path =
     (case filp_open env w input_path O_RDONLY of
        (Inl e, w1) \<Rightarrow> (None, w1)
      | (Inr input_file, w1) \<Rightarrow>
          let data_size = word_of_int (i_size_read env w1 input_file) :: u64 in
          if data_size = 0 then (None, filp_close env w1 input_file) else
          (case kmalloc env w1 data_size of
             None \<Rightarrow> (None, filp_close env w1 input_file)
           | Some data_buffer \<Rightarrow>
               (Some (fill_buffer data_buffer data_size (kernel_read env w1 input_file data_size),
                  data_size), filp_close env w1 input_file)))"

definition save_data ::
  "('f, 'h) kenv \<Rightarrow> path \<Rightarrow> 'f \<Rightarrow> u8 list \<Rightarrow> int \<times> 'f" where
  "save_data env output_path w data =
     (case filp_open env w output_path O_WRONLY_CREAT of
        (Inl e, w1) \<Rightarrow> (e, w1)
      | (Inr output_file, w1) \<Rightarrow>
          (case kernel_write env w1 output_file data of (bytes_written, w2) \<Rightarrow>
             if bytes_written < 0 then (bytes_written, filp_close env w2 output_file)
             else (0, filp_close env w2 output_file)))"

section \<open>The system calls\<close>

text \<open>
  A call returns a value and leaves a heap (an object still mapped in it was leaked), or
  crashes the kernel: division by zero, a path without a terminating NUL in its 256 bytes, or
  a memory fault; or it has not finished under the given schedule.
\<close>

datatype crash = Divide_error | Path_overread | Memory_fault

datatype 'f outcome = Sys_ret int mem 'f | Sys_crash crash | Sys_running

definition path_of :: "u8 list \<Rightarrow> path option" where
  "path_of buf = (if 0 \<in> set buf then Some (takeWhile (\<lambda>b. b \<noteq> 0) buf) else None)"

text \<open>
  Everything before the creation loop: \<open>Inl\<close> is an early outcome, \<open>Inr\<close> the call and the state
  the loop starts in.
\<close>

definition xor_encrypt_prepare where
  "xor_encrypt_prepare env w src_file dest_file (num_threads :: int) key_filepath =
     (case copy_from_user env w src_file 256 of None \<Rightarrow> Inl (Sys_ret (- EFAULT) Map.empty w)
      | Some src \<Rightarrow> (case copy_from_user env w dest_file 256 of None \<Rightarrow> Inl (Sys_ret (- EFAULT) Map.empty w)
      | Some dest \<Rightarrow> (case copy_from_user env w key_filepath 256 of None \<Rightarrow> Inl (Sys_ret (- EFAULT) Map.empty w)
      | Some keyf \<Rightarrow> (case (path_of src, path_of dest, path_of keyf) of
          (Some srcp, Some destp, Some keyp) \<Rightarrow>
            (case read_data_from_file env w srcp of
               (None, w1) \<Rightarrow> Inl (Sys_ret (- EIO) Map.empty w1)
             | (Some (file_data, data_len), w1) \<Rightarrow>
                 (case load_key_from_file env w1 keyp of
                    (None, w2) \<Rightarrow> Inl (Sys_ret (- EIO) Map.empty w2)
                  | (Some (key_data, key_len), w2) \<Rightarrow>
                      let n = word_of_int num_threads :: u64;
                          workers = kmalloc_array env w2 n 8;
                          worker_args = kmalloc_array env w2 n 40 in
                      if workers = None \<or> worker_args = None then
                        Inl (Sys_ret (- ENOMEM)
                          (Map.empty(WORKERS := workers, WORKER_ARGS := worker_args)) w2)
                      else if n = 0 then Inl (Sys_crash Divide_error)
                      else Inr
                        (\<lparr>xc_num = nat num_threads, xc_len = data_len, xc_klen = key_len,
                          xc_seg = data_len div n, xc_create = kthread_run_err env w2,
                          xc_save = save_data_to_file env destp\<rparr>,
                         pool_init file_data key_data w2)))
        | _ \<Rightarrow> Inl (Sys_crash Path_overread)))))"

definition xor_decrypt_prepare where
  "xor_decrypt_prepare env w input_file output_file (num_threads :: int) key_file =
     (case copy_from_user env w input_file 256 of None \<Rightarrow> Inl (Sys_ret (- EFAULT) Map.empty w)
      | Some inp \<Rightarrow> (case copy_from_user env w output_file 256 of None \<Rightarrow> Inl (Sys_ret (- EFAULT) Map.empty w)
      | Some out \<Rightarrow> (case copy_from_user env w key_file 256 of None \<Rightarrow> Inl (Sys_ret (- EFAULT) Map.empty w)
      | Some keyf \<Rightarrow> (case (path_of inp, path_of out, path_of keyf) of
          (Some inp', Some outp, Some keyp) \<Rightarrow>
            (case load_data env w inp' of
               (None, w1) \<Rightarrow> Inl (Sys_ret (- EIO) Map.empty w1)
             | (Some (data_buffer, data_size), w1) \<Rightarrow>
                 (case load_key env w1 keyp of
                    (None, w2) \<Rightarrow> Inl (Sys_ret (- EIO) Map.empty w2)
                  | (Some (key_buffer, key_size), w2) \<Rightarrow>
                      let n = word_of_int num_threads :: u64;
                          thread_handles = kmalloc_array env w2 n 8;
                          thread_args = kmalloc_array env w2 n 40 in
                      if thread_handles = None \<or> thread_args = None then
                        Inl (Sys_ret (- ENOMEM)
                          (Map.empty(WORKERS := thread_handles, WORKER_ARGS := thread_args)) w2)
                      else if n = 0 then Inl (Sys_crash Divide_error)
                      else Inr
                        (\<lparr>xc_num = nat num_threads, xc_len = data_size, xc_klen = key_size,
                          xc_seg = data_size div n, xc_create = kthread_run_err env w2,
                          xc_save = save_data env outp\<rparr>,
                         pool_init data_buffer key_buffer w2)))
        | _ \<Rightarrow> Inl (Sys_crash Path_overread)))))"

definition outcome_of :: "('a, 'f) xstate \<Rightarrow> 'f outcome" where
  "outcome_of s =
     (if xs_fault s then Sys_crash Memory_fault
      else case xs_mpc s of M_done r \<Rightarrow> Sys_ret r (xs_mem s) (xs_fs s) | _ \<Rightarrow> Sys_running)"

definition xor_encrypt_syscall where
  "xor_encrypt_syscall env w src_file dest_file num_threads key_filepath sched =
     (case xor_encrypt_prepare env w src_file dest_file num_threads key_filepath of
        Inl out \<Rightarrow> out
      | Inr (c, s0) \<Rightarrow> outcome_of (pool_run xor_encrypt_worker worker_args_init c s0 sched))"

definition xor_decrypt where
  "xor_decrypt env w input_file output_file num_threads key_file sched =
     (case xor_decrypt_prepare env w input_file output_file num_threads key_file of
        Inl out \<Rightarrow> out
      | Inr (c, s0) \<Rightarrow> outcome_of (pool_run xor_decrypt_worker decrypt_args_init c s0 sched))"

section \<open>Both workers satisfy the pool's interface\<close>

interpretation enc: xor_pool xor_encrypt_worker worker_args_init
  by unfold_locales
    (auto simp: xor_encrypt_worker_def worker_args_init_def xor_byte_def mutex_unlock_def)

interpretation dec: xor_pool xor_decrypt_worker decrypt_args_init
  by unfold_locales
    (auto simp: xor_decrypt_worker_def decrypt_args_init_def xor_byte_def mutex_unlock_def)

end
