(* ===== verification/Apps.thy ===== *)
theory Apps
  imports Prelude
begin

text \<open>
  The two command-line programs (Practica2/apps/encrypt_app.c and decrypt_app.c): the C string
  functions they use, the option loops, and the interactive loop as a function from the
  characters of standard input to the system calls made. Messages are not modelled.
\<close>

section \<open>C strings\<close>

definition newline :: char where "newline = CHR 0x0A"
definition space :: char where "space = CHR '' ''"

definition cstr :: "string \<Rightarrow> string" where
  "cstr s = takeWhile (\<lambda>c. c \<noteq> CHR 0x00) s"

fun take_line :: "nat \<Rightarrow> string \<Rightarrow> string" where
  "take_line 0 cs = []"
| "take_line (Suc n) [] = []"
| "take_line (Suc n) (c # cs) = c # (if c = newline then [] else take_line n cs)"

text \<open>\<open>fgets\<close> with a buffer of n bytes: None at end of file (the buffer is left alone).\<close>

definition fgets :: "nat \<Rightarrow> string \<Rightarrow> (string \<times> string) option" where
  "fgets n inp = (if inp = [] then None
     else let line = take_line (n - 1) inp in Some (line, drop (length line) inp))"

text \<open>\<open>comando[strcspn(comando, "\n")] = 0\<close>, as the C string the buffer then holds.\<close>

definition cut_newline :: "string \<Rightarrow> string" where
  "cut_newline s = takeWhile (\<lambda>c. c \<noteq> newline) (cstr s)"

text \<open>\<open>strtok\<close> with the single delimiter space: the next token and what follows it.\<close>

definition strtok :: "string \<Rightarrow> (string \<times> string) option" where
  "strtok s = (let r = dropWhile (\<lambda>c. c = space) s in
     if r = [] then None
     else Some (takeWhile (\<lambda>c. c \<noteq> space) r, tl (dropWhile (\<lambda>c. c \<noteq> space) r)))"

text \<open>The tokenising loop: at most n tokens.\<close>

fun argumentos :: "nat \<Rightarrow> string \<Rightarrow> string list" where
  "argumentos 0 s = []"
| "argumentos (Suc n) s = (case strtok s of None \<Rightarrow> [] | Some (t, r) \<Rightarrow> t # argumentos n r)"

text \<open>The C string in the buffer once \<open>strtok\<close> has put a NUL after the first token.\<close>

definition after_strtok :: "string \<Rightarrow> string" where
  "after_strtok s = takeWhile (\<lambda>c. c = space) s @
     takeWhile (\<lambda>c. c \<noteq> space) (dropWhile (\<lambda>c. c = space) s)"

definition digit_val :: "char \<Rightarrow> nat" where
  "digit_val c = of_char c - 48"

definition is_digit :: "char \<Rightarrow> bool" where
  "is_digit c \<longleftrightarrow> 48 \<le> (of_char c :: nat) \<and> (of_char c :: nat) \<le> 57"

definition is_space :: "char \<Rightarrow> bool" where
  "is_space c \<longleftrightarrow> c = space \<or> (9 \<le> (of_char c :: nat) \<and> (of_char c :: nat) \<le> 13)"

fun dec_value :: "nat \<Rightarrow> string \<Rightarrow> nat" where
  "dec_value acc [] = acc"
| "dec_value acc (c # cs) = (if is_digit c then dec_value (10 * acc + digit_val c) cs else acc)"

text \<open>\<open>atoi\<close> as the C library computes it: \<open>strtol\<close> saturates at a 64-bit long, the result is
  truncated to a 32-bit int.\<close>

definition atoi :: "string \<Rightarrow> int" where
  "atoi s =
     (let r = dropWhile is_space s;
          v = (case r of
                 c # cs \<Rightarrow> if c = CHR ''-'' then - int (dec_value 0 cs)
                           else if c = CHR ''+'' then int (dec_value 0 cs)
                           else int (dec_value 0 r)
               | [] \<Rightarrow> 0)
      in sint (word_of_int (max (- (2 ^ 63)) (min (2 ^ 63 - 1) v)) :: u32))"

section \<open>Options\<close>

record opts =
  archivo_entrada :: "string option"
  archivo_salida :: "string option"
  archivo_clave :: "string option"
  num_hilos :: int
  error_parametros :: bool

definition opts0 :: opts where
  "opts0 = \<lparr>archivo_entrada = None, archivo_salida = None, archivo_clave = None, num_hilos = 0,
     error_parametros = False\<rparr>"

text \<open>The option loop of encrypt_app.c: an unknown option is an error and ends the loop.\<close>

fun encrypt_opts :: "string list \<Rightarrow> opts \<Rightarrow> opts" where
  "encrypt_opts [] p = p"
| "encrypt_opts (a # rest) p =
     (if a = ''-p'' \<and> rest \<noteq> [] then encrypt_opts (tl rest) (p\<lparr>archivo_entrada := Some (hd rest)\<rparr>)
      else if a = ''-o'' \<and> rest \<noteq> [] then encrypt_opts (tl rest) (p\<lparr>archivo_salida := Some (hd rest)\<rparr>)
      else if a = ''-t'' \<and> rest \<noteq> [] then
        (let n = atoi (hd rest) in
         encrypt_opts (tl rest)
           (p\<lparr>num_hilos := n, error_parametros := (error_parametros p \<or> n \<le> 0)\<rparr>))
      else if a = ''-k'' \<and> rest \<noteq> [] then encrypt_opts (tl rest) (p\<lparr>archivo_clave := Some (hd rest)\<rparr>)
      else p\<lparr>error_parametros := True\<rparr>)"

text \<open>That of decrypt_app.c: an unknown option is skipped.\<close>

fun decrypt_opts :: "string list \<Rightarrow> opts \<Rightarrow> opts" where
  "decrypt_opts [] p = p"
| "decrypt_opts (a # rest) p =
     (if a = ''-p'' \<and> rest \<noteq> [] then decrypt_opts (tl rest) (p\<lparr>archivo_entrada := Some (hd rest)\<rparr>)
      else if a = ''-o'' \<and> rest \<noteq> [] then decrypt_opts (tl rest) (p\<lparr>archivo_salida := Some (hd rest)\<rparr>)
      else if a = ''-t'' \<and> rest \<noteq> [] then decrypt_opts (tl rest) (p\<lparr>num_hilos := atoi (hd rest)\<rparr>)
      else if a = ''-k'' \<and> rest \<noteq> [] then decrypt_opts (tl rest) (p\<lparr>archivo_clave := Some (hd rest)\<rparr>)
      else decrypt_opts rest p)"

text \<open>The arguments of a system call: input, output, threads, key. None: no call is made.\<close>

type_synonym call = "string \<times> string \<times> int \<times> string"

definition encrypt_command :: "string list \<Rightarrow> call option" where
  "encrypt_command args =
     (let p = encrypt_opts args opts0 in
      case (archivo_entrada p, archivo_salida p, archivo_clave p) of
        (Some i, Some s, Some k) \<Rightarrow> if error_parametros p then None else Some (i, s, num_hilos p, k)
      | _ \<Rightarrow> None)"

definition decrypt_command :: "string list \<Rightarrow> call option" where
  "decrypt_command args =
     (let p = decrypt_opts args opts0 in
      case (archivo_entrada p, archivo_salida p, archivo_clave p) of
        (Some i, Some s, Some k) \<Rightarrow>
          if num_hilos p \<le> 0 \<or> error_parametros p then None else Some (i, s, num_hilos p, k)
      | _ \<Rightarrow> None)"

section \<open>The interactive loop\<close>

text \<open>
  One round: the unread input and the buffer's C string go in. None: the user typed "salir".
\<close>

definition app_round ::
  "(string list \<Rightarrow> call option) \<Rightarrow> string \<Rightarrow> string \<Rightarrow> (call option \<times> string \<times> string) option" where
  "app_round command inp comando =
     (let (line, inp') = (case fgets 256 inp of None \<Rightarrow> (comando, []) | Some r \<Rightarrow> r);
          cmd = cut_newline line
      in if cmd = ''salir'' then None
         else Some (command (argumentos 10 cmd), inp', after_strtok cmd))"

text \<open>
  The loop for at most n rounds: the calls made, and whether it ended by itself. The loop has
  no other exit, so more rounds only matter while it has not ended.
\<close>

fun app_loop ::
  "nat \<Rightarrow> (string list \<Rightarrow> call option) \<Rightarrow> string \<Rightarrow> string \<Rightarrow> call list \<times> bool" where
  "app_loop 0 command inp comando = ([], False)"
| "app_loop (Suc n) command inp comando =
     (case app_round command inp comando of
        None \<Rightarrow> ([], True)
      | Some (c, inp', comando') \<Rightarrow>
          (case app_loop n command inp' comando' of (cs, e) \<Rightarrow>
             ((case c of None \<Rightarrow> cs | Some x \<Rightarrow> x # cs), e)))"

definition encrypt_app :: "nat \<Rightarrow> string \<Rightarrow> string \<Rightarrow> call list \<times> bool" where
  "encrypt_app n inp comando = app_loop n encrypt_command inp comando"

definition decrypt_app :: "nat \<Rightarrow> string \<Rightarrow> string \<Rightarrow> call list \<times> bool" where
  "decrypt_app n inp comando = app_loop n decrypt_command inp comando"

section \<open>Reference: how a command is written\<close>

text \<open>Tokens joined by single spaces, decimal numerals, and an option list as tokens.\<close>

fun unwords :: "string list \<Rightarrow> string" where
  "unwords [] = []"
| "unwords [t] = t"
| "unwords (t # u # ts) = t @ space # unwords (u # ts)"

fun dec_str :: "nat \<Rightarrow> string" where
  "dec_str n = (if n < 10 then [char_of (48 + n)] else dec_str (n div 10) @ [char_of (48 + n mod 10)])"

declare dec_str.simps [simp del]

definition token_ok :: "string \<Rightarrow> bool" where
  "token_ok t \<longleftrightarrow> t \<noteq> [] \<and> (\<forall>c\<in>set t. c \<noteq> space \<and> c \<noteq> newline \<and> c \<noteq> CHR 0x00)"

fun flat_opts :: "(string \<times> string) list \<Rightarrow> string list" where
  "flat_opts [] = []"
| "flat_opts ((f, v) # ps) = f # v # flat_opts ps"

text \<open>The four options of a call, in any order.\<close>

definition writes_call :: "(string \<times> string) list \<Rightarrow> call \<Rightarrow> bool" where
  "writes_call ps c = (case c of (i, s, n, k) \<Rightarrow>
     distinct (map fst ps) \<and>
     set ps = {(''-p'', i), (''-o'', s), (''-t'', dec_str (nat n)), (''-k'', k)} \<and>
     0 < n \<and> n < 2 ^ 31 \<and> token_ok i \<and> token_ok s \<and> token_ok k)"

definition command_text :: "(string \<times> string) list \<Rightarrow> string" where
  "command_text ps = unwords (flat_opts ps) @ [newline]"

section \<open>String lemmas\<close>

lemma take_line_newline:
  "newline \<notin> set l \<Longrightarrow> length l < n \<Longrightarrow> take_line n (l @ newline # r) = l @ [newline]"
proof (induction l arbitrary: n)
  case Nil
  then show ?case by (cases n) auto
next
  case (Cons c l)
  then show ?case by (cases n) auto
qed

lemma fgets_line:
  assumes "newline \<notin> set l" "length l < 255"
  shows "fgets 256 (l @ newline # r) = Some (l @ [newline], r)"
  using take_line_newline [OF assms, of r] by (simp add: fgets_def)

lemma cut_newline_line:
  assumes "\<forall>c\<in>set l. c \<noteq> newline \<and> c \<noteq> CHR 0x00"
  shows "cut_newline (l @ [newline]) = l"
proof -
  have "cstr (l @ [newline]) = l @ [newline]"
    using assms by (simp add: cstr_def newline_def takeWhile_append2 takeWhile_eq_all_conv)
  then show ?thesis
    using assms by (simp add: cut_newline_def takeWhile_append2)
qed

lemma strtok_token_last: "token_ok t \<Longrightarrow> strtok t = Some (t, [])"
proof -
  assume "token_ok t"
  then have t: "t \<noteq> []" "\<forall>c\<in>set t. c \<noteq> space" by (simp_all add: token_ok_def)
  then have "dropWhile (\<lambda>c. c = space) t = t" by (cases t) simp_all
  moreover have "takeWhile (\<lambda>c. c \<noteq> space) t = t" "dropWhile (\<lambda>c. c \<noteq> space) t = []"
    using t(2) by (simp_all add: takeWhile_eq_all_conv dropWhile_eq_Nil_conv)
  ultimately show ?thesis using t(1) by (simp only: strtok_def Let_def if_False list.sel)
qed

lemma strtok_token_more: "token_ok t \<Longrightarrow> strtok (t @ space # r) = Some (t, r)"
  by (cases t) (auto simp: strtok_def token_ok_def takeWhile_append2 dropWhile_append2)

lemma argumentos_Nil: "argumentos n [] = []"
  by (cases n) (simp_all add: strtok_def)

lemma argumentos_unwords:
  "\<forall>t\<in>set ts. token_ok t \<Longrightarrow> argumentos n (unwords ts) = take n ts"
proof (induction ts arbitrary: n rule: unwords.induct)
  case 1
  then show ?case by (simp add: argumentos_Nil)
next
  case (2 t)
  then show ?case
    by (cases n) (simp_all add: strtok_token_last argumentos_Nil)
next
  case (3 t u ts)
  then show ?case by (cases n) (auto simp: strtok_token_more)
qed

lemma space_plain: "space \<noteq> newline" "space \<noteq> CHR 0x00"
  by (simp_all add: space_def newline_def)

lemma token_okD: "token_ok t \<Longrightarrow> c \<in> set t \<Longrightarrow> c \<noteq> newline \<and> c \<noteq> CHR 0x00"
  by (simp add: token_ok_def)

lemma unwords_clean:
  "\<forall>t\<in>set ts. token_ok t \<Longrightarrow> c \<in> set (unwords ts) \<Longrightarrow> c \<noteq> newline \<and> c \<noteq> CHR 0x00"
proof (induction ts rule: unwords.induct)
  case (3 t u ts)
  then consider "c \<in> set t" | "c = space" | "c \<in> set (unwords (u # ts))" by auto
  then show ?case
  proof cases
    case 1
    with 3 show ?thesis using token_okD [of t c] by simp
  next
    case 2
    then show ?thesis using space_plain by simp
  next
    case 3
    then show ?thesis using "3.IH" "3.prems" by simp
  qed
qed (simp_all add: token_okD)

lemma digit_char: "d < 10 \<Longrightarrow> is_digit (char_of (48 + d)) \<and> digit_val (char_of (48 + d :: nat)) = d"
  by (simp add: is_digit_def digit_val_def)

lemma dec_value_append:
  "\<forall>c\<in>set l. is_digit c \<Longrightarrow> dec_value a (l @ r) = dec_value (dec_value a l) r"
  by (induction l arbitrary: a) auto

lemma dec_str_digits: "\<forall>c\<in>set (dec_str n). is_digit c"
proof (induction n rule: dec_str.induct)
  case (1 n)
  then show ?case
    using digit_char [of "n mod 10"] digit_char [of n] by (subst dec_str.simps) auto
qed

lemma dec_value_dec_str: "dec_value 0 (dec_str n) = n"
proof (induction n rule: dec_str.induct)
  case (1 n)
  show ?case
  proof (cases "n < 10")
    case True
    then show ?thesis using digit_char [of n] by (subst dec_str.simps) simp
  next
    case False
    have "dec_value 0 (dec_str n) = 10 * (n div 10) + n mod 10"
      using 1 False digit_char [of "n mod 10"]
      by (subst dec_str.simps) (simp add: dec_value_append [OF dec_str_digits])
    then show ?thesis by simp
  qed
qed

lemma dec_str_nonempty: "dec_str n \<noteq> []"
  by (subst dec_str.simps) simp

lemma digit_plain:
  "is_digit c \<Longrightarrow> \<not> is_space c \<and> c \<noteq> CHR ''-'' \<and> c \<noteq> CHR ''+'' \<and> c \<noteq> space \<and> c \<noteq> newline \<and> c \<noteq> CHR 0x00"
  by (auto simp: is_digit_def is_space_def space_def newline_def)

lemma token_ok_dec_str: "token_ok (dec_str n)"
  using dec_str_digits [of n] digit_plain by (auto simp: token_ok_def dec_str_nonempty)

lemma atoi_dec_str:
  assumes "n < 2 ^ 31"
  shows "atoi (dec_str n) = int n"
proof -
  obtain c cs where l: "dec_str n = c # cs" using dec_str_nonempty [of n] by (cases "dec_str n") auto
  have d: "is_digit c" using dec_str_digits [of n] by (simp add: l)
  have v: "dec_value 0 (c # cs) = n" using dec_value_dec_str [of n] by (simp add: l)
  have "atoi (dec_str n) = sint (word_of_int (int n) :: u32)"
    using digit_plain [OF d] v assms by (simp add: atoi_def l Let_def del: dec_value.simps)
  also have "\<dots> = int n"
    using assms signed_take_bit_int_eq_self [of 31 "int n"]
    unfolding sint_sbintrunc' by simp
  finally show ?thesis .
qed

lemma atoi_range: "- (2 ^ 31) \<le> atoi s \<and> atoi s < 2 ^ 31"
proof -
  have "- (2 ^ 31) \<le> sint w \<and> sint w < 2 ^ 31" for w :: u32
    using sint_ge [of w] sint_lt [of w] by simp
  then show ?thesis unfolding atoi_def Let_def by blast
qed

lemma atoi_less [simp]: "atoi s < 2147483648"
  using atoi_range [of s] by simp

lemma flat_opts_set: "t \<in> set (flat_opts ps) \<longleftrightarrow> (\<exists>fv\<in>set ps. t = fst fv \<or> t = snd fv)"
  by (induction ps rule: flat_opts.induct) auto

lemma length_flat_opts: "length (flat_opts ps) = 2 * length ps"
  by (induction ps rule: flat_opts.induct) auto

lemma flag_tokens: "token_ok ''-p'' \<and> token_ok ''-o'' \<and> token_ok ''-t'' \<and> token_ok ''-k''"
  by (simp add: token_ok_def space_def newline_def)

lemma writes_call_tokens:
  assumes "writes_call ps c"
  shows "(\<forall>t\<in>set (flat_opts ps). token_ok t) \<and> length (flat_opts ps) \<le> 10"
proof -
  obtain i s n k where c: "c = (i, s, n, k)" by (cases c)
  have d: "distinct (map fst ps)" and tok: "token_ok i" "token_ok s" "token_ok k" and
    set_ps: "set ps = {(''-p'', i), (''-o'', s), (''-t'', dec_str (nat n)), (''-k'', k)}"
    using assms by (simp_all add: writes_call_def c)
  have "length ps = card (set ps)" using d distinct_map [of fst ps] by (simp add: distinct_card)
  also have "\<dots> \<le> 4" unfolding set_ps by (intro card_insert_le_m1) simp_all
  finally have "length (flat_opts ps) \<le> 10" by (simp add: length_flat_opts)
  moreover have "token_ok t" if "t \<in> set (flat_opts ps)" for t
    using that flag_tokens tok token_ok_dec_str by (auto simp: flat_opts_set set_ps)
  ultimately show ?thesis by blast
qed

lemma unwords_hd: "t \<noteq> [] \<Longrightarrow> hd (unwords (t # ts)) = hd t"
  by (cases ts) simp_all

lemma writes_call_not_exit:
  assumes "writes_call ps c"
  shows "unwords (flat_opts ps) \<noteq> ''salir''"
proof -
  obtain i s n k where
    set_ps: "set ps = {(''-p'', i), (''-o'', s), (''-t'', dec_str (nat n)), (''-k'', k)}"
    using assms by (cases c) (simp add: writes_call_def)
  then obtain f v qs where ps: "ps = (f, v) # qs" by (cases ps) auto
  have "(f, v) \<in> set ps" by (simp add: ps)
  then have "f \<in> {''-p'', ''-o'', ''-t'', ''-k''}" unfolding set_ps by blast
  then have "hd f = CHR ''-'' \<and> f \<noteq> []" by (elim insertE) simp_all
  then have "hd (unwords (flat_opts ps)) = CHR ''-''" using unwords_hd by (simp add: ps)
  moreover have "hd ''salir'' \<noteq> CHR ''-''" by simp
  ultimately show ?thesis by fastforce
qed

lemma round_exit: "app_round command (''salir'' @ newline # rest) b = None"
proof -
  have "fgets 256 (''salir'' @ newline # rest) = Some (''salir'' @ [newline], rest)"
    by (rule fgets_line) (simp_all add: newline_def)
  moreover have "cut_newline (''salir'' @ [newline]) = ''salir''"
    by (rule cut_newline_line) (simp add: newline_def)
  ultimately show ?thesis by (simp add: app_round_def)
qed

lemma round_tokens:
  assumes tok: "\<forall>t\<in>set ts. token_ok t" and few: "length ts \<le> 10"
    and len: "length (unwords ts) < 255" and exit: "unwords ts \<noteq> ''salir''"
  shows "app_round command (unwords ts @ newline # inp) b =
    Some (command ts, inp, after_strtok (unwords ts))"
proof -
  have clean: "\<forall>c\<in>set (unwords ts). c \<noteq> newline \<and> c \<noteq> CHR 0x00"
    using unwords_clean [OF tok] by blast
  then have "fgets 256 (unwords ts @ newline # inp) = Some (unwords ts @ [newline], inp)"
    using len by (intro fgets_line) auto
  then show ?thesis
    using cut_newline_line [OF clean] argumentos_unwords [OF tok, of 10] few exit
    by (simp add: app_round_def)
qed

section \<open>The contract of an option loop\<close>

text \<open>
  What both programs promise: each of the four options, followed by a value, sets its variable,
  and a command whose four variables are set is passed to the kernel.
\<close>

definition option_ok :: "string \<times> string \<Rightarrow> bool" where
  "option_ok fv \<longleftrightarrow> fst fv \<in> {''-p'', ''-o'', ''-t'', ''-k''} \<and> (fst fv = ''-t'' \<longrightarrow> 0 < atoi (snd fv))"

locale command_line =
  fixes parse :: "string list \<Rightarrow> opts \<Rightarrow> opts"
    and command :: "string list \<Rightarrow> call option"
  assumes parse_Nil: "parse [] p = p"
    and parse_entrada: "parse (''-p'' # v # r) p = parse r (p\<lparr>archivo_entrada := Some v\<rparr>)"
    and parse_salida: "parse (''-o'' # v # r) p = parse r (p\<lparr>archivo_salida := Some v\<rparr>)"
    and parse_clave: "parse (''-k'' # v # r) p = parse r (p\<lparr>archivo_clave := Some v\<rparr>)"
    and parse_hilos: "0 < atoi v \<Longrightarrow> parse (''-t'' # v # r) p = parse r (p\<lparr>num_hilos := atoi v\<rparr>)"
    and command_call:
      "parse args opts0 = \<lparr>archivo_entrada = Some i, archivo_salida = Some s, archivo_clave = Some k,
         num_hilos = n, error_parametros = False\<rparr> \<Longrightarrow> 0 < n \<Longrightarrow> command args = Some (i, s, n, k)"
begin

lemmas parse_option = parse_entrada parse_salida parse_clave parse_hilos

lemma parse_flat:
  "\<forall>fv\<in>set ps. option_ok fv \<Longrightarrow> parse (flat_opts ps) p =
     \<lparr>archivo_entrada = (case map_of (rev ps) ''-p'' of None \<Rightarrow> archivo_entrada p | v \<Rightarrow> v),
      archivo_salida = (case map_of (rev ps) ''-o'' of None \<Rightarrow> archivo_salida p | v \<Rightarrow> v),
      archivo_clave = (case map_of (rev ps) ''-k'' of None \<Rightarrow> archivo_clave p | v \<Rightarrow> v),
      num_hilos = (case map_of (rev ps) ''-t'' of None \<Rightarrow> num_hilos p | Some v \<Rightarrow> atoi v),
      error_parametros = error_parametros p\<rparr>"
proof (induction ps arbitrary: p)
  case Nil
  then show ?case by (simp add: parse_Nil)
next
  case (Cons fv ps)
  obtain f v where fv: "fv = (f, v)" by (rule prod.exhaust)
  from Cons.prems have "option_ok (f, v)" and ih: "\<forall>fv\<in>set ps. option_ok fv" by (simp_all add: fv)
  then consider "f = ''-p''" | "f = ''-o''" | "f = ''-k''" | "f = ''-t''" "0 < atoi v"
    by (auto simp: option_ok_def)
  then show ?case
    by cases (simp_all add: fv parse_option Cons.IH [OF ih] map_add_def split: option.splits)
qed

lemma command_written:
  assumes "writes_call ps c"
  shows "command (flat_opts ps) = Some c"
proof -
  obtain i s n k where c: "c = (i, s, n, k)" by (cases c)
  have d: "distinct (map fst ps)" and
    set_ps: "set ps = {(''-p'', i), (''-o'', s), (''-t'', dec_str (nat n)), (''-k'', k)}" and
    n: "0 < n" "n < 2 ^ 31"
    using assms by (simp_all add: writes_call_def c)
  have at: "atoi (dec_str (nat n)) = n" using atoi_dec_str [of "nat n"] n by simp
  have "map_of (rev ps) f = Some v \<longleftrightarrow> (f, v) \<in> set ps" for f v
    using d map_of_eq_Some_iff [of "rev ps"] by (simp add: rev_map [symmetric])
  then have m: "map_of (rev ps) ''-p'' = Some i" "map_of (rev ps) ''-o'' = Some s"
    "map_of (rev ps) ''-t'' = Some (dec_str (nat n))" "map_of (rev ps) ''-k'' = Some k"
    by (simp_all add: set_ps)
  have "\<forall>fv\<in>set ps. option_ok fv" using n by (simp add: set_ps option_ok_def at)
  from parse_flat [OF this, of opts0] show ?thesis
    unfolding c by (intro command_call) (simp_all add: m at opts0_def n)
qed

lemma round_written:
  assumes w: "writes_call ps c" and len: "length (command_text ps) \<le> 255"
  shows "\<exists>b'. app_round command (command_text ps @ inp) b = Some (Some c, inp, b')"
  using round_tokens [of "flat_opts ps" command inp b] writes_call_tokens [OF w]
    writes_call_not_exit [OF w] len
  by (simp add: command_written [OF w] command_text_def)

lemma session_written:
  "\<forall>(ps, c)\<in>set cmds. writes_call ps c \<and> length (command_text ps) \<le> 255 \<Longrightarrow>
   app_loop (Suc (length cmds)) command
     (concat (map (\<lambda>(ps, c). command_text ps) cmds) @ ''salir'' @ newline # rest) b =
   (map snd cmds, True)"
proof (induction cmds arbitrary: b)
  case Nil
  show ?case using round_exit [of command rest b] by simp
next
  case (Cons pc cmds)
  obtain ps c where pc: "pc = (ps, c)" by (rule prod.exhaust)
  let ?rest = "concat (map (\<lambda>(ps, c). command_text ps) cmds) @ ''salir'' @ newline # rest"
  obtain b' where "app_round command (command_text ps @ ?rest) b = Some (Some c, ?rest, b')"
    using round_written [of ps c ?rest b] Cons.prems unfolding pc by auto
  then show ?case using Cons by (simp add: pc)
qed

end

interpretation enc_app: command_line encrypt_opts encrypt_command
  by unfold_locales (auto simp: encrypt_command_def Let_def)

interpretation dec_app: command_line decrypt_opts decrypt_command
  by unfold_locales (auto simp: decrypt_command_def Let_def)

section \<open>Lemmas on the loops\<close>

lemma app_loop_Suc:
  "app_round command inp b = Some (c, inp', b') \<Longrightarrow> app_loop (Suc n) command inp b =
     ((case c of None \<Rightarrow> [] | Some x \<Rightarrow> [x]) @ fst (app_loop n command inp' b'),
      snd (app_loop n command inp' b'))"
  by (simp split: prod.splits option.splits)

lemma app_round_eof:
  "app_round command [] b =
     (if cut_newline b = ''salir'' then None
      else Some (command (argumentos 10 (cut_newline b)), [], after_strtok (cut_newline b)))"
  by (simp add: app_round_def fgets_def Let_def)

lemma app_loop_calls:
  "c \<in> set (fst (app_loop n command inp b)) \<Longrightarrow> \<exists>args. command args = Some c"
proof (induction n arbitrary: inp b)
  case (Suc n)
  show ?case
  proof (cases "app_round command inp b")
    case (Some r)
    obtain d inp' b' where r: "r = (d, inp', b')" by (rule prod_cases3)
    then obtain args where "d = command args"
      using Some by (auto simp: app_round_def Let_def split: if_splits prod.splits)
    moreover have "d = Some c \<or> c \<in> set (fst (app_loop n command inp' b'))"
      using Suc.prems app_loop_Suc [OF Some [unfolded r], of n]
      by (auto simp del: app_loop.simps split: option.splits)
    ultimately show ?thesis using Suc.IH by metis
  qed (use Suc.prems in simp)
qed simp

lemma decrypt_opts_range:
  "num_hilos p < 2 ^ 31 \<Longrightarrow> num_hilos (decrypt_opts args p) < 2 ^ 31"
  by (induction args p rule: decrypt_opts.induct) simp_all

lemma encrypt_opts_range:
  "num_hilos p < 2 ^ 31 \<Longrightarrow> error_parametros p \<or> 0 \<le> num_hilos p \<Longrightarrow>
   num_hilos (encrypt_opts args p) < 2 ^ 31 \<and>
   (error_parametros (encrypt_opts args p) \<or> 0 \<le> num_hilos (encrypt_opts args p))"
proof (induction args p rule: encrypt_opts.induct)
  case (2 a rest p)
  have "atoi (hd rest) \<le> 0 \<or> 0 \<le> atoi (hd rest)" by linarith
  then show ?case using 2 by (simp add: Let_def)
qed simp

text \<open>At end of file the buffer keeps its first word, and no command with one word is a call.\<close>

lemma spaces_then_word:
  assumes "\<forall>c\<in>set u. c = space" "\<forall>c\<in>set w. c \<noteq> space"
  shows "after_strtok (u @ w) = u @ w"
proof -
  have "takeWhile (\<lambda>c. c = space) w = []" "dropWhile (\<lambda>c. c = space) w = w"
    using assms(2) by (cases w; simp)+
  moreover have "takeWhile (\<lambda>c. c \<noteq> space) w = w" using assms(2) by (simp add: takeWhile_eq_all_conv)
  ultimately show ?thesis
    using assms(1) by (simp add: after_strtok_def takeWhile_append2 dropWhile_append2)
qed

lemma after_strtok_idem: "after_strtok (after_strtok s) = after_strtok s"
  unfolding after_strtok_def [of s] by (rule spaces_then_word) (auto dest: set_takeWhileD)

lemma set_after_strtok: "set (after_strtok s) \<subseteq> set s"
  by (auto simp: after_strtok_def dest: set_takeWhileD set_dropWhileD)

lemma cut_newline_clean: "c \<in> set (cut_newline s) \<Longrightarrow> c \<noteq> newline \<and> c \<noteq> CHR 0x00"
  by (auto simp: cut_newline_def cstr_def dest!: set_takeWhileD)

lemma cut_newline_id: "\<forall>c\<in>set s. c \<noteq> newline \<and> c \<noteq> CHR 0x00 \<Longrightarrow> cut_newline s = s"
proof -
  assume s: "\<forall>c\<in>set s. c \<noteq> newline \<and> c \<noteq> CHR 0x00"
  then have "cstr s = s" by (simp add: cstr_def takeWhile_eq_all_conv)
  with s show ?thesis by (simp add: cut_newline_def takeWhile_eq_all_conv)
qed

lemma cut_after_strtok [simp]:
  "cut_newline (after_strtok (cut_newline s)) = after_strtok (cut_newline s)"
  using set_after_strtok [of "cut_newline s"] cut_newline_clean by (intro cut_newline_id) blast

lemma after_strtok_salir: "after_strtok ''salir'' = ''salir''"
  by (simp add: after_strtok_def space_def)

lemma app_loop_eof:
  assumes "after_strtok (cut_newline b) \<noteq> ''salir''"
  shows "\<not> snd (app_loop n command [] b)"
  using assms
proof (induction n arbitrary: b)
  case (Suc n)
  let ?b = "after_strtok (cut_newline b)"
  have "cut_newline b \<noteq> ''salir''" using Suc.prems after_strtok_salir by auto
  then have r: "app_round command [] b = Some (command (argumentos 10 (cut_newline b)), [], ?b)"
    by (simp add: app_round_eof)
  have "\<not> snd (app_loop n command [] ?b)"
    using Suc.IH [of ?b] Suc.prems by (simp add: after_strtok_idem)
  then show ?case unfolding app_loop_Suc [OF r] by simp
qed simp

lemma app_loop_eof_salir:
  assumes "after_strtok (cut_newline b) = ''salir''"
  shows "snd (app_loop 2 command [] b)"
proof (cases "cut_newline b = ''salir''")
  case True
  then show ?thesis by (simp add: numeral_2_eq_2 app_round_eof)
next
  case False
  then have r: "app_round command [] b = Some (command (argumentos 10 (cut_newline b)), [], ''salir'')"
    by (simp add: app_round_eof assms)
  have "app_round command [] ''salir'' = None"
    using cut_after_strtok [of b] by (simp add: app_round_eof assms)
  then show ?thesis by (simp add: numeral_2_eq_2 app_loop_Suc [OF r] del: app_loop.simps(2)) simp
qed

text \<open>The encryption program accepts a command without \<open>-t\<close>.\<close>

lemma encrypt_round_without_threads:
  assumes tok: "token_ok i" "token_ok s" "token_ok k"
    and len: "length (unwords [''-p'', i, ''-o'', s, ''-k'', k]) < 255"
  shows "fst (encrypt_app 1 (unwords [''-p'', i, ''-o'', s, ''-k'', k] @ newline # inp) b) = [(i, s, 0, k)]"
proof -
  let ?ts = "[''-p'', i, ''-o'', s, ''-k'', k]"
  have "encrypt_command ?ts = Some (i, s, 0, k)" by (simp add: encrypt_command_def opts0_def)
  moreover have "\<forall>t\<in>set ?ts. token_ok t" using tok flag_tokens by simp
  ultimately have r: "app_round encrypt_command (unwords ?ts @ newline # inp) b =
      Some (Some (i, s, 0, k), inp, after_strtok (unwords ?ts))"
    using round_tokens [of ?ts encrypt_command inp b] len by simp
  show ?thesis
    unfolding encrypt_app_def One_nat_def app_loop_Suc [OF r] by simp
qed

section \<open>Properties of the two programs\<close>

text \<open>C6: whatever commands the user types, with the four options in any order and any positive
  32-bit number of threads, and ends with "salir", the encryption program makes exactly the
  corresponding system calls, in that order, and then ends.\<close>

theorem encrypt_app_session:
  assumes "\<forall>(ps, c)\<in>set cmds. writes_call ps c \<and> length (command_text ps) \<le> 255"
  shows "encrypt_app (Suc (length cmds))
    (concat (map (\<lambda>(ps, c). command_text ps) cmds) @ ''salir'' @ newline # rest) comando =
    (map snd cmds, True)"
  unfolding encrypt_app_def by (rule enc_app.session_written [OF assms])

definition demo_cmds :: "((string \<times> string) list \<times> call) list" where
  "demo_cmds =
     [([(''-p'', ''a''), (''-o'', ''b''), (''-t'', ''2''), (''-k'', ''k'')], (''a'', ''b'', 2, ''k'')),
      ([(''-t'', ''15''), (''-k'', ''k''), (''-p'', ''c''), (''-o'', ''d'')], (''c'', ''d'', 15, ''k''))]"

lemma demo_cmds_ok: "\<forall>(ps, c)\<in>set demo_cmds. writes_call ps c \<and> length (command_text ps) \<le> 255"
proof -
  have "dec_str 2 = ''2''" "dec_str 15 = ''15''" by code_simp+
  moreover have "token_ok ''a''" "token_ok ''b''" "token_ok ''c''" "token_ok ''d''" "token_ok ''k''"
    by (simp_all add: token_ok_def space_def newline_def)
  ultimately show ?thesis
    unfolding demo_cmds_def writes_call_def
    by (simp add: command_text_def) blast
qed

theorem encrypt_app_session_witness:
  "encrypt_app 3 (''-p a -o b -t 2 -k k'' @ [newline] @ ''-t 15 -k k -p c -o d'' @ [newline] @
     ''salir'' @ [newline]) [] = ([(''a'', ''b'', 2, ''k''), (''c'', ''d'', 15, ''k'')], True)"
  using encrypt_app_session [OF demo_cmds_ok, of "[]" "[]"]
  by (simp add: demo_cmds_def command_text_def space_def eval_nat_numeral)

text \<open>C7: the decryption program makes exactly the system calls the user's commands ask for, in
  order, and ends with "salir".\<close>

theorem decrypt_app_session:
  assumes "\<forall>(ps, c)\<in>set cmds. writes_call ps c \<and> length (command_text ps) \<le> 255"
  shows "decrypt_app (Suc (length cmds))
    (concat (map (\<lambda>(ps, c). command_text ps) cmds) @ ''salir'' @ newline # rest) comando =
    (map snd cmds, True)"
  unfolding decrypt_app_def by (rule dec_app.session_written [OF assms])

theorem decrypt_app_session_witness:
  "decrypt_app 3 (''-p a -o b -t 2 -k k'' @ [newline] @ ''-t 15 -k k -p c -o d'' @ [newline] @
     ''salir'' @ [newline]) [] = ([(''a'', ''b'', 2, ''k''), (''c'', ''d'', 15, ''k'')], True)"
  using decrypt_app_session [OF demo_cmds_ok, of "[]" "[]"]
  by (simp add: demo_cmds_def command_text_def space_def eval_nat_numeral)

text \<open>C8: on every input whatsoever, each system call the decryption program makes has a thread
  count from 1 to 2^31 - 1, and each call of the encryption program one from 0 to 2^31 - 1.\<close>

theorem app_thread_bounds:
  "(\<forall>(i, s, t, k)\<in>set (fst (decrypt_app n inp comando)). 0 < t \<and> t < 2 ^ 31) \<and>
   (\<forall>(i, s, t, k)\<in>set (fst (encrypt_app n inp comando)). 0 \<le> t \<and> t < 2 ^ 31)"
proof -
  have d: "0 < t \<and> t < 2 ^ 31" if "decrypt_command args = Some (i, s, t, k)" for args i s t k
    using that decrypt_opts_range [of opts0 args]
    by (auto simp: decrypt_command_def opts0_def Let_def split: option.splits if_splits)
  have e: "0 \<le> t \<and> t < 2 ^ 31" if "encrypt_command args = Some (i, s, t, k)" for args i s t k
    using that encrypt_opts_range [of opts0 args]
    by (auto simp: encrypt_command_def opts0_def Let_def split: option.splits if_splits)
  show ?thesis
    unfolding decrypt_app_def encrypt_app_def
    using app_loop_calls [of _ n decrypt_command inp comando]
      app_loop_calls [of _ n encrypt_command inp comando] d e by fast
qed

theorem app_thread_bounds_witness:
  "\<exists>t u. map (\<lambda>(i, s, t, k). t) (fst (decrypt_app 3 (''-p a -o b -t 2 -k k'' @ [newline] @
       ''-t 15 -k k -p c -o d'' @ [newline] @ ''salir'' @ [newline]) [])) = [t, u] \<and>
     0 < t \<and> t < 2 ^ 31 \<and> 0 < u \<and> u < 2 ^ 31"
  (is "\<exists>t u. map _ (fst (decrypt_app 3 ?inp [])) = _ \<and> _")
proof -
  have "fst (decrypt_app 3 ?inp []) = [(''a'', ''b'', 2, ''k''), (''c'', ''d'', 15, ''k'')]"
    using dec_app.session_written [OF demo_cmds_ok, of "[]" "[]"]
    by (simp add: decrypt_app_def demo_cmds_def command_text_def space_def eval_nat_numeral)
  then show ?thesis
    using app_thread_bounds [of 3 ?inp "[]"] by simp
qed

text \<open>C9: once standard input is exhausted neither program ever ends, unless the word left in the
  command buffer happens to be "salir": \<open>fgets\<close> failing is not detected.\<close>

theorem apps_loop_at_eof:
  "((\<exists>n. snd (encrypt_app n [] comando)) \<longleftrightarrow> after_strtok (cut_newline comando) = ''salir'') \<and>
   ((\<exists>n. snd (decrypt_app n [] comando)) \<longleftrightarrow> after_strtok (cut_newline comando) = ''salir'')"
  unfolding encrypt_app_def decrypt_app_def
  using app_loop_eof app_loop_eof_salir by blast

end
