(* ===== verification/Bitops.thy ===== *)
theory Bitops
  imports Prelude
begin

text \<open>
  Bit searching, counting, sign extension and rounding on machine words: the generic routines of
  include/asm-generic/bitops (fls.h, __fls.h, fls64.h, ffs.h, __ffs.h, const_hweight.h) and the
  inline functions of include/linux/bitops.h and include/linux/log2.h. A name with leading
  underscores in the source carries the prefix \<open>u_\<close> here.
\<close>

section \<open>Find last set\<close>

text \<open>One rung of the ladder in \<open>fls\<close> and \<open>__fls\<close>: the top k bits are tested.\<close>

definition fls_step :: "nat \<Rightarrow> int \<times> 'a::len word \<Rightarrow> int \<times> 'a word" where
  "fls_step k = (\<lambda>(num, w).
     if w AND push_bit (LENGTH('a) - k) (NOT 0) = 0 then (num - int k, push_bit k w) else (num, w))"

definition u_fls :: "u64 \<Rightarrow> int" where
  "u_fls word =
     (let s = fls_step 2 (fls_step 4 (fls_step 8 (fls_step 16 (fls_step 32 (63, word)))))
      in if snd s AND push_bit 63 (NOT 0) = 0 then fst s - 1 else fst s)"

definition fls64 :: "u64 \<Rightarrow> int" where
  "fls64 x = (if x = 0 then 0 else u_fls x + 1)"

text \<open>The constants 0xffff0000, 0xff000000, ... of \<open>fls\<close> are the top 16, 8, 4, 2 and 1 bits.\<close>

definition fls :: "u32 \<Rightarrow> int" where
  "fls x = (if x = 0 then 0
     else fst (fls_step 1 (fls_step 2 (fls_step 4 (fls_step 8 (fls_step 16 (32, x)))))))"

definition fls_long :: "u64 \<Rightarrow> int" where
  "fls_long l = fls64 l"

section \<open>Find first set\<close>

definition ffs_step :: "nat \<Rightarrow> nat \<times> 'a::len word \<Rightarrow> nat \<times> 'a word" where
  "ffs_step k = (\<lambda>(num, w). if w AND mask k = 0 then (num + k, drop_bit k w) else (num, w))"

definition u_ffs :: "u64 \<Rightarrow> nat" where
  "u_ffs word =
     (let s = ffs_step 2 (ffs_step 4 (ffs_step 8 (ffs_step 16 (ffs_step 32 (0, word)))))
      in if snd s AND 1 = 0 then fst s + 1 else fst s)"

text \<open>\<open>ffs\<close> takes an int, so its shifts are arithmetic.\<close>

definition sffs_step :: "nat \<Rightarrow> nat \<times> 'a::len word \<Rightarrow> nat \<times> 'a word" where
  "sffs_step k = (\<lambda>(r, x). if x AND mask k = 0 then (r + k, signed_drop_bit k x) else (r, x))"

definition ffs :: "u32 \<Rightarrow> nat" where
  "ffs x = (if x = 0 then 0
     else fst (sffs_step 1 (sffs_step 2 (sffs_step 4 (sffs_step 8 (sffs_step 16 (1, x)))))))"

text \<open>\<open>fns\<close>: the n-th set bit, or 64. The loop clears the lowest set bit each time.\<close>

function fns :: "u64 \<Rightarrow> nat \<Rightarrow> nat" where
  "fns word n =
     (if word = 0 then 64
      else let b = u_ffs word in if n = 0 then b else fns (unset_bit b word) (n - 1))"
  by auto
termination
  by (relation "measure snd") (auto simp: Let_def)

section \<open>Population count\<close>

definition hweight8 :: "'a::len word \<Rightarrow> nat" where
  "hweight8 w =
     of_bool (w AND push_bit 0 1 \<noteq> 0) + of_bool (w AND push_bit 1 1 \<noteq> 0) +
     of_bool (w AND push_bit 2 1 \<noteq> 0) + of_bool (w AND push_bit 3 1 \<noteq> 0) +
     of_bool (w AND push_bit 4 1 \<noteq> 0) + of_bool (w AND push_bit 5 1 \<noteq> 0) +
     of_bool (w AND push_bit 6 1 \<noteq> 0) + of_bool (w AND push_bit 7 1 \<noteq> 0)"

definition hweight16 :: "'a::len word \<Rightarrow> nat" where
  "hweight16 w = hweight8 w + hweight8 (drop_bit 8 w)"

definition hweight32 :: "'a::len word \<Rightarrow> nat" where
  "hweight32 w = hweight16 w + hweight16 (drop_bit 16 w)"

definition hweight64 :: "u64 \<Rightarrow> nat" where
  "hweight64 w = hweight32 w + hweight32 (drop_bit 32 w)"

section \<open>Sign extension\<close>

definition sign_extend32 :: "u32 \<Rightarrow> int \<Rightarrow> int" where
  "sign_extend32 value index =
     (let shift = unat (word_of_int (31 - index) :: u8) in sint (signed_drop_bit shift (push_bit shift value)))"

definition sign_extend64 :: "u64 \<Rightarrow> int \<Rightarrow> int" where
  "sign_extend64 value index =
     (let shift = unat (word_of_int (63 - index) :: u8) in sint (signed_drop_bit shift (push_bit shift value)))"

section \<open>Powers of two (include/linux/log2.h)\<close>

definition is_power_of_2 :: "u64 \<Rightarrow> bool" where
  "is_power_of_2 n \<longleftrightarrow> n \<noteq> 0 \<and> n AND (n - 1) = 0"

definition u_roundup_pow_of_two :: "u64 \<Rightarrow> u64" where
  "u_roundup_pow_of_two n = push_bit (nat (fls_long (n - 1))) 1"

definition u_rounddown_pow_of_two :: "u64 \<Rightarrow> u64" where
  "u_rounddown_pow_of_two n = push_bit (nat (fls_long n - 1)) 1"

definition u_ilog2_u32 :: "u32 \<Rightarrow> int" where "u_ilog2_u32 n = fls n - 1"
definition u_ilog2_u64 :: "u64 \<Rightarrow> int" where "u_ilog2_u64 n = fls64 n - 1"

definition u_order_base_2 :: "u64 \<Rightarrow> int" where
  "u_order_base_2 n = (if n > 1 then u_ilog2_u64 (n - 1) + 1 else 0)"

definition u_bits_per :: "u64 \<Rightarrow> int" where
  "u_bits_per n = (if n < 2 then 1
     else if is_power_of_2 n then u_order_base_2 n + 1 else u_order_base_2 n)"

definition get_count_order :: "u32 \<Rightarrow> int" where
  "get_count_order count = (if count = 0 then - 1 else fls (count - 1))"

definition get_count_order_long :: "u64 \<Rightarrow> int" where
  "get_count_order_long l = (if l = 0 then - 1 else fls_long (l - 1))"

section \<open>Reference: highest and lowest set bit\<close>

definition top_bit :: "'a::len word \<Rightarrow> nat \<Rightarrow> bool" where
  "top_bit w t \<longleftrightarrow> bit w t \<and> (\<forall>j. bit w j \<longrightarrow> j \<le> t)"

definition low_bit :: "'a::len word \<Rightarrow> nat \<Rightarrow> bool" where
  "low_bit w t \<longleftrightarrow> bit w t \<and> (\<forall>j. bit w j \<longrightarrow> t \<le> j)"

lemma top_bit_less: "top_bit (w :: 'a::len word) t \<Longrightarrow> t < LENGTH('a)"
  by (auto simp: top_bit_def dest: bit_imp_le_length)

lemma low_bit_less: "low_bit (w :: 'a::len word) t \<Longrightarrow> t < LENGTH('a)"
  by (auto simp: low_bit_def dest: bit_imp_le_length)

lemma nonzero_bit: "w \<noteq> 0 \<Longrightarrow> \<exists>n. bit (w :: 'a::len word) n"
  using bit_eq_iff [of w 0] by auto

lemma top_bit_ex:
  assumes "w \<noteq> 0"
  obtains t where "top_bit (w :: 'a::len word) t"
proof -
  obtain n where "bit w n" using nonzero_bit [OF assms] ..
  moreover have "\<forall>n. bit w n \<longrightarrow> n \<le> LENGTH('a)" using bit_imp_le_length less_imp_le by blast
  ultimately have "bit w (GREATEST n. bit w n)" "\<And>j. bit w j \<Longrightarrow> j \<le> (GREATEST n. bit w n)"
    by (auto intro: GreatestI_nat Greatest_le_nat)
  then have "top_bit w (GREATEST n. bit w n)" by (simp add: top_bit_def)
  then show ?thesis by (rule that)
qed

lemma low_bit_ex:
  assumes "w \<noteq> 0"
  obtains t where "low_bit (w :: 'a::len word) t"
proof -
  obtain n where "bit w n" using nonzero_bit [OF assms] ..
  then have "low_bit w (LEAST n. bit w n)"
    by (auto simp: low_bit_def intro: LeastI Least_le)
  then show ?thesis by (rule that)
qed

lemma top_bit_unique: "top_bit w s \<Longrightarrow> top_bit w t \<Longrightarrow> s = t"
  by (simp add: top_bit_def le_antisym)

lemma low_bit_unique: "low_bit w s \<Longrightarrow> low_bit w t \<Longrightarrow> s = t"
  by (simp add: low_bit_def le_antisym)

section \<open>The ladders\<close>

lemma high_bits_zero:
  assumes "top_bit (w :: 'a::len word) t"
  shows "w AND NOT (mask m) = 0 \<longleftrightarrow> t < m"
proof
  assume "w AND NOT (mask m) = 0"
  then have "\<not> bit (w AND NOT (mask m)) t" by simp
  then show "t < m" using assms top_bit_less [OF assms] by (auto simp: top_bit_def bit_simps)
next
  assume "t < m"
  then show "w AND NOT (mask m) = 0"
    using assms by (auto simp: word_bits_iff bit_simps top_bit_def dest: le_less_trans)
qed

lemma top_bit_push:
  "top_bit (w :: 'a::len word) t \<Longrightarrow> t + k < LENGTH('a) \<Longrightarrow> top_bit (push_bit k w) (t + k)"
  by (auto simp: top_bit_def bit_simps)

lemma fls_step_inv:
  assumes "top_bit (w :: 'a::len word) t" "LENGTH('a) \<le> t + 2 * k" "k \<le> LENGTH('a)"
  shows "\<exists>num' w' t'. fls_step k (num, w) = (num', w') \<and> top_bit w' t' \<and> LENGTH('a) \<le> t' + k \<and>
    num' + int t' = num + int t"
proof (cases "t < LENGTH('a) - k")
  case True
  then have "fls_step k (num, w) = (num - int k, push_bit k w)"
    using assms by (simp add: fls_step_def high_bits_zero)
  moreover have "top_bit (push_bit k w) (t + k)" using assms True by (intro top_bit_push) auto
  ultimately show ?thesis using assms by (intro exI [of _ "num - int k"] exI [of _ "push_bit k w"] exI [of _ "t + k"]) auto
next
  case False
  then have "fls_step k (num, w) = (num, w)" using assms by (simp add: fls_step_def high_bits_zero)
  then show ?thesis using assms False by (intro exI [of _ num] exI [of _ w] exI [of _ t]) auto
qed

lemma u_fls_top:
  assumes "top_bit word t"
  shows "u_fls word = int t"
proof -
  have l: "LENGTH(64) \<le> t + 2 * 32" by simp
  obtain n1 w1 t1 where 1: "fls_step 32 (63, word) = (n1, w1)" "top_bit w1 t1" "64 \<le> t1 + 32"
      "n1 + int t1 = 63 + int t"
    using fls_step_inv [OF assms l, of 63] by auto
  obtain n2 w2 t2 where 2: "fls_step 16 (n1, w1) = (n2, w2)" "top_bit w2 t2" "64 \<le> t2 + 16"
      "n2 + int t2 = n1 + int t1"
    using fls_step_inv [OF 1(2), of 16 n1] 1(3) by auto
  obtain n3 w3 t3 where 3: "fls_step 8 (n2, w2) = (n3, w3)" "top_bit w3 t3" "64 \<le> t3 + 8"
      "n3 + int t3 = n2 + int t2"
    using fls_step_inv [OF 2(2), of 8 n2] 2(3) by auto
  obtain n4 w4 t4 where 4: "fls_step 4 (n3, w3) = (n4, w4)" "top_bit w4 t4" "64 \<le> t4 + 4"
      "n4 + int t4 = n3 + int t3"
    using fls_step_inv [OF 3(2), of 4 n3] 3(3) by auto
  obtain n5 w5 t5 where 5: "fls_step 2 (n4, w4) = (n5, w5)" "top_bit w5 t5" "64 \<le> t5 + 2"
      "n5 + int t5 = n4 + int t4"
    using fls_step_inv [OF 4(2), of 2 n4] 4(3) by auto
  have "u_fls word = (if t5 < 63 then n5 - 1 else n5)"
    using high_bits_zero [OF 5(2), of 63] by (simp add: u_fls_def 1(1) 2(1) 3(1) 4(1) 5(1))
  then show ?thesis
    using 1(4) 2(4) 3(4) 4(4) 5(3,4) top_bit_less [OF 5(2)] by (auto split: if_splits)
qed

lemma fls_top:
  assumes "top_bit x t"
  shows "fls x = int t + 1"
proof -
  have l: "LENGTH(32) \<le> t + 2 * 16" by simp
  obtain n1 w1 t1 where 1: "fls_step 16 (32, x) = (n1, w1)" "top_bit w1 t1" "32 \<le> t1 + 16"
      "n1 + int t1 = 32 + int t"
    using fls_step_inv [OF assms l, of 32] by auto
  obtain n2 w2 t2 where 2: "fls_step 8 (n1, w1) = (n2, w2)" "top_bit w2 t2" "32 \<le> t2 + 8"
      "n2 + int t2 = n1 + int t1"
    using fls_step_inv [OF 1(2), of 8 n1] 1(3) by auto
  obtain n3 w3 t3 where 3: "fls_step 4 (n2, w2) = (n3, w3)" "top_bit w3 t3" "32 \<le> t3 + 4"
      "n3 + int t3 = n2 + int t2"
    using fls_step_inv [OF 2(2), of 4 n2] 2(3) by auto
  obtain n4 w4 t4 where 4: "fls_step 2 (n3, w3) = (n4, w4)" "top_bit w4 t4" "32 \<le> t4 + 2"
      "n4 + int t4 = n3 + int t3"
    using fls_step_inv [OF 3(2), of 2 n3] 3(3) by auto
  obtain n5 w5 t5 where 5: "fls_step 1 (n4, w4) = (n5, w5)" "top_bit w5 t5" "32 \<le> t5 + 1"
      "n5 + int t5 = n4 + int t4"
    using fls_step_inv [OF 4(2), of 1 n4] 4(3) by auto
  have "x \<noteq> 0" using assms by (auto simp: top_bit_def)
  then have "fls x = n5" by (simp only: fls_def 1(1) 2(1) 3(1) 4(1) 5(1) if_False fst_conv)
  then show ?thesis using 1(4) 2(4) 3(4) 4(4) 5(3,4) top_bit_less [OF 5(2)] by simp
qed

lemma low_bits_zero:
  assumes "low_bit (w :: 'a::len word) t"
  shows "w AND mask k = 0 \<longleftrightarrow> k \<le> t"
proof
  assume "w AND mask k = 0"
  then have "\<not> bit (w AND mask k) t" by simp
  then show "k \<le> t" using assms low_bit_less [OF assms] by (auto simp: low_bit_def bit_simps)
next
  assume "k \<le> t"
  then show "w AND mask k = 0"
    using assms by (auto simp: word_bits_iff bit_simps low_bit_def)
qed

lemma low_bit_drop: "low_bit w t \<Longrightarrow> k \<le> t \<Longrightarrow> low_bit (drop_bit k w) (t - k)"
  by (auto simp: low_bit_def bit_simps)

lemma low_bit_sdrop:
  assumes "low_bit (w :: 'a::len word) t" "k \<le> t"
  shows "low_bit (signed_drop_bit k w) (t - k)"
  using assms low_bit_less [OF assms(1)] by (auto simp: low_bit_def bit_simps split: if_splits)

lemma ffs_step_inv:
  assumes "low_bit (w :: 'a::len word) t" "t < 2 * k"
  shows "\<exists>num' w' t'. ffs_step k (num, w) = (num', w') \<and> low_bit w' t' \<and> t' < k \<and> num' + t' = num + t"
proof (cases "k \<le> t")
  case True
  then have "ffs_step k (num, w) = (num + k, drop_bit k w)"
    by (simp add: ffs_step_def low_bits_zero [OF assms(1)])
  then show ?thesis using low_bit_drop [OF assms(1) True] assms(2) True by auto
next
  case False
  then have "ffs_step k (num, w) = (num, w)" by (simp add: ffs_step_def low_bits_zero [OF assms(1)])
  then show ?thesis using assms False by auto
qed

lemma sffs_step_inv:
  assumes "low_bit (w :: 'a::len word) t" "t < 2 * k"
  shows "\<exists>num' w' t'. sffs_step k (num, w) = (num', w') \<and> low_bit w' t' \<and> t' < k \<and> num' + t' = num + t"
proof (cases "k \<le> t")
  case True
  then have "sffs_step k (num, w) = (num + k, signed_drop_bit k w)"
    by (simp add: sffs_step_def low_bits_zero [OF assms(1)])
  then show ?thesis using low_bit_sdrop [OF assms(1) True] assms(2) True by auto
next
  case False
  then have "sffs_step k (num, w) = (num, w)" by (simp add: sffs_step_def low_bits_zero [OF assms(1)])
  then show ?thesis using assms False by auto
qed

lemma u_ffs_low:
  assumes "low_bit word t"
  shows "u_ffs word = t"
proof -
  have l: "t < 2 * 32" using low_bit_less [OF assms] by simp
  obtain n1 w1 t1 where 1: "ffs_step 32 (0, word) = (n1, w1)" "low_bit w1 t1" "t1 < 32" "n1 + t1 = t"
    using ffs_step_inv [OF assms l, of 0] by auto
  obtain n2 w2 t2 where 2: "ffs_step 16 (n1, w1) = (n2, w2)" "low_bit w2 t2" "t2 < 16" "n2 + t2 = n1 + t1"
    using ffs_step_inv [OF 1(2), of 16 n1] 1(3) by auto
  obtain n3 w3 t3 where 3: "ffs_step 8 (n2, w2) = (n3, w3)" "low_bit w3 t3" "t3 < 8" "n3 + t3 = n2 + t2"
    using ffs_step_inv [OF 2(2), of 8 n2] 2(3) by auto
  obtain n4 w4 t4 where 4: "ffs_step 4 (n3, w3) = (n4, w4)" "low_bit w4 t4" "t4 < 4" "n4 + t4 = n3 + t3"
    using ffs_step_inv [OF 3(2), of 4 n3] 3(3) by auto
  obtain n5 w5 t5 where 5: "ffs_step 2 (n4, w4) = (n5, w5)" "low_bit w5 t5" "t5 < 2" "n5 + t5 = n4 + t4"
    using ffs_step_inv [OF 4(2), of 2 n4] 4(3) by auto
  have "u_ffs word = (if 1 \<le> t5 then n5 + 1 else n5)"
    using low_bits_zero [OF 5(2), of 1] by (simp add: u_ffs_def 1(1) 2(1) 3(1) 4(1) 5(1) mask_eq_exp_minus_1)
  then show ?thesis using 1(4) 2(4) 3(4) 4(4) 5(3,4) by (auto split: if_splits)
qed

lemma ffs_low:
  assumes "low_bit x t"
  shows "ffs x = t + 1"
proof -
  have l: "t < 2 * 16" using low_bit_less [OF assms] by simp
  obtain n1 w1 t1 where 1: "sffs_step 16 (1, x) = (n1, w1)" "low_bit w1 t1" "t1 < 16" "n1 + t1 = 1 + t"
    using sffs_step_inv [OF assms l, of 1] by auto
  obtain n2 w2 t2 where 2: "sffs_step 8 (n1, w1) = (n2, w2)" "low_bit w2 t2" "t2 < 8" "n2 + t2 = n1 + t1"
    using sffs_step_inv [OF 1(2), of 8 n1] 1(3) by auto
  obtain n3 w3 t3 where 3: "sffs_step 4 (n2, w2) = (n3, w3)" "low_bit w3 t3" "t3 < 4" "n3 + t3 = n2 + t2"
    using sffs_step_inv [OF 2(2), of 4 n2] 2(3) by auto
  obtain n4 w4 t4 where 4: "sffs_step 2 (n3, w3) = (n4, w4)" "low_bit w4 t4" "t4 < 2" "n4 + t4 = n3 + t3"
    using sffs_step_inv [OF 3(2), of 2 n3] 3(3) by auto
  obtain n5 w5 t5 where 5: "sffs_step 1 (n4, w4) = (n5, w5)" "low_bit w5 t5" "t5 < 1" "n5 + t5 = n4 + t4"
    using sffs_step_inv [OF 4(2), of 1 n4] 4(3) by auto
  have "x \<noteq> 0" using assms by (auto simp: low_bit_def)
  then have "ffs x = n5" by (simp only: ffs_def 1(1) 2(1) 3(1) 4(1) 5(1) if_False fst_conv)
  then show ?thesis using 1(4) 2(4) 3(4) 4(4) 5(3,4) by simp
qed

section \<open>Counting and selecting bits\<close>

definition bits_below :: "'a::len word \<Rightarrow> nat \<Rightarrow> nat set" where
  "bits_below w n = {j. j < n \<and> bit w j}"

lemma finite_bits_below [simp]: "finite (bits_below w n)"
  by (simp add: bits_below_def)

lemma card_bits_Suc: "card (bits_below w (Suc n)) = card (bits_below w n) + of_bool (bit w n)"
proof -
  have "bits_below w (Suc n) = (if bit w n then insert n (bits_below w n) else bits_below w n)"
    by (auto simp: bits_below_def less_Suc_eq)
  then show ?thesis by (simp add: bits_below_def)
qed

lemma card_bits_add:
  "card (bits_below w (m + n)) = card (bits_below w m) + card (bits_below (drop_bit m w) n)"
proof (induction n)
  case 0
  then show ?case by (simp add: bits_below_def)
next
  case (Suc n)
  then show ?case by (simp add: card_bits_Suc bit_drop_bit_eq add.commute)
qed

lemma and_push_one: "n < LENGTH('a) \<Longrightarrow> (w :: 'a::len word) AND push_bit n 1 \<noteq> 0 \<longleftrightarrow> bit w n"
  by (auto simp: word_bits_iff bit_simps)

lemma hweight8_card:
  assumes "8 \<le> LENGTH('a)"
  shows "hweight8 (w :: 'a::len word) = card (bits_below w 8)"
proof -
  have b: "(w AND push_bit n 1 \<noteq> 0) = bit w n" if "n < 8" for n
    using and_push_one [of n w] that assms by simp
  have bs: "(w AND push_bit 0 1 \<noteq> 0) = bit w 0"
    "(w AND push_bit 1 1 \<noteq> 0) = bit w 1"
    "(w AND push_bit 2 1 \<noteq> 0) = bit w 2"
    "(w AND push_bit 3 1 \<noteq> 0) = bit w 3"
    "(w AND push_bit 4 1 \<noteq> 0) = bit w 4"
    "(w AND push_bit 5 1 \<noteq> 0) = bit w 5"
    "(w AND push_bit 6 1 \<noteq> 0) = bit w 6"
    "(w AND push_bit 7 1 \<noteq> 0) = bit w 7"
    by (rule b, simp)+
  have c2: "card (bits_below w 2) = of_bool (bit w 0) + of_bool (bit w 1)"
    using card_bits_Suc [of w 0] card_bits_Suc [of w 1] by (simp add: bits_below_def numeral_2_eq_2)
  have "card (bits_below w 8) = of_bool (bit w 0) + of_bool (bit w 1) + of_bool (bit w 2) + of_bool (bit w 3) +
      of_bool (bit w 4) + of_bool (bit w 5) + of_bool (bit w 6) + of_bool (bit w 7)"
    using c2 card_bits_Suc [of w 2] card_bits_Suc [of w 3] card_bits_Suc [of w 4] card_bits_Suc [of w 5]
      card_bits_Suc [of w 6] card_bits_Suc [of w 7]
    by simp
  then show ?thesis unfolding hweight8_def bs by simp
qed

lemma hweight16_card: "8 \<le> LENGTH('a) \<Longrightarrow> hweight16 (w :: 'a::len word) = card (bits_below w 16)"
  using card_bits_add [of w 8 8] by (simp add: hweight16_def hweight8_card)

lemma hweight32_card: "8 \<le> LENGTH('a) \<Longrightarrow> hweight32 (w :: 'a::len word) = card (bits_below w 32)"
  using card_bits_add [of w 16 16] by (simp add: hweight32_def hweight16_card)

lemma hweight64_card: "hweight64 w = card (bits_below w 64)"
  using card_bits_add [of w 32 32] by (simp add: hweight64_def hweight32_card)

text \<open>Selecting the n-th set bit.\<close>

declare fns.simps [simp del]

lemma bits_below_all: "bits_below (w :: 'a::len word) LENGTH('a) = {j. bit w j}"
  by (auto simp: bits_below_def dest: bit_imp_le_length)

lemma unset_low_bits:
  assumes "low_bit w b" "b < n"
  shows "card (bits_below w n) = Suc (card (bits_below (unset_bit b w) n))"
proof -
  have "bits_below w n = insert b (bits_below (unset_bit b w) n)"
    using assms by (auto simp: bits_below_def low_bit_def bit_simps)
  moreover have "b \<notin> bits_below (unset_bit b w) n" by (simp add: bits_below_def bit_simps)
  ultimately show ?thesis by simp
qed

lemma fns_select:
  "(hweight64 w \<le> n \<longrightarrow> fns w n = 64) \<and>
   (n < hweight64 w \<longrightarrow> bit w (fns w n) \<and> card (bits_below w (fns w n)) = n)"
proof (induction w n rule: fns.induct)
  case (1 w n)
  show ?case
  proof (cases "w = 0")
    case True
    then show ?thesis by (simp add: fns.simps [of 0] hweight64_card bits_below_def)
  next
    case False
    then obtain b where b: "low_bit w b" by (rule low_bit_ex)
    then have f: "u_ffs w = b" "b < 64" by (simp_all add: u_ffs_low) (use low_bit_less [OF b] in simp)
    have h: "hweight64 w = Suc (hweight64 (unset_bit b w))"
      using unset_low_bits [OF b f(2)] by (simp add: hweight64_card)
    show ?thesis
    proof (cases n)
      case 0
      have "bits_below w b = {}" using b by (auto simp: bits_below_def low_bit_def)
      then show ?thesis using 0 False b h by (simp add: fns.simps [of w] f low_bit_def)
    next
      case (Suc m)
      let ?w = "unset_bit b w"
      have fn: "fns w n = fns ?w m" using False Suc by (simp add: fns.simps [of w] f)
      have ih: "(hweight64 ?w \<le> m \<longrightarrow> fns ?w m = 64) \<and>
          (m < hweight64 ?w \<longrightarrow> bit ?w (fns ?w m) \<and> card (bits_below ?w (fns ?w m)) = m)"
        using 1 [OF False refl] Suc by (simp add: f)
      moreover have "bit w (fns ?w m) \<and> card (bits_below w (fns ?w m)) = n" if "bit ?w (fns ?w m)" "card (bits_below ?w (fns ?w m)) = m"
      proof -
        have "bit w (fns ?w m)" "fns ?w m \<noteq> b" using that by (auto simp: bit_simps)
        then have "b < fns ?w m" using b by (auto simp: low_bit_def le_neq_implies_less)
        then show ?thesis using unset_low_bits [OF b] that Suc \<open>bit w (fns ?w m)\<close> by simp
      qed
      ultimately show ?thesis using fn h Suc by auto
    qed
  qed
qed

section \<open>Size in bits and powers of two\<close>

lemma top_bit_unat:
  fixes w :: "'a::len word"
  shows "top_bit w t \<longleftrightarrow> 2 ^ t \<le> unat w \<and> unat w < 2 ^ Suc t"
proof
  assume t: "top_bit w t"
  have b: "bit (unat w) n = bit w n" for n by (simp add: bit_unsigned_iff)
  have "\<not> unat w < 2 ^ t"
  proof
    assume "unat w < 2 ^ t"
    then have "take_bit t (unat w) = unat w" by (simp add: take_bit_nat_eq_self)
    then have "\<not> bit (unat w) t" by (metis bit_take_bit_iff less_irrefl)
    then show False using t b by (simp add: top_bit_def)
  qed
  moreover have "take_bit (Suc t) (unat w) = unat w"
    using t by (intro bit_eqI) (auto simp: bit_take_bit_iff b top_bit_def)
  then have "unat w < 2 ^ Suc t" by (metis take_bit_nat_less_exp)
  ultimately show "2 ^ t \<le> unat w \<and> unat w < 2 ^ Suc t" by simp
next
  assume u: "2 ^ t \<le> unat w \<and> unat w < 2 ^ Suc t"
  have b: "bit (unat w) n = bit w n" for n by (simp add: bit_unsigned_iff)
  have "unat w div 2 ^ t = 1" using u by (intro div_nat_eqI) auto
  then have "bit (unat w) t" by (simp add: bit_iff_odd)
  then have "bit w t" by (simp only: b)
  moreover have "j \<le> t" if "bit w j" for j
  proof (rule ccontr)
    assume "\<not> j \<le> t"
    then have "Suc t \<le> j" by simp
    then have "unat w < 2 ^ j" using u by (meson less_le_trans one_le_numeral power_increasing)
    then have "unat w div 2 ^ j = 0" by simp
    then have "\<not> bit (unat w) j" by (simp add: bit_iff_odd)
    then show False using that b by simp
  qed
  ultimately show "top_bit w t" by (simp add: top_bit_def)
qed

lemma top_bit_bound:
  assumes "top_bit w t"
  shows "unat w < 2 ^ j \<longleftrightarrow> Suc t \<le> j"
proof
  have u: "2 ^ t \<le> unat w" "unat w < 2 ^ Suc t" using assms by (simp_all add: top_bit_unat)
  show "unat w < 2 ^ j" if "Suc t \<le> j"
  proof -
    have "(2 :: nat) ^ Suc t \<le> 2 ^ j" using that by (intro power_increasing) auto
    then show ?thesis using u by linarith
  qed
  show "Suc t \<le> j" if "unat w < 2 ^ j"
  proof -
    have "(2 :: nat) ^ t < 2 ^ j" using that u by linarith
    then show ?thesis by (simp add: Suc_le_eq)
  qed
qed

lemma fls64_le_iff: "fls64 n \<le> int j \<longleftrightarrow> unat n < 2 ^ j"
proof (cases "n = 0")
  case False
  then obtain t where t: "top_bit n t" by (rule top_bit_ex)
  then show ?thesis using False by (auto simp: fls64_def u_fls_top top_bit_bound)
qed (simp add: fls64_def)

lemma fls_le_iff: "fls n \<le> int j \<longleftrightarrow> unat n < 2 ^ j"
proof (cases "n = 0")
  case False
  then obtain t where t: "top_bit n t" by (rule top_bit_ex)
  then show ?thesis using False by (auto simp: fls_top top_bit_bound)
qed (simp add: fls_def)

lemma fls64_nonneg: "0 \<le> fls64 n"
proof (cases "n = 0")
  case False
  then obtain t where "top_bit n t" by (rule top_bit_ex)
  then show ?thesis using False by (simp add: fls64_def u_fls_top)
qed (simp add: fls64_def)

lemma unat_pred: "n \<noteq> 0 \<Longrightarrow> unat (n - 1) = unat (n :: 'a::len word) - 1"
  by (simp add: unat_sub word_le_nat_alt Suc_le_eq unat_gt_0)

lemma order_base_2_least: "u_order_base_2 n \<le> int j \<longleftrightarrow> unat n \<le> 2 ^ j"
proof (cases "1 < n")
  case True
  then have "n \<noteq> 0" by auto
  moreover have "1 < unat n" using True by (simp add: word_less_nat_alt)
  ultimately show ?thesis
    using True fls64_le_iff [of "n - 1" j] unat_pred [of n]
    by (auto simp: u_order_base_2_def u_ilog2_u64_def)
next
  case False
  then have "unat n \<le> 1" by (simp add: word_less_nat_alt)
  moreover have "(1 :: nat) \<le> 2 ^ j" by simp
  ultimately have "unat n \<le> 2 ^ j" by (rule order_trans)
  then show ?thesis using False by (simp add: u_order_base_2_def)
qed

lemma unat_push_one: "k < LENGTH('a) \<Longrightarrow> unat (push_bit k 1 :: 'a::len word) = 2 ^ k"
  using unat_of_nat [of "2 ^ k", where ?'a = 'a] by simp

lemma power_of_2_iff: "is_power_of_2 n \<longleftrightarrow> (\<exists>k. unat n = 2 ^ k)"
proof
  assume p: "is_power_of_2 n"
  then have n0: "n \<noteq> 0" by (simp add: is_power_of_2_def)
  then obtain t where t: "top_bit n t" by (rule top_bit_ex)
  then have u: "2 ^ t \<le> unat n" "unat n < 2 ^ Suc t" by (simp_all add: top_bit_unat)
  have "unat n = 2 ^ t"
  proof (rule ccontr)
    assume "unat n \<noteq> 2 ^ t"
    then have "2 ^ t \<le> unat (n - 1)" "unat (n - 1) < 2 ^ Suc t"
      using u unat_pred [OF n0] by linarith+
    then have "top_bit (n - 1) t" by (simp add: top_bit_unat)
    then have "bit (n AND (n - 1)) t" using t by (simp add: top_bit_def bit_simps)
    then show False using p by (simp add: is_power_of_2_def)
  qed
  then show "\<exists>k. unat n = 2 ^ k" ..
next
  assume "\<exists>k. unat n = 2 ^ k"
  then obtain k where k: "unat n = 2 ^ k" ..
  then have n0: "n \<noteq> 0" by auto
  have t: "top_bit n k" using k by (simp add: top_bit_unat)
  have only: "bit n j \<Longrightarrow> j = k" for j
    using k bit_unsigned_iff [of n j, where ?'a = nat] by (auto simp: bit_exp_iff bit_imp_le_length)
  have "unat (n - 1) < 2 ^ k" using k unat_pred [OF n0] by simp
  then have "\<not> bit (n - 1) k"
    using bit_unsigned_iff [of "n - 1" k, where ?'a = nat] by (auto simp: bit_iff_odd)
  then show "is_power_of_2 n" using n0 only by (auto simp: is_power_of_2_def word_bits_iff bit_simps)
qed

lemma roundup_spec:
  assumes "n \<noteq> 0" "unat n \<le> 2 ^ 63"
  obtains k where "k < 64" "unat (u_roundup_pow_of_two n) = 2 ^ k" "\<And>j. unat n \<le> 2 ^ j \<longleftrightarrow> k \<le> j"
proof -
  let ?k = "nat (fls64 (n - 1))"
  have le: "?k \<le> j \<longleftrightarrow> unat n \<le> 2 ^ j" for j
    using fls64_le_iff [of "n - 1" j] unat_pred [OF assms(1)] unat_gt_0 [of n] assms(1)
    by (auto simp: nat_le_iff)
  have "?k \<le> 63" unfolding le by (rule assms(2))
  then have "?k < 64" by simp
  moreover from this have "unat (u_roundup_pow_of_two n) = 2 ^ ?k"
    unfolding u_roundup_pow_of_two_def fls_long_def by (intro unat_push_one) simp
  ultimately show ?thesis using le by (intro that [of ?k]) auto
qed

lemma rounddown_spec:
  assumes "n \<noteq> 0"
  obtains k where "unat (u_rounddown_pow_of_two n) = 2 ^ k" "2 ^ k \<le> unat n" "unat n < 2 ^ Suc k"
proof -
  obtain t where t: "top_bit n t" using assms by (rule top_bit_ex)
  have "unat (u_rounddown_pow_of_two n) = 2 ^ t"
    using unat_push_one [of t, where ?'a = 64] top_bit_less [OF t] assms
    by (simp add: u_rounddown_pow_of_two_def fls_long_def fls64_def u_fls_top [OF t] del: push_bit_of_1)
  then show ?thesis using t by (intro that [of t]) (simp_all add: top_bit_unat)
qed

section \<open>Sign extension\<close>

lemma shift_pair:
  fixes v :: "'a::len word"
  assumes "k < LENGTH('a)"
  shows "signed_drop_bit k (push_bit k v) = signed_take_bit (LENGTH('a) - 1 - k) v"
proof (rule bit_word_eqI)
  fix n assume n: "n < LENGTH('a)"
  show "bit (signed_drop_bit k (push_bit k v)) n = bit (signed_take_bit (LENGTH('a) - 1 - k) v) n"
  proof (cases "n = LENGTH('a) - Suc k")
    case True
    then have "\<not> LENGTH('a) - k \<le> n" using assms by simp
    then show ?thesis using True assms n by (simp add: bit_simps)
  next
    case False
    then show ?thesis using assms n by (auto simp: bit_simps min_def split: if_splits)
  qed
qed

lemma sint_signed_take_bit:
  fixes v :: "'a::len word"
  assumes "n < LENGTH('a)"
  shows "sint (signed_take_bit n v) = signed_take_bit n (uint v)"
proof -
  have "n = LENGTH('a) - Suc 0" if "LENGTH('a) - Suc 0 \<le> n" using that assms by simp
  then show ?thesis using assms by transfer (auto simp: min_def)
qed

lemma sign_extend64_spec:
  assumes "0 \<le> i" "i < 64"
  shows "sign_extend64 v i = signed_take_bit (nat i) (uint v)"
proof -
  have sh: "unat (word_of_int (63 - i) :: u8) = 63 - nat i"
    using assms unat_of_nat [of "63 - nat i", where ?'a = 8] by (simp add: of_nat_diff)
  show ?thesis
    using assms shift_pair [of "63 - nat i" v] sint_signed_take_bit [of "nat i" v]
    by (simp add: sign_extend64_def sh Let_def nat_less_iff del: of_int_diff)
qed

lemma sign_extend32_spec:
  assumes "0 \<le> i" "i < 32"
  shows "sign_extend32 v i = signed_take_bit (nat i) (uint v)"
proof -
  have sh: "unat (word_of_int (31 - i) :: u8) = 31 - nat i"
    using assms unat_of_nat [of "31 - nat i", where ?'a = 8] by (simp add: of_nat_diff)
  show ?thesis
    using assms shift_pair [of "31 - nat i" v] sint_signed_take_bit [of "nat i" v]
    by (simp add: sign_extend32_def sh Let_def nat_less_iff del: of_int_diff)
qed

section \<open>Properties\<close>

text \<open>C35: on a nonzero word \<open>__fls\<close>, \<open>fls\<close> and \<open>fls64\<close> give the index of the highest set bit
  (counted from 0, 1 and 1) and \<open>__ffs\<close> and \<open>ffs\<close> that of the lowest; \<open>hweight64\<close> is the number of
  set bits, and \<open>fns\<close> selects the n-th of them or gives 64 when there are not as many.\<close>

theorem bit_search_correct:
  "(top_bit w t \<longrightarrow> u_fls w = int t \<and> fls64 w = int t + 1) \<and> (top_bit x s \<longrightarrow> fls x = int s + 1) \<and>
   (low_bit w t \<longrightarrow> u_ffs w = t) \<and> (low_bit x s \<longrightarrow> ffs x = s + 1) \<and>
   hweight64 w = card (bits_below w 64) \<and>
   (n < hweight64 w \<longrightarrow> bit w (fns w n) \<and> card (bits_below w (fns w n)) = n) \<and>
   (hweight64 w \<le> n \<longrightarrow> fns w n = 64)"
proof -
  have "fls64 w = int t + 1" if "top_bit w t"
  proof -
    have "w \<noteq> 0" using that by (auto simp: top_bit_def)
    then show ?thesis by (simp add: fls64_def u_fls_top [OF that])
  qed
  then show ?thesis
    using u_fls_top fls_top u_ffs_low ffs_low hweight64_card fns_select by blast
qed

theorem bit_search_correct_witness:
  "u_fls 40 = 5 \<and> fls64 40 = 6 \<and> fls 40 = 6 \<and> u_ffs 40 = 3 \<and> ffs 40 = 4 \<and> hweight64 40 = 2 \<and> fns 40 2 = 64"
proof -
  have t: "top_bit (40 :: u64) 5" "top_bit (40 :: u32) 5" by (simp_all add: top_bit_unat)
  have l: "low_bit (40 :: u64) 3" "low_bit (40 :: u32) 3"
    by (auto simp: low_bit_def not_less [symmetric] numeral_3_eq_3 less_Suc_eq intro!: gr0I)
  have "hweight64 40 = 2" by (simp add: hweight64_def hweight32_def hweight16_def hweight8_def)
  then show ?thesis
    using bit_search_correct [of 40 5 40 5 2] bit_search_correct [of 40 3 40 3 2] t l by simp
qed

text \<open>\<open>is_power_of_2\<close> decides being a power of two; for n from 1 to 2^63
  \<open>__roundup_pow_of_two\<close> is the least power of two not below n, \<open>__rounddown_pow_of_two\<close> the
  greatest not above it, and \<open>order_base_2\<close> is the least exponent j with n at most 2^j.\<close>

theorem powers_of_two:
  "(is_power_of_2 n \<longleftrightarrow> (\<exists>k. unat n = 2 ^ k)) \<and>
   (n \<noteq> 0 \<and> unat n \<le> 2 ^ 63 \<longrightarrow>
     (\<exists>k. unat (u_roundup_pow_of_two n) = 2 ^ k \<and> (\<forall>j. unat n \<le> 2 ^ j \<longleftrightarrow> k \<le> j))) \<and>
   (n \<noteq> 0 \<longrightarrow>
     (\<exists>k. unat (u_rounddown_pow_of_two n) = 2 ^ k \<and> 2 ^ k \<le> unat n \<and> unat n < 2 ^ Suc k)) \<and>
   (\<forall>j. u_order_base_2 n \<le> int j \<longleftrightarrow> unat n \<le> 2 ^ j)"
proof (intro conjI impI allI)
  assume "n \<noteq> 0 \<and> unat n \<le> 2 ^ 63"
  then obtain k where "unat (u_roundup_pow_of_two n) = 2 ^ k" "\<And>j. unat n \<le> 2 ^ j \<longleftrightarrow> k \<le> j"
    by (auto elim: roundup_spec)
  then show "\<exists>k. unat (u_roundup_pow_of_two n) = 2 ^ k \<and> (\<forall>j. unat n \<le> 2 ^ j \<longleftrightarrow> k \<le> j)"
    by (intro exI [of _ k]) simp
next
  assume "n \<noteq> 0"
  then show "\<exists>k. unat (u_rounddown_pow_of_two n) = 2 ^ k \<and> 2 ^ k \<le> unat n \<and> unat n < 2 ^ Suc k"
    by (rule rounddown_spec) blast
qed (rule power_of_2_iff order_base_2_least)+

theorem powers_of_two_witness:
  "\<exists>k. unat (u_roundup_pow_of_two 100) = 2 ^ k \<and> (100 :: nat) \<le> 2 ^ k"
  using powers_of_two [of 100] by auto

end
