(* ===== verification/Tnum.thy ===== *)
theory Tnum
  imports Bitops
begin

text \<open>
  Tristate numbers of the BPF verifier (kernel/bpf/tnum.c, include/linux/tnum.h): a value and a
  mask of unknown bits. \<open>tnum_mem\<close> is the set a tnum stands for; every operation is shown to
  contain the results of the machine operation on the members of its arguments.
\<close>

section \<open>Definitions\<close>

record tnum =
  tvalue :: u64
  tmask :: u64

definition TNUM :: "u64 \<Rightarrow> u64 \<Rightarrow> tnum" where
  "TNUM v m = \<lparr>tvalue = v, tmask = m\<rparr>"

definition tnum_unknown :: tnum where "tnum_unknown = TNUM 0 (- 1)"

definition tnum_const :: "u64 \<Rightarrow> tnum" where
  "tnum_const v = TNUM v 0"

definition tnum_range :: "u64 \<Rightarrow> u64 \<Rightarrow> tnum" where
  "tnum_range lo hi =
     (let chi = lo XOR hi; bits = word_of_int (fls64 chi) :: u8 in
      if 63 < bits then tnum_unknown
      else let delta = push_bit (unat bits) 1 - 1 in TNUM (lo AND NOT delta) delta)"

definition tnum_lshift :: "tnum \<Rightarrow> nat \<Rightarrow> tnum" where
  "tnum_lshift a shift = TNUM (push_bit shift (tvalue a)) (push_bit shift (tmask a))"

definition tnum_rshift :: "tnum \<Rightarrow> nat \<Rightarrow> tnum" where
  "tnum_rshift a shift = TNUM (drop_bit shift (tvalue a)) (drop_bit shift (tmask a))"

definition tnum_arshift :: "tnum \<Rightarrow> nat \<Rightarrow> nat \<Rightarrow> tnum" where
  "tnum_arshift a min_shift insn_bitness =
     (if insn_bitness = 32 then
        TNUM (ucast (signed_drop_bit min_shift (ucast (tvalue a) :: u32)))
          (ucast (signed_drop_bit min_shift (ucast (tmask a) :: u32)))
      else TNUM (signed_drop_bit min_shift (tvalue a)) (signed_drop_bit min_shift (tmask a)))"

definition tnum_add :: "tnum \<Rightarrow> tnum \<Rightarrow> tnum" where
  "tnum_add a b =
     (let sm = tmask a + tmask b; sv = tvalue a + tvalue b; sigma = sm + sv; chi = sigma XOR sv;
          mu = chi OR tmask a OR tmask b
      in TNUM (sv AND NOT mu) mu)"

definition tnum_sub :: "tnum \<Rightarrow> tnum \<Rightarrow> tnum" where
  "tnum_sub a b =
     (let dv = tvalue a - tvalue b; alpha = dv + tmask a; beta = dv - tmask b;
          chi = alpha XOR beta; mu = chi OR tmask a OR tmask b
      in TNUM (dv AND NOT mu) mu)"

definition tnum_and :: "tnum \<Rightarrow> tnum \<Rightarrow> tnum" where
  "tnum_and a b =
     (let alpha = tvalue a OR tmask a; beta = tvalue b OR tmask b; v = tvalue a AND tvalue b
      in TNUM v (alpha AND beta AND NOT v))"

definition tnum_or :: "tnum \<Rightarrow> tnum \<Rightarrow> tnum" where
  "tnum_or a b = (let v = tvalue a OR tvalue b; mu = tmask a OR tmask b in TNUM v (mu AND NOT v))"

definition tnum_xor :: "tnum \<Rightarrow> tnum \<Rightarrow> tnum" where
  "tnum_xor a b =
     (let v = tvalue a XOR tvalue b; mu = tmask a OR tmask b in TNUM (v AND NOT mu) mu)"

text \<open>The loop of \<open>tnum_mul\<close>; it ends because both words of \<open>a\<close> are shifted right.\<close>

lemma drop_bit_1_less: "w \<noteq> 0 \<Longrightarrow> unat (drop_bit 1 w) < unat (w :: u64)"
  by (simp add: drop_bit_eq_div unat_div unat_gt_0)

function tnum_mul_loop :: "tnum \<Rightarrow> tnum \<Rightarrow> tnum \<Rightarrow> tnum" where
  "tnum_mul_loop a b acc_m =
     (if tvalue a = 0 \<and> tmask a = 0 then acc_m
      else let acc_m' =
             (if tvalue a AND 1 \<noteq> 0 then tnum_add acc_m (TNUM 0 (tmask b))
              else if tmask a AND 1 \<noteq> 0 then tnum_add acc_m (TNUM 0 (tvalue b OR tmask b))
              else acc_m)
        in tnum_mul_loop (tnum_rshift a 1) (tnum_lshift b 1) acc_m')"
  by auto
termination
proof (relation "measure (\<lambda>(a, b, acc). unat (tvalue a) + unat (tmask a))", simp)
  fix a b acc acc' :: tnum
  assume "\<not> (tvalue a = 0 \<and> tmask a = 0)"
  moreover have "unat (drop_bit 1 w) \<le> unat w" for w :: u64 by (simp add: drop_bit_eq_div unat_div)
  ultimately have "unat (drop_bit 1 (tvalue a)) + unat (drop_bit 1 (tmask a)) < unat (tvalue a) + unat (tmask a)"
    using drop_bit_1_less by (metis add_le_less_mono add_less_le_mono)
  then show "((tnum_rshift a 1, tnum_lshift b 1, acc'), a, b, acc)
      \<in> measure (\<lambda>(a, b, acc). unat (tvalue a) + unat (tmask a))"
    by (simp add: tnum_rshift_def TNUM_def)
qed

declare tnum_mul_loop.simps [simp del]

definition tnum_mul :: "tnum \<Rightarrow> tnum \<Rightarrow> tnum" where
  "tnum_mul a b =
     (let acc_v = tvalue a * tvalue b
      in tnum_add (TNUM acc_v 0) (tnum_mul_loop a b (TNUM 0 0)))"

definition tnum_intersect :: "tnum \<Rightarrow> tnum \<Rightarrow> tnum" where
  "tnum_intersect a b =
     (let v = tvalue a OR tvalue b; mu = tmask a AND tmask b in TNUM (v AND NOT mu) mu)"

definition tnum_cast :: "tnum \<Rightarrow> nat \<Rightarrow> tnum" where
  "tnum_cast a sz =
     a\<lparr>tvalue := tvalue a AND (push_bit (sz * 8) 1 - 1), tmask := tmask a AND (push_bit (sz * 8) 1 - 1)\<rparr>"

definition tnum_is_aligned :: "tnum \<Rightarrow> u64 \<Rightarrow> bool" where
  "tnum_is_aligned a sz = (if sz = 0 then True else (tvalue a OR tmask a) AND (sz - 1) = 0)"

definition tnum_in :: "tnum \<Rightarrow> tnum \<Rightarrow> bool" where
  "tnum_in a b =
     (if tmask b AND NOT (tmask a) \<noteq> 0 then False else tvalue a = tvalue b AND NOT (tmask a))"

definition tnum_is_const :: "tnum \<Rightarrow> bool" where "tnum_is_const a \<longleftrightarrow> tmask a = 0"

definition tnum_equals_const :: "tnum \<Rightarrow> u64 \<Rightarrow> bool" where
  "tnum_equals_const a b \<longleftrightarrow> tnum_is_const a \<and> tvalue a = b"

definition tnum_is_unknown :: "tnum \<Rightarrow> bool" where "tnum_is_unknown a \<longleftrightarrow> NOT (tmask a) = 0"

definition tnum_subreg :: "tnum \<Rightarrow> tnum" where "tnum_subreg a = tnum_cast a 4"

definition tnum_clear_subreg :: "tnum \<Rightarrow> tnum" where
  "tnum_clear_subreg a = tnum_lshift (tnum_rshift a 32) 32"

definition tnum_const_subreg :: "tnum \<Rightarrow> u32 \<Rightarrow> tnum" where
  "tnum_const_subreg a v = tnum_or (tnum_clear_subreg a) (tnum_const (ucast v))"

definition tnum_subreg_is_const :: "tnum \<Rightarrow> bool" where
  "tnum_subreg_is_const a \<longleftrightarrow> tmask (tnum_subreg a) = 0"

text \<open>\<open>tnum_sbin\<close>: the loop from n down to 1 and the terminating NUL.\<close>

fun sbin_loop :: "nat \<Rightarrow> nat \<Rightarrow> u64 \<Rightarrow> u64 \<Rightarrow> string \<Rightarrow> string" where
  "sbin_loop 0 sz m v str = str"
| "sbin_loop (Suc n) sz m v str =
     sbin_loop n sz (drop_bit 1 m) (drop_bit 1 v)
       (if Suc n < sz
        then str[n := (if m AND 1 \<noteq> 0 then CHR ''x'' else if v AND 1 \<noteq> 0 then CHR ''1'' else CHR ''0'')]
        else str)"

definition tnum_sbin :: "string \<Rightarrow> u64 \<Rightarrow> tnum \<Rightarrow> string \<times> int" where
  "tnum_sbin str sz a =
     ((sbin_loop 64 (unat sz) (tmask a) (tvalue a) str)[unat (min (sz - 1) 64) := CHR 0x00], 64)"

section \<open>The set a tnum stands for\<close>

definition tnum_mem :: "u64 \<Rightarrow> tnum \<Rightarrow> bool" where
  "tnum_mem x a \<longleftrightarrow> x AND NOT (tmask a) = tvalue a"

definition tnum_wf :: "tnum \<Rightarrow> bool" where
  "tnum_wf a \<longleftrightarrow> tvalue a AND tmask a = 0"

lemma TNUM_sel [simp]: "tvalue (TNUM v m) = v" "tmask (TNUM v m) = m"
  by (simp_all add: TNUM_def)

lemma tnum_mem_bits:
  "tnum_mem x a \<longleftrightarrow> (\<forall>n < 64. bit (tvalue a) n = (bit x n \<and> \<not> bit (tmask a) n))"
  by (auto simp: tnum_mem_def word_bits_iff bit_simps)

lemma tnum_wf_bits: "tnum_wf a \<longleftrightarrow> (\<forall>n < 64. \<not> (bit (tvalue a) n \<and> bit (tmask a) n))"
  by (auto simp: tnum_wf_def word_bits_iff bit_simps)

lemma tnum_mem_wf: "tnum_mem x a \<Longrightarrow> tnum_wf a"
  by (auto simp: tnum_mem_bits tnum_wf_bits)

lemma tnum_mem_value: "tnum_wf a \<Longrightarrow> tnum_mem (tvalue a) a"
  by (auto simp: tnum_mem_bits tnum_wf_bits)

lemma tnum_mem_max: "tnum_wf a \<Longrightarrow> tnum_mem (tvalue a OR tmask a) a"
  by (auto simp: tnum_mem_bits tnum_wf_bits bit_simps)

section \<open>Carries and borrows\<close>

lemma int_bit_add:
  fixes a b :: int
  shows "bit (a + b) n \<longleftrightarrow> (bit a n \<noteq> bit b n) \<noteq> (2 ^ n \<le> take_bit n a + take_bit n b)"
proof -
  let ?l = "take_bit n a + take_bit n b"
  have r: "0 \<le> ?l" "?l < 2 * 2 ^ n"
    using take_bit_int_less_exp [of n a] take_bit_int_less_exp [of n b] by (simp, linarith)
  have "(a + b) div 2 ^ n = a div 2 ^ n + b div 2 ^ n + ?l div 2 ^ n"
    by (simp add: div_add1_eq [of a b] take_bit_eq_mod)
  moreover have "?l div 2 ^ n = of_bool (2 ^ n \<le> ?l)"
    using r by (auto simp: div_pos_pos_trivial intro: int_div_pos_eq [of _ _ _ "?l - 2 ^ n"])
  ultimately show ?thesis by (simp add: bit_iff_odd) blast
qed

lemma int_bit_diff:
  fixes a b :: int
  shows "bit (a - b) n \<longleftrightarrow> (bit a n \<noteq> bit b n) \<noteq> (take_bit n a < take_bit n b)"
proof -
  have "bit a n \<longleftrightarrow> (bit (a - b) n \<noteq> bit b n) \<noteq> (2 ^ n \<le> take_bit n (a - b) + take_bit n b)"
    using int_bit_add [of "a - b" b n] by simp
  moreover have "2 ^ n \<le> take_bit n (a - b) + take_bit n b \<longleftrightarrow> take_bit n a < take_bit n b"
  proof -
    have ra: "0 \<le> take_bit n a" "take_bit n a < 2 ^ n" and rb: "0 \<le> take_bit n b" "take_bit n b < 2 ^ n"
      by simp_all
    have "take_bit n (a - b) = (take_bit n a - take_bit n b) mod 2 ^ n"
      by (simp add: take_bit_eq_mod mod_diff_eq)
    also have "\<dots> = take_bit n a - take_bit n b + (if take_bit n a < take_bit n b then 2 ^ n else 0)"
    proof (cases "take_bit n a < take_bit n b")
      case True
      have "(take_bit n a - take_bit n b) mod 2 ^ n = (take_bit n a - take_bit n b + 2 ^ n) mod 2 ^ n" by simp
      also have "\<dots> = take_bit n a - take_bit n b + 2 ^ n"
        using True ra rb by (intro mod_pos_pos_trivial) linarith+
      finally show ?thesis using True by simp
    next
      case False
      then have "(take_bit n a - take_bit n b) mod 2 ^ n = take_bit n a - take_bit n b"
        using ra rb by (intro mod_pos_pos_trivial) linarith+
      then show ?thesis using False by simp
    qed
    finally have e: "take_bit n (a - b) = take_bit n a - take_bit n b + (if take_bit n a < take_bit n b then 2 ^ n else 0)" .
    show ?thesis
    proof (cases "take_bit n a < take_bit n b")
      case True
      then show ?thesis using ra(1) by (simp add: e)
    next
      case False
      then show ?thesis using ra(2) by (simp add: e not_le)
    qed
  qed
  ultimately show ?thesis by blast
qed

text \<open>Lower parts of words, as integers.\<close>

definition low_part :: "nat \<Rightarrow> u64 \<Rightarrow> int" where
  "low_part n w = take_bit n (uint w)"

lemma word_bit_add:
  assumes "n < 64"
  shows "bit (p + q :: u64) n \<longleftrightarrow> (bit p n \<noteq> bit q n) \<noteq> (2 ^ n \<le> low_part n p + low_part n q)"
proof -
  have "p + q = word_of_int (uint p + uint q)" by simp
  then have "bit (p + q) n = bit (uint p + uint q) n" using assms by (simp only: bit_word_of_int_iff) simp
  then show ?thesis
    unfolding low_part_def int_bit_add using assms by (simp add: bit_uint_iff)
qed

lemma word_bit_diff:
  assumes "n < 64"
  shows "bit (p - q :: u64) n \<longleftrightarrow> (bit p n \<noteq> bit q n) \<noteq> (low_part n p < low_part n q)"
proof -
  have "p - q = word_of_int (uint p - uint q)" by simp
  then have "bit (p - q) n = bit (uint p - uint q) n" using assms by (simp only: bit_word_of_int_iff) simp
  then show ?thesis
    unfolding low_part_def int_bit_diff using assms by (simp add: bit_uint_iff)
qed

lemma low_part_and: "low_part n (x AND m) \<le> low_part n x"
  by (simp add: low_part_def unsigned_and_eq AND_upper1)

lemma low_part_or: "low_part n x \<le> low_part n (x OR m)"
proof -
  have "(x OR m) AND x = x" by (auto simp: word_bits_iff bit_simps)
  then show ?thesis using low_part_and [of n "x OR m" x] by simp
qed

lemma tnum_mem_low:
  assumes "tnum_mem x a"
  shows "low_part n (tvalue a) \<le> low_part n x" "low_part n x \<le> low_part n (tvalue a OR tmask a)"
proof -
  have "tvalue a = x AND NOT (tmask a)" using assms by (simp add: tnum_mem_def)
  then show "low_part n (tvalue a) \<le> low_part n x" by (simp add: low_part_and)
  have "tvalue a OR tmask a = x OR tmask a"
    using assms by (auto simp: tnum_mem_bits word_bits_iff bit_simps)
  then show "low_part n x \<le> low_part n (tvalue a OR tmask a)" by (simp add: low_part_or)
qed

lemma tnum_wf_sum: "tnum_wf a \<Longrightarrow> tvalue a + tmask a = tvalue a OR tmask a"
proof (rule disjunctive_add)
  fix n assume "tnum_wf a"
  then show "\<not> bit (tvalue a) n \<or> \<not> bit (tmask a) n"
    using bit_imp_le_length [of "tvalue a" n] by (auto simp: tnum_wf_bits)
qed

section \<open>Soundness of the operations\<close>

text \<open>
  What the verifier relies on: an abstract operation contains the result of the machine
  operation on all members of its arguments.
\<close>

locale tnum_op =
  fixes abs :: "tnum \<Rightarrow> tnum \<Rightarrow> tnum" and conc :: "u64 \<Rightarrow> u64 \<Rightarrow> u64"
  assumes sound: "tnum_mem x a \<Longrightarrow> tnum_mem y b \<Longrightarrow> tnum_mem (conc x y) (abs a b)"
begin

lemma wf_result: "tnum_wf a \<Longrightarrow> tnum_wf b \<Longrightarrow> tnum_wf (abs a b)"
  using sound [OF tnum_mem_value tnum_mem_value] by (blast intro: tnum_mem_wf)

lemma const_result: "tnum_mem (conc x y) (abs (tnum_const x) (tnum_const y))"
  by (rule sound) (simp_all add: tnum_mem_def tnum_const_def)

lemma known_result: "tnum_mem x a \<Longrightarrow> tnum_mem y b \<Longrightarrow> tnum_is_const (abs a b) \<Longrightarrow> conc x y = tvalue (abs a b)"
  using sound [of x a y b] by (simp add: tnum_mem_def tnum_is_const_def)

end

lemma tnum_memI:
  assumes "\<And>n. n < 64 \<Longrightarrow> \<not> bit m n \<Longrightarrow> bit z n = bit v n"
  shows "tnum_mem z (TNUM (v AND NOT m) m)"
  using assms by (auto simp: tnum_mem_bits bit_simps)

lemma tnum_add_sound:
  assumes x: "tnum_mem x a" and y: "tnum_mem y b"
  shows "tnum_mem (x + y) (tnum_add a b)"
  unfolding tnum_add_def Let_def
proof (rule tnum_memI)
  let ?A = "tvalue a OR tmask a" and ?B = "tvalue b OR tmask b"
  let ?C = "\<lambda>n p q. (2 :: int) ^ n \<le> low_part n p + low_part n q"
  have s: "tmask a + tmask b + (tvalue a + tvalue b) = ?A + ?B"
    using tnum_wf_sum [OF tnum_mem_wf [OF x]] tnum_wf_sum [OF tnum_mem_wf [OF y]] by (simp add: ac_simps)
  fix n assume n: "n < 64"
    and "\<not> bit ((tmask a + tmask b + (tvalue a + tvalue b) XOR (tvalue a + tvalue b)) OR tmask a OR tmask b) n"
  then have m: "\<not> bit (tmask a) n" "\<not> bit (tmask b) n" and eq: "bit (?A + ?B) n = bit (tvalue a + tvalue b) n"
    unfolding s by (auto simp: bit_simps)
  have bx: "bit x n = bit (tvalue a) n" "bit y n = bit (tvalue b) n" "bit ?A n = bit (tvalue a) n" "bit ?B n = bit (tvalue b) n"
    using x y m n by (auto simp: tnum_mem_bits bit_simps)
  have "?C n ?A ?B = ?C n (tvalue a) (tvalue b)" using eq bx unfolding word_bit_add [OF n] by auto
  moreover have "?C n (tvalue a) (tvalue b) \<longrightarrow> ?C n x y" "?C n x y \<longrightarrow> ?C n ?A ?B"
    using tnum_mem_low [OF x, of n] tnum_mem_low [OF y, of n] by linarith+
  ultimately show "bit (x + y) n = bit (tvalue a + tvalue b) n"
    unfolding word_bit_add [OF n] using bx by auto
qed

lemma tnum_sub_sound:
  assumes x: "tnum_mem x a" and y: "tnum_mem y b"
  shows "tnum_mem (x - y) (tnum_sub a b)"
  unfolding tnum_sub_def Let_def
proof (rule tnum_memI)
  let ?A = "tvalue a OR tmask a" and ?B = "tvalue b OR tmask b"
  let ?C = "\<lambda>n p q. low_part n p < low_part n q"
  have s: "tvalue a - tvalue b + tmask a = ?A - tvalue b" "tvalue a - tvalue b - tmask b = tvalue a - ?B"
    unfolding tnum_wf_sum [OF tnum_mem_wf [OF x], symmetric] tnum_wf_sum [OF tnum_mem_wf [OF y], symmetric]
    by (simp_all only: diff_add_eq diff_diff_add)
  fix n assume n: "n < 64"
    and "\<not> bit ((tvalue a - tvalue b + tmask a XOR (tvalue a - tvalue b - tmask b)) OR tmask a OR tmask b) n"
  then have m: "\<not> bit (tmask a) n" "\<not> bit (tmask b) n" and eq: "bit (?A - tvalue b) n = bit (tvalue a - ?B) n"
    unfolding s by (auto simp: bit_simps)
  have bx: "bit x n = bit (tvalue a) n" "bit y n = bit (tvalue b) n" "bit ?A n = bit (tvalue a) n" "bit ?B n = bit (tvalue b) n"
    using x y m n by (auto simp: tnum_mem_bits bit_simps)
  have "?C n ?A (tvalue b) = ?C n (tvalue a) ?B" using eq unfolding word_bit_diff [OF n] bx by argo
  moreover have "?C n ?A (tvalue b) \<longrightarrow> ?C n x y" "?C n x y \<longrightarrow> ?C n (tvalue a) ?B"
    "?C n ?A (tvalue b) \<longrightarrow> ?C n (tvalue a) (tvalue b)" "?C n (tvalue a) (tvalue b) \<longrightarrow> ?C n (tvalue a) ?B"
    using tnum_mem_low [OF x, of n] tnum_mem_low [OF y, of n] by linarith+
  ultimately show "bit (x - y) n = bit (tvalue a - tvalue b) n"
    unfolding word_bit_diff [OF n] bx by argo
qed

lemma tnum_bitwise_sound:
  assumes "tnum_mem x a" "tnum_mem y b"
  shows "tnum_mem (x AND y) (tnum_and a b)" "tnum_mem (x OR y) (tnum_or a b)" "tnum_mem (x XOR y) (tnum_xor a b)"
  using assms by (auto simp: tnum_mem_bits tnum_and_def tnum_or_def tnum_xor_def Let_def bit_simps)

lemma tnum_mem_all: "tnum_mem x a \<longleftrightarrow> (\<forall>n. bit (tvalue a) n = (bit x n \<and> \<not> bit (tmask a) n))"
  unfolding tnum_mem_bits using bit_imp_le_length [where ?'a = 64] by auto

lemma tnum_shift_sound:
  assumes "tnum_mem x a"
  shows "tnum_mem (push_bit k x) (tnum_lshift a k)" "tnum_mem (drop_bit k x) (tnum_rshift a k)"
  using assms by (auto simp: tnum_mem_all tnum_lshift_def tnum_rshift_def bit_simps)

lemma tnum_arshift64_sound:
  assumes "tnum_mem x a" "bitness \<noteq> 32"
  shows "tnum_mem (signed_drop_bit k x) (tnum_arshift a k bitness)"
  using assms by (auto simp: tnum_mem_bits tnum_arshift_def bit_simps)

lemma tnum_arshift32_sound:
  assumes "tnum_mem x a"
  shows "tnum_mem (ucast (signed_drop_bit k (ucast x :: u32))) (tnum_arshift a k 32)"
  using assms by (auto simp: tnum_mem_bits tnum_arshift_def bit_simps)

lemma and_1_bit: "(w :: u64) AND 1 = of_bool (bit w 0)"
  by (auto simp: word_bits_iff bit_simps)

lemma and_1_halves: "(w :: u64) = 2 * drop_bit 1 w + (w AND 1)"
  by (metis add.commute and_one_eq drop_bit_eq_div mult.commute power_one_right mod_div_mult_eq)

lemma tnum_mem_split: "tnum_mem y b \<Longrightarrow> y - tvalue b = y AND tmask b"
proof -
  assume y: "tnum_mem y b"
  have "tvalue b + (y AND tmask b) = tvalue b OR (y AND tmask b)"
    using y by (intro disjunctive_add) (auto simp: tnum_mem_all bit_simps)
  also have "\<dots> = y" using y by (auto simp: tnum_mem_bits word_bits_iff bit_simps)
  finally show ?thesis by (simp add: algebra_simps)
qed

text \<open>One round of the loop adds the contribution of the lowest bit of the multiplier.\<close>

lemma tnum_mul_round:
  assumes x: "tnum_mem x a" and y: "tnum_mem y b" and r: "tnum_mem r acc"
  shows "tnum_mem (r + ((x AND 1) * y - (tvalue a AND 1) * tvalue b))
    (if tvalue a AND 1 \<noteq> 0 then tnum_add acc (TNUM 0 (tmask b))
     else if tmask a AND 1 \<noteq> 0 then tnum_add acc (TNUM 0 (tvalue b OR tmask b)) else acc)"
proof -
  have b0: "bit (tvalue a) 0 = (bit x 0 \<and> \<not> bit (tmask a) 0)" using x by (simp add: tnum_mem_all)
  have m1: "tnum_mem (y - tvalue b) (TNUM 0 (tmask b))"
    by (simp add: tnum_mem_split [OF y]) (auto simp: tnum_mem_bits bit_simps)
  have m2: "tnum_mem (of_bool c * y) (TNUM 0 (tvalue b OR tmask b))" for c
    using y by (cases c) (auto simp: tnum_mem_bits bit_simps)
  consider "bit (tvalue a) 0" | "\<not> bit (tvalue a) 0" "bit (tmask a) 0" | "\<not> bit (tvalue a) 0" "\<not> bit (tmask a) 0"
    by blast
  then show ?thesis
    by cases (use b0 r tnum_add_sound [OF r m1] tnum_add_sound [OF r m2] in \<open>simp_all add: and_1_bit\<close>)
qed

lemma tnum_mul_loop_sound:
  "tnum_mem x a \<Longrightarrow> tnum_mem y b \<Longrightarrow> tnum_mem r acc \<Longrightarrow>
   tnum_mem (r + (x * y - tvalue a * tvalue b)) (tnum_mul_loop a b acc)"
proof (induction a b acc arbitrary: x y r rule: tnum_mul_loop.induct)
  case (1 a b acc)
  show ?case
  proof (cases "tvalue a = 0 \<and> tmask a = 0")
    case True
    then have "x = 0" using 1(2) by (simp add: tnum_mem_def)
    then show ?thesis using True 1(4) by (simp add: tnum_mul_loop.simps [of a])
  next
    case False
    let ?acc = "if tvalue a AND 1 \<noteq> 0 then tnum_add acc (TNUM 0 (tmask b))
      else if tmask a AND 1 \<noteq> 0 then tnum_add acc (TNUM 0 (tvalue b OR tmask b)) else acc"
    let ?e = "(x AND 1) * y - (tvalue a AND 1) * tvalue b"
    have loop: "tnum_mul_loop a b acc = tnum_mul_loop (tnum_rshift a 1) (tnum_lshift b 1) ?acc"
      using False by (subst tnum_mul_loop.simps) (simp only: Let_def if_False)
    have "tnum_mem (drop_bit 1 x) (tnum_rshift a 1)" "tnum_mem (push_bit 1 y) (tnum_lshift b 1)"
      using 1(2,3) tnum_shift_sound by blast+
    from 1(1) [OF False refl this tnum_mul_round [OF 1(2-4)]]
    have "tnum_mem (r + ?e + (drop_bit 1 x * push_bit 1 y - drop_bit 1 (tvalue a) * push_bit 1 (tvalue b)))
        (tnum_mul_loop a b acc)"
      unfolding loop by (simp only: tnum_rshift_def tnum_lshift_def TNUM_sel)
    moreover have "r + ?e + (drop_bit 1 x * push_bit 1 y - drop_bit 1 (tvalue a) * push_bit 1 (tvalue b)) =
        r + (x * y - tvalue a * tvalue b)"
      by (subst (3) and_1_halves [of x], subst (3) and_1_halves [of "tvalue a"])
        (simp add: push_bit_eq_mult algebra_simps)
    ultimately show ?thesis by (simp only:)
  qed
qed

lemma tnum_mul_sound: "tnum_mem x a \<Longrightarrow> tnum_mem y b \<Longrightarrow> tnum_mem (x * y) (tnum_mul a b)"
proof -
  assume x: "tnum_mem x a" and y: "tnum_mem y b"
  have "tnum_mem (0 + (x * y - tvalue a * tvalue b)) (tnum_mul_loop a b (TNUM 0 0))"
    by (rule tnum_mul_loop_sound [OF x y]) (simp add: tnum_mem_def)
  from tnum_add_sound [OF _ this, of "tvalue a * tvalue b" "TNUM (tvalue a * tvalue b) 0"]
  show ?thesis by (simp add: tnum_mul_def Let_def tnum_mem_def)
qed

interpretation tadd: tnum_op tnum_add "(+)" by unfold_locales (rule tnum_add_sound)
interpretation tsub: tnum_op tnum_sub "(-)" by unfold_locales (rule tnum_sub_sound)
interpretation tmul: tnum_op tnum_mul "(*)" by unfold_locales (rule tnum_mul_sound)
interpretation tand: tnum_op tnum_and "(AND)" by unfold_locales (rule tnum_bitwise_sound(1))
interpretation tor: tnum_op tnum_or "(OR)" by unfold_locales (rule tnum_bitwise_sound(2))
interpretation txor: tnum_op tnum_xor "(XOR)" by unfold_locales (rule tnum_bitwise_sound(3))

section \<open>Ranges, intersection, inclusion, casts\<close>






lemma tnum_in_iff:
  assumes "tnum_wf a" "tnum_wf b"
  shows "tnum_in a b \<longleftrightarrow> (\<forall>x. tnum_mem x b \<longrightarrow> tnum_mem x a)"
proof
  assume "tnum_in a b"
  then have "tmask b AND NOT (tmask a) = 0" "tvalue a = tvalue b AND NOT (tmask a)"
    by (simp_all add: tnum_in_def split: if_splits)
  then show "\<forall>x. tnum_mem x b \<longrightarrow> tnum_mem x a"
    by (auto simp: tnum_mem_bits word_bits_iff bit_simps)
next
  assume sub: "\<forall>x. tnum_mem x b \<longrightarrow> tnum_mem x a"
  then have "tnum_mem (tvalue b) a" "tnum_mem (tvalue b OR tmask b) a"
    using assms(2) tnum_mem_value tnum_mem_max by blast+
  then have v: "\<forall>n<64. bit (tvalue a) n = (bit (tvalue b) n \<and> \<not> bit (tmask a) n)"
    and vm: "\<forall>n<64. bit (tvalue a) n = ((bit (tvalue b) n \<or> bit (tmask b) n) \<and> \<not> bit (tmask a) n)"
    by (simp_all add: tnum_mem_bits bit_simps)
  have "tmask b AND NOT (tmask a) = 0"
    using v vm assms(2) unfolding tnum_wf_bits by (auto simp: word_bits_iff bit_simps)
  moreover have "tvalue a = tvalue b AND NOT (tmask a)" using v by (auto simp: word_bits_iff bit_simps)
  ultimately show "tnum_in a b" by (simp add: tnum_in_def)
qed

lemma tnum_aligned_sound:
  assumes "tnum_is_aligned a (2 ^ k)" "tnum_mem x a" "k < 64"
  shows "take_bit k x = 0"
proof -
  have "(tvalue a OR tmask a) AND mask k = 0"
    using assms(1,3) by (simp add: tnum_is_aligned_def mask_eq_exp_minus_1 split: if_splits)
  then show ?thesis using assms(2) by (auto simp: tnum_mem_bits word_bits_iff bit_simps)
qed

lemma tnum_cast_sound:
  assumes "tnum_mem x a" "sz < 8"
  shows "tnum_mem (take_bit (8 * sz) x) (tnum_cast a sz)"
  using assms by (auto simp: tnum_mem_bits tnum_cast_def mult.commute bit_simps simp flip: mask_eq_exp_minus_1)

lemma tnum_subreg_sound: "tnum_mem x a \<Longrightarrow> tnum_mem (take_bit 32 x) (tnum_subreg a)"
  using tnum_cast_sound [of x a 4] by (simp add: tnum_subreg_def)


section \<open>Printing\<close>

definition tnum_digit :: "u64 \<Rightarrow> u64 \<Rightarrow> nat \<Rightarrow> char" where
  "tnum_digit m v k = (if bit m k then CHR ''x'' else if bit v k then CHR ''1'' else CHR ''0'')"

lemma sbin_loop_nth:
  "length str = length (sbin_loop n sz m v str) \<and>
   (i < length str \<longrightarrow> sbin_loop n sz m v str ! i =
      (if i < n \<and> Suc i < sz then tnum_digit m v (n - 1 - i) else str ! i))"
proof (induction n arbitrary: m v str)
  case (Suc n)
  have d: "tnum_digit (drop_bit 1 m) (drop_bit 1 v) k = tnum_digit m v (Suc k)" for k
    by (simp add: tnum_digit_def bit_simps)
  have h: "(if m AND 1 \<noteq> 0 then CHR ''x'' else if v AND 1 \<noteq> 0 then CHR ''1'' else CHR ''0'') = tnum_digit m v 0"
    by (simp add: tnum_digit_def and_1_bit)
  let ?str = "if Suc n < sz then str[n := tnum_digit m v 0] else str"
  have ih: "length ?str = length (sbin_loop n sz (drop_bit 1 m) (drop_bit 1 v) ?str) \<and>
     (i < length ?str \<longrightarrow> sbin_loop n sz (drop_bit 1 m) (drop_bit 1 v) ?str ! i =
      (if i < n \<and> Suc i < sz then tnum_digit (drop_bit 1 m) (drop_bit 1 v) (n - 1 - i) else ?str ! i))"
    by (rule Suc.IH)
  have l: "length ?str = length str" by simp
  have e: "?str ! i = (if i = n \<and> Suc i < sz then tnum_digit m v 0 else str ! i)" if "i < length str"
    using that by (simp add: nth_list_update)
  show ?case
    unfolding sbin_loop.simps h
  proof (intro conjI impI)
    show "length str = length (sbin_loop n sz (drop_bit 1 m) (drop_bit 1 v) ?str)" using ih l by simp
    assume i: "i < length str"
    have "sbin_loop n sz (drop_bit 1 m) (drop_bit 1 v) ?str ! i =
        (if i < n \<and> Suc i < sz then tnum_digit m v (Suc (n - 1 - i)) else ?str ! i)"
      using ih i l unfolding d by argo
    also have "\<dots> = (if i < Suc n \<and> Suc i < sz then tnum_digit m v (Suc n - 1 - i) else str ! i)"
      unfolding e [OF i] by (cases "i < n"; cases "i = n") (auto simp: Suc_diff_Suc)
    finally show "sbin_loop n sz (drop_bit 1 m) (drop_bit 1 v) ?str ! i =
        (if i < Suc n \<and> Suc i < sz then tnum_digit m v (Suc n - 1 - i) else str ! i)" .
  qed
qed simp

section \<open>Properties\<close>

text \<open>C27: whenever x and y are among the numbers the tnums a and b stand for, the 64-bit sum,
  difference, product, conjunction, disjunction and exclusive or of x and y are among those the
  results of \<open>tnum_add\<close>, \<open>tnum_sub\<close>, \<open>tnum_mul\<close>, \<open>tnum_and\<close>, \<open>tnum_or\<close> and \<open>tnum_xor\<close> stand for.\<close>

theorem tnum_arithmetic_sound:
  assumes "tnum_mem x a" "tnum_mem y b"
  shows "tnum_mem (x + y) (tnum_add a b) \<and> tnum_mem (x - y) (tnum_sub a b) \<and>
    tnum_mem (x * y) (tnum_mul a b) \<and> tnum_mem (x AND y) (tnum_and a b) \<and>
    tnum_mem (x OR y) (tnum_or a b) \<and> tnum_mem (x XOR y) (tnum_xor a b)"
  using tadd.sound tsub.sound tmul.sound tand.sound tor.sound txor.sound assms by simp

theorem tnum_arithmetic_sound_witness:
  "tnum_mem (9 * 5) (tnum_mul (TNUM 8 3) (TNUM 5 0)) \<and> tnum_mem (9 + 5) (tnum_add (TNUM 8 3) (TNUM 5 0))"
  using tnum_arithmetic_sound [of 9 "TNUM 8 3" 5 "TNUM 5 0"] by (simp add: tnum_mem_def)



text \<open>C29: \<open>tnum_in\<close> decides exactly whether every number b stands for is one a stands for, and a tnum
  that \<open>tnum_is_aligned\<close> accepts for a power of two stands for multiples of it only.\<close>

theorem tnum_in_exact:
  assumes "tnum_wf a" "tnum_wf b"
  shows "(tnum_in a b \<longleftrightarrow> (\<forall>x. tnum_mem x b \<longrightarrow> tnum_mem x a)) \<and>
    (k < 64 \<and> tnum_is_aligned a (2 ^ k) \<longrightarrow> (\<forall>x. tnum_mem x a \<longrightarrow> take_bit k x = 0))"
  using tnum_in_iff [OF assms] tnum_aligned_sound by blast

theorem tnum_in_exact_witness: "tnum_in (TNUM 8 7) (TNUM 9 2) \<and> (tnum_mem 11 (TNUM 8 7))"
  using tnum_in_exact [of "TNUM 8 7" "TNUM 9 2" 0] by (simp add: tnum_wf_def tnum_in_def tnum_mem_def)

text \<open>C34: every operation gives a well-formed number, one in which no bit is both known to be set and unknown, when
  its arguments are well formed.\<close>

theorem tnum_operations_well_formed:
  assumes "tnum_wf a" "tnum_wf b"
  shows "tnum_wf (tnum_add a b) \<and> tnum_wf (tnum_sub a b) \<and> tnum_wf (tnum_mul a b) \<and> tnum_wf (tnum_and a b) \<and>
    tnum_wf (tnum_or a b) \<and> tnum_wf (tnum_xor a b) \<and> tnum_wf (tnum_intersect a b) \<and> tnum_wf (tnum_const v) \<and>
    tnum_wf (tnum_range lo hi) \<and> tnum_wf (tnum_lshift a k) \<and> tnum_wf (tnum_rshift a k) \<and>
    tnum_wf (tnum_arshift a k bitness) \<and> tnum_wf (tnum_cast a sz) \<and> tnum_wf (tnum_subreg a) \<and>
    tnum_wf (tnum_clear_subreg a) \<and> tnum_wf (tnum_const_subreg a w)"
proof (intro conjI)
  show "tnum_wf (tnum_add a b)" by (rule tadd.wf_result [OF assms])
  show "tnum_wf (tnum_sub a b)" by (rule tsub.wf_result [OF assms])
  show "tnum_wf (tnum_mul a b)" by (rule tmul.wf_result [OF assms])
  show "tnum_wf (tnum_and a b)" by (rule tand.wf_result [OF assms])
  show "tnum_wf (tnum_or a b)" by (rule tor.wf_result [OF assms])
  show "tnum_wf (tnum_xor a b)" by (rule txor.wf_result [OF assms])
  show "tnum_wf (tnum_intersect a b)" by (auto simp: tnum_wf_bits tnum_intersect_def Let_def bit_simps)
  show "tnum_wf (tnum_const v)" by (simp add: tnum_wf_def tnum_const_def)
  show "tnum_wf (tnum_range lo hi)" by (auto simp: tnum_wf_bits tnum_range_def tnum_unknown_def Let_def bit_simps)
  note m = tnum_mem_value [OF assms(1)]
  show "tnum_wf (tnum_lshift a k)" by (rule tnum_mem_wf [OF tnum_shift_sound(1) [OF m]])
  show "tnum_wf (tnum_rshift a k)" by (rule tnum_mem_wf [OF tnum_shift_sound(2) [OF m]])
  show "tnum_wf (tnum_arshift a k bitness)"
    using tnum_arshift32_sound [OF m] tnum_arshift64_sound [OF m]
    by (cases "bitness = 32") (auto intro: tnum_mem_wf)
  show ca: "tnum_wf (tnum_cast a sz)" for sz using assms(1) by (auto simp: tnum_wf_bits tnum_cast_def bit_simps)
  show "tnum_wf (tnum_subreg a)" unfolding tnum_subreg_def by (rule ca)
  show cl: "tnum_wf (tnum_clear_subreg a)"
    unfolding tnum_clear_subreg_def by (rule tnum_mem_wf [OF tnum_shift_sound(1) [OF tnum_shift_sound(2) [OF m]]])
  show "tnum_wf (tnum_const_subreg a w)"
    unfolding tnum_const_subreg_def by (rule tor.wf_result [OF cl]) (simp add: tnum_wf_def tnum_const_def)
qed

theorem tnum_operations_well_formed_witness: "tnum_wf (tnum_mul (TNUM 8 3) (TNUM 5 2))"
  using tnum_operations_well_formed [of "TNUM 8 3" "TNUM 5 2"] by (simp add: tnum_wf_def)

text \<open>\<open>tnum_sbin\<close> writes the digit of bit 63 - i at position i for every position that fits,
  a NUL at position 64 or at the end of a shorter buffer, and leaves the rest of the buffer alone.\<close>

theorem tnum_sbin_output:
  assumes "0 < sz" "unat sz \<le> length str" "i < length str"
  shows "fst (tnum_sbin str sz a) ! i =
    (if i = min (unat sz - 1) 64 then CHR 0x00
     else if i < 64 \<and> Suc i < unat sz then tnum_digit (tmask a) (tvalue a) (63 - i) else str ! i) \<and>
    snd (tnum_sbin str sz a) = 64"
proof -
  have "sz \<noteq> 0" using assms(1) by auto
  have p: "unat (min (sz - 1) 64) = min (unat sz - 1) 64"
    using unat_pred [OF \<open>sz \<noteq> 0\<close>] by (auto simp: min_def word_le_nat_alt)
  let ?s = "sbin_loop 64 (unat sz) (tmask a) (tvalue a) str"
  have l: "length ?s = length str" and n: "?s ! i = (if i < 64 \<and> Suc i < unat sz then tnum_digit (tmask a) (tvalue a) (64 - 1 - i) else str ! i)"
    using sbin_loop_nth [of str 64 "unat sz" "tmask a" "tvalue a" i] assms(3) by simp_all
  then show ?thesis
    using assms(3) by (simp add: tnum_sbin_def p nth_list_update)
qed

theorem tnum_sbin_output_witness:
  "fst (tnum_sbin (replicate 70 CHR ''?'') 70 (TNUM 8 3)) ! 63 = CHR ''x'' \<and>
   fst (tnum_sbin (replicate 70 CHR ''?'') 70 (TNUM 8 3)) ! 60 = CHR ''1''"
  using tnum_sbin_output [of 70 "replicate 70 CHR ''?''" 63 "TNUM 8 3"]
    tnum_sbin_output [of 70 "replicate 70 CHR ''?''" 60 "TNUM 8 3"]
  by (simp add: tnum_digit_def)

end
