(* ===== verification/Cgroup_Charge.thy ===== *)
theory Cgroup_Charge
  imports Prelude
begin

text \<open>
  The cgroup tree and counters charged along a path to its root. A cgroup is the list of child
  numbers from itself up to the root, so the root is the empty list and the parent of a cgroup
  is the tail of the list. The locale \<open>path_counter\<close> is what the controllers rely on: adding
  to one cgroup's counter changes that counter only.
\<close>

type_synonym cgroup = "nat list"

text \<open>A cgroup and its ancestors, without the root and with it.\<close>

fun nonroot_path :: "cgroup \<Rightarrow> cgroup list" where
  "nonroot_path [] = []"
| "nonroot_path (i # p) = (i # p) # nonroot_path p"

fun full_path :: "cgroup \<Rightarrow> cgroup list" where
  "full_path [] = [[]]"
| "full_path (i # p) = (i # p) # full_path p"

lemma nonroot_path_length: "g \<in> set (nonroot_path c) \<Longrightarrow> 0 < length g \<and> length g \<le> length c"
  by (induction c) auto

lemma full_path_length: "g \<in> set (full_path c) \<Longrightarrow> length g \<le> length c"
  by (induction c) auto

lemma distinct_nonroot_path [simp]: "distinct (nonroot_path c)"
  by (induction c) (auto dest: nonroot_path_length)

lemma distinct_full_path [simp]: "distinct (full_path c)"
  by (induction c) (auto dest: full_path_length)

lemma full_path_self: "c \<in> set (full_path c)" "[] \<in> set (full_path c)"
  by (induction c) auto

lemma nonroot_path_self: "c \<noteq> [] \<Longrightarrow> c \<in> set (nonroot_path c)"
  by (cases c) auto

lemma nonroot_path_trans: "g \<in> set (nonroot_path c) \<Longrightarrow> h \<in> set (nonroot_path g) \<Longrightarrow> h \<in> set (nonroot_path c)"
  by (induction c) auto

locale path_counter =
  fixes add :: "'n::ab_group_add \<Rightarrow> 'g \<Rightarrow> 's \<Rightarrow> 's" and usage :: "'s \<Rightarrow> 'g \<Rightarrow> 'n"
  assumes usage_after_add: "usage (add n g s) h = usage s h + (if g = h then n else 0)"
begin

lemma usage_fold:
  "distinct gs \<Longrightarrow> usage (fold (add n) gs s) h = usage s h + (if h \<in> set gs then n else 0)"
  by (induction gs arbitrary: s) (auto simp: usage_after_add)

lemma usage_fold_cancel:
  "distinct gs \<Longrightarrow> usage (fold (add (- n)) gs (fold (add n) gs s)) = usage s"
  by (rule ext) (simp add: usage_fold)

end

end
