(* ===== verification/Pids.thy ===== *)
theory Pids
  imports Cgroup_Charge
begin

text \<open>
  The pids controller (kernel/cgroup/pids.c): per-cgroup process counters charged up to, not
  including, the root. The counters are 64 bit and bounded by the number of tasks, so they are
  integers here. Logging and the event files are not modelled.
\<close>

section \<open>State and operations\<close>

definition PIDS_MAX :: int where "PIDS_MAX = 4 * 1024 * 1024 + 1"

record pids_cgroup =
  counter :: int
  limit :: int
  watermark :: int
  events_limit :: int

type_synonym pids_state = "cgroup \<Rightarrow> pids_cgroup"

definition pids_css_alloc :: pids_cgroup where
  "pids_css_alloc = \<lparr>counter = 0, limit = PIDS_MAX, watermark = 0, events_limit = 0\<rparr>"

definition pids_update_watermark :: "cgroup \<Rightarrow> int \<Rightarrow> pids_state \<Rightarrow> pids_state" where
  "pids_update_watermark p nr st =
     (if nr > watermark (st p) then st(p := (st p)\<lparr>watermark := nr\<rparr>) else st)"

text \<open>\<open>atomic64_add_return\<close> on a counter; \<open>pids_cancel\<close> adds the negated number.\<close>

definition counter_add :: "int \<Rightarrow> cgroup \<Rightarrow> pids_state \<Rightarrow> pids_state" where
  "counter_add num p st = st(p := (st p)\<lparr>counter := counter (st p) + num\<rparr>)"

definition pids_cancel :: "int \<Rightarrow> cgroup \<Rightarrow> pids_state \<Rightarrow> pids_state" where
  "pids_cancel num p st = counter_add (- num) p st"

definition pids_uncharge :: "cgroup \<Rightarrow> int \<Rightarrow> pids_state \<Rightarrow> pids_state" where
  "pids_uncharge pids num st = fold (pids_cancel num) (nonroot_path pids) st"

definition charge_one :: "int \<Rightarrow> cgroup \<Rightarrow> pids_state \<Rightarrow> pids_state" where
  "charge_one num p st =
     (let st1 = counter_add num p st in pids_update_watermark p (counter (st1 p)) st1)"

definition pids_charge :: "cgroup \<Rightarrow> int \<Rightarrow> pids_state \<Rightarrow> pids_state" where
  "pids_charge pids num st = fold (charge_one num) (nonroot_path pids) st"

text \<open>The loop of \<open>pids_try_charge\<close>: the cgroup at which the limit was exceeded, if any.\<close>

fun try_loop :: "int \<Rightarrow> cgroup list \<Rightarrow> pids_state \<Rightarrow> pids_state \<times> cgroup option" where
  "try_loop num [] st = (st, None)"
| "try_loop num (p # ps) st =
     (let st1 = counter_add num p st; new = counter (st1 p) in
      if new > limit (st1 p) then (st1, Some p)
      else try_loop num ps (pids_update_watermark p new st1))"

definition pids_try_charge :: "cgroup \<Rightarrow> int \<Rightarrow> pids_state \<Rightarrow> int \<times> pids_state" where
  "pids_try_charge pids num st =
     (case try_loop num (nonroot_path pids) st of
        (st', None) \<Rightarrow> (0, st')
      | (st', Some p) \<Rightarrow>
          (- EAGAIN, pids_cancel num p
             (fold (pids_cancel num) (takeWhile (\<lambda>q. q \<noteq> p) (nonroot_path pids)) st')))"

text \<open>A task set is a list of pairs: the task's current cgroup and its destination.\<close>

fun pids_can_attach :: "(cgroup \<times> cgroup) list \<Rightarrow> pids_state \<Rightarrow> int \<times> pids_state" where
  "pids_can_attach [] st = (0, st)"
| "pids_can_attach ((old, dst) # ts) st = pids_can_attach ts (pids_uncharge old 1 (pids_charge dst 1 st))"

fun pids_cancel_attach :: "(cgroup \<times> cgroup) list \<Rightarrow> pids_state \<Rightarrow> pids_state" where
  "pids_cancel_attach [] st = st"
| "pids_cancel_attach ((old, dst) # ts) st =
     pids_cancel_attach ts (pids_uncharge dst 1 (pids_charge old 1 st))"

definition pids_can_fork :: "cgroup \<Rightarrow> pids_state \<Rightarrow> int \<times> pids_state" where
  "pids_can_fork css st =
     (case pids_try_charge css 1 st of (err, st') \<Rightarrow>
        if err \<noteq> 0 then (err, st'(css := (st' css)\<lparr>events_limit := events_limit (st' css) + 1\<rparr>))
        else (err, st'))"

definition pids_cancel_fork :: "cgroup \<Rightarrow> pids_state \<Rightarrow> pids_state" where
  "pids_cancel_fork css st = pids_uncharge css 1 st"

definition pids_release :: "cgroup \<Rightarrow> pids_state \<Rightarrow> pids_state" where
  "pids_release css st = pids_uncharge css 1 st"

text \<open>
  \<open>pids_max_write\<close> on the stripped text; \<open>kstrtoll\<close> is a parameter (an error code or a value).
\<close>

definition pids_max_write ::
  "(string \<Rightarrow> int + int) \<Rightarrow> cgroup \<Rightarrow> string \<Rightarrow> int \<Rightarrow> pids_state \<Rightarrow> int \<times> pids_state" where
  "pids_max_write kstrtoll css buf nbytes st =
     (if buf = ''max'' then (nbytes, st(css := (st css)\<lparr>limit := PIDS_MAX\<rparr>))
      else case kstrtoll buf of
        Inl err \<Rightarrow> (err, st)
      | Inr l \<Rightarrow> if l < 0 \<or> l \<ge> PIDS_MAX then (- EINVAL, st)
          else (nbytes, st(css := (st css)\<lparr>limit := l\<rparr>)))"

definition pids_max_show :: "cgroup \<Rightarrow> pids_state \<Rightarrow> string + int" where
  "pids_max_show css st = (let l = limit (st css) in if l \<ge> PIDS_MAX then Inl ''max'' else Inr l)"

definition pids_current_read :: "cgroup \<Rightarrow> pids_state \<Rightarrow> int" where
  "pids_current_read css st = counter (st css)"

definition pids_peak_read :: "cgroup \<Rightarrow> pids_state \<Rightarrow> int" where
  "pids_peak_read css st = watermark (st css)"

section \<open>The counters under each operation\<close>

definition counters :: "pids_state \<Rightarrow> cgroup \<Rightarrow> int" where
  "counters st g = counter (st g)"

definition limits :: "pids_state \<Rightarrow> cgroup \<Rightarrow> int" where
  "limits st g = limit (st g)"

definition on_path :: "cgroup \<Rightarrow> cgroup \<Rightarrow> int" where
  "on_path c g = (if g \<in> set (nonroot_path c) then 1 else 0)"

lemma counters_watermark [simp]:
  "counters (pids_update_watermark p n st) = counters st" "limits (pids_update_watermark p n st) = limits st"
  by (auto simp: pids_update_watermark_def counters_def limits_def)

interpretation cancel: path_counter counter_add counters
  by unfold_locales (simp add: counter_add_def counters_def)


lemma limits_ops [simp]:
  "limits (counter_add n p st) = limits st" "limits (charge_one n p st) = limits st"
  "limits (pids_cancel n p st) = limits st"
  by (auto simp: counter_add_def charge_one_def pids_cancel_def Let_def limits_def pids_update_watermark_def)

lemma limits_fold [simp]:
  "limits (fold (pids_cancel n) gs st) = limits st" "limits (fold (charge_one n) gs st) = limits st"
  by (induction gs arbitrary: st) simp_all



lemma limit_counter_add [simp]: "limit (counter_add n p st g) = limit (st g)"
  by (simp add: counter_add_def)

lemma try_loop_counters:
  assumes "distinct ps" "try_loop n ps st = (st', r)"
  shows "limits st' = limits st \<and>
    (case r of
       None \<Rightarrow> (\<forall>p\<in>set ps. counters st p + n \<le> limits st p) \<and>
               (\<forall>g. counters st' g = counters st g + (if g \<in> set ps then n else 0))
     | Some p \<Rightarrow> p \<in> set ps \<and> limits st p < counters st p + n \<and>
               (\<forall>g. counters st' g = counters st g +
                  (if g = p \<or> g \<in> set (takeWhile (\<lambda>q. q \<noteq> p) ps) then n else 0)))"
  using assms
proof (induction ps arbitrary: st)
  case (Cons p ps)
  let ?st1 = "counter_add n p st"
  have c1: "counters ?st1 g = counters st g + (if p = g then n else 0)" for g by (rule cancel.usage_after_add)
  show ?case
  proof (cases "limits st p < counters st p + n")
    case True
    then have "st' = ?st1" "r = Some p"
      using Cons.prems(2) c1 [of p] by (auto simp: Let_def counters_def limits_def)
    then show ?thesis using True c1 by auto
  next
    case False
    let ?st2 = "pids_update_watermark p (counter (?st1 p)) ?st1"
    have "try_loop n ps ?st2 = (st', r)"
      using Cons.prems(2) False c1 [of p] by (auto simp: Let_def counters_def limits_def)
    note ih = Cons.IH [OF _ this]
    have np: "p \<notin> set ps" "distinct ps" using Cons.prems(1) by simp_all
    have same: "counters ?st2 q = counters st q" if "q \<in> set ps" for q
      using that np c1 [of q] by auto
    show ?thesis
    proof (cases r)
      case None
      then show ?thesis using ih np same False c1 by auto
    next
      case (Some q)
      then have q: "q \<in> set ps" "limits st q < counters st q + n" and
        st': "\<forall>g. counters st' g = counters ?st2 g + (if g = q \<or> g \<in> set (takeWhile (\<lambda>x. x \<noteq> q) ps) then n else 0)"
        using ih np same by auto
      have "p \<noteq> q" "p \<notin> set (takeWhile (\<lambda>x. x \<noteq> q) ps)" using np q by (auto dest: set_takeWhileD)
      then show ?thesis using Some ih np q st' c1 by auto
    qed
  qed
qed simp

lemma try_charge_ok:
  assumes "\<forall>p\<in>set (nonroot_path c). counters st p + n \<le> limits st p"
  shows "\<exists>st'. pids_try_charge c n st = (0, st') \<and> limits st' = limits st \<and>
    (\<forall>g. counters st' g = counters st g + n * on_path c g)"
proof -
  obtain st' r where l: "try_loop n (nonroot_path c) st = (st', r)" by force
  note t = try_loop_counters [OF distinct_nonroot_path l]
  have "r = None" using t assms by (auto split: option.splits)
  then show ?thesis using t by (auto simp: pids_try_charge_def l on_path_def)
qed

lemma try_charge_fail:
  assumes "\<not> (\<forall>p\<in>set (nonroot_path c). counters st p + n \<le> limits st p)"
  shows "\<exists>st'. pids_try_charge c n st = (- EAGAIN, st') \<and> limits st' = limits st \<and> counters st' = counters st"
proof -
  obtain st' r where l: "try_loop n (nonroot_path c) st = (st', r)" by force
  note t = try_loop_counters [OF distinct_nonroot_path l]
  obtain p where r: "r = Some p" using t assms by (auto split: option.splits)
  let ?ps = "takeWhile (\<lambda>q. q \<noteq> p) (nonroot_path c)"
  let ?st = "pids_cancel n p (fold (pids_cancel n) ?ps st')"
  have "p \<notin> set ?ps" by (auto dest: set_takeWhileD)
  then have "counters ?st g = counters st g" for g
    using t r by (auto simp: pids_cancel_def [abs_def] cancel.usage_after_add cancel.usage_fold)
  then have "counters ?st = counters st" by (rule ext)
  moreover have "limits ?st = limits st" using t by simp
  ultimately show ?thesis by (simp add: pids_try_charge_def l r)
qed

section \<open>Tasks and their cgroups\<close>

text \<open>
  The life of tasks as the fork, exit and migration paths drive the controller: a fork charges
  first and is then completed or cancelled, a migration charges the destinations first and is
  then committed or cancelled. A set of migrating tasks has no task twice.
\<close>

record pids_sys =
  ps_state :: pids_state
  ps_tasks :: "nat \<rightharpoonup> cgroup"
  ps_forking :: "cgroup list"

datatype pids_event =
    Fork cgroup | Fork_done nat cgroup | Fork_cancel cgroup | Exit nat
  | Attach "(nat \<times> cgroup) list" bool | Set_limit cgroup int

definition taskset :: "(nat \<rightharpoonup> cgroup) \<Rightarrow> (nat \<times> cgroup) list \<Rightarrow> (cgroup \<times> cgroup) list" where
  "taskset tasks ts = map (\<lambda>(t, d). (the (tasks t), d)) ts"

definition move_tasks :: "(nat \<times> cgroup) list \<Rightarrow> (nat \<rightharpoonup> cgroup) \<Rightarrow> (nat \<rightharpoonup> cgroup)" where
  "move_tasks ts tasks = fold (\<lambda>(t, d) m. m(t \<mapsto> d)) ts tasks"

inductive pids_step :: "pids_sys \<Rightarrow> pids_event \<Rightarrow> pids_sys \<Rightarrow> bool" where
  fork_ok: "pids_can_fork c (ps_state s) = (0, st) \<Longrightarrow>
    pids_step s (Fork c) (s\<lparr>ps_state := st, ps_forking := c # ps_forking s\<rparr>)"
| fork_refused: "pids_can_fork c (ps_state s) = (e, st) \<Longrightarrow> e \<noteq> 0 \<Longrightarrow>
    pids_step s (Fork c) (s\<lparr>ps_state := st\<rparr>)"
| fork_done: "c \<in> set (ps_forking s) \<Longrightarrow> ps_tasks s t = None \<Longrightarrow>
    pids_step s (Fork_done t c) (s\<lparr>ps_tasks := (ps_tasks s)(t \<mapsto> c), ps_forking := remove1 c (ps_forking s)\<rparr>)"
| fork_cancel: "c \<in> set (ps_forking s) \<Longrightarrow>
    pids_step s (Fork_cancel c) (s\<lparr>ps_state := pids_cancel_fork c (ps_state s), ps_forking := remove1 c (ps_forking s)\<rparr>)"
| exit: "ps_tasks s t = Some c \<Longrightarrow>
    pids_step s (Exit t) (s\<lparr>ps_state := pids_release c (ps_state s), ps_tasks := (ps_tasks s)(t := None)\<rparr>)"
| attach: "distinct (map fst ts) \<Longrightarrow> fst ` set ts \<subseteq> dom (ps_tasks s) \<Longrightarrow>
    pids_can_attach (taskset (ps_tasks s) ts) (ps_state s) = (0, st) \<Longrightarrow>
    pids_step s (Attach ts True) (s\<lparr>ps_state := st, ps_tasks := move_tasks ts (ps_tasks s)\<rparr>)"
| attach_cancel: "distinct (map fst ts) \<Longrightarrow> fst ` set ts \<subseteq> dom (ps_tasks s) \<Longrightarrow>
    pids_can_attach (taskset (ps_tasks s) ts) (ps_state s) = (0, st) \<Longrightarrow>
    pids_step s (Attach ts False) (s\<lparr>ps_state := pids_cancel_attach (taskset (ps_tasks s) ts) st\<rparr>)"
| set_limit: "pids_max_write kstrtoll c buf n (ps_state s) = (r, st) \<Longrightarrow>
    pids_step s (Set_limit c r) (s\<lparr>ps_state := st\<rparr>)"

inductive_cases pids_stepE: "pids_step s e s'"



















section \<open>Properties\<close>

text \<open>\<open>pids_try_charge\<close> succeeds exactly when every cgroup on the path to the root stays within
  its limit; it then adds the number to exactly those counters. Otherwise it returns -EAGAIN and
  every counter is as before, whatever part of the path had been charged already.\<close>

theorem pids_try_charge_atomic:
  "(\<exists>st'. pids_try_charge c n st = (0, st') \<and> (\<forall>g. counters st' g = counters st g + n * on_path c g)) \<and>
     (\<forall>p\<in>set (nonroot_path c). counters st p + n \<le> limits st p) \<or>
   (\<exists>st'. pids_try_charge c n st = (- EAGAIN, st') \<and> counters st' = counters st) \<and>
     (\<exists>p\<in>set (nonroot_path c). limits st p < counters st p + n)"
proof (cases "\<forall>p\<in>set (nonroot_path c). counters st p + n \<le> limits st p")
  case True
  then show ?thesis using try_charge_ok by blast
next
  case False
  from try_charge_fail [OF this] False show ?thesis by (meson not_le)
qed

theorem pids_try_charge_atomic_witness:
  "fst (pids_try_charge [2, 1] 1 (\<lambda>g. pids_css_alloc\<lparr>limit := (if g = [1] then 0 else 5)\<rparr>)) = - EAGAIN"
  using pids_try_charge_atomic [of "[2, 1]" 1 "\<lambda>g. pids_css_alloc\<lparr>limit := (if g = [1] then 0 else 5)\<rparr>"]
  by (auto simp: counters_def limits_def pids_css_alloc_def)



end
