(* ===== verification/Misc_Cg.thy ===== *)
theory Misc_Cg
  imports Cgroup_Charge
begin

text \<open>
  The misc controller (kernel/cgroup/misc.c, include/linux/misc_cgroup.h): counted host
  resources charged from a cgroup up to and including the root, against a limit per cgroup and
  the capacity of the host. Usages are 64-bit words, as in the code. The two resource types are
  those of a kernel with CONFIG_KVM_AMD_SEV.
\<close>

section \<open>State and operations\<close>

definition MISC_CG_RES_TYPES :: int where "MISC_CG_RES_TYPES = 2"
definition MAX_NUM :: u64 where "MAX_NUM = - 1"

definition misc_res_name :: "string list" where "misc_res_name = [''sev'', ''sev_es'']"

record misc_res =
  mr_max :: u64
  mr_usage :: u64
  mr_events :: u64

record misc_state =
  misc_res_capacity :: "int \<Rightarrow> u64"
  misc_cgs :: "cgroup \<Rightarrow> int \<Rightarrow> misc_res"

definition valid_type :: "int \<Rightarrow> bool" where
  "valid_type type \<longleftrightarrow> 0 \<le> type \<and> type < MISC_CG_RES_TYPES"

definition misc_cg_res_total_usage :: "int \<Rightarrow> misc_state \<Rightarrow> u64" where
  "misc_cg_res_total_usage type st = (if valid_type type then mr_usage (misc_cgs st [] type) else 0)"

definition misc_cg_set_capacity :: "int \<Rightarrow> u64 \<Rightarrow> misc_state \<Rightarrow> int \<times> misc_state" where
  "misc_cg_set_capacity type capacity st =
     (if \<not> valid_type type then (- EINVAL, st)
      else (0, st\<lparr>misc_res_capacity := (misc_res_capacity st)(type := capacity)\<rparr>))"

definition upd_res :: "cgroup \<Rightarrow> int \<Rightarrow> (misc_res \<Rightarrow> misc_res) \<Rightarrow> misc_state \<Rightarrow> misc_state" where
  "upd_res cg type f st =
     st\<lparr>misc_cgs := (misc_cgs st)(cg := (misc_cgs st cg)(type := f (misc_cgs st cg type)))\<rparr>"

text \<open>\<open>atomic64_add_return\<close> on the usage, and \<open>misc_cg_cancel_charge\<close>.\<close>

definition usage_add :: "int \<Rightarrow> u64 \<Rightarrow> cgroup \<Rightarrow> misc_state \<Rightarrow> misc_state" where
  "usage_add type amount cg st = upd_res cg type (\<lambda>r. r\<lparr>mr_usage := mr_usage r + amount\<rparr>) st"

definition misc_cg_cancel_charge :: "int \<Rightarrow> u64 \<Rightarrow> cgroup \<Rightarrow> misc_state \<Rightarrow> misc_state" where
  "misc_cg_cancel_charge type amount cg st = usage_add type (- amount) cg st"

definition inc_events :: "int \<Rightarrow> cgroup \<Rightarrow> misc_state \<Rightarrow> misc_state" where
  "inc_events type cg st = upd_res cg type (\<lambda>r. r\<lparr>mr_events := mr_events r + 1\<rparr>) st"

fun misc_try_loop :: "int \<Rightarrow> u64 \<Rightarrow> cgroup list \<Rightarrow> misc_state \<Rightarrow> misc_state \<times> cgroup option" where
  "misc_try_loop type amount [] st = (st, None)"
| "misc_try_loop type amount (i # is) st =
     (let st1 = usage_add type amount i st; new_usage = mr_usage (misc_cgs st1 i type) in
      if new_usage > mr_max (misc_cgs st1 i type) \<or> new_usage > misc_res_capacity st1 type
      then (st1, Some i) else misc_try_loop type amount is st1)"

text \<open>None for \<open>cg\<close> is the NULL pointer.\<close>

definition misc_cg_try_charge :: "int \<Rightarrow> cgroup option \<Rightarrow> u64 \<Rightarrow> misc_state \<Rightarrow> int \<times> misc_state" where
  "misc_cg_try_charge type cg amount st =
     (case cg of
        None \<Rightarrow> (- EINVAL, st)
      | Some c \<Rightarrow>
          if \<not> (valid_type type \<and> misc_res_capacity st type \<noteq> 0) then (- EINVAL, st)
          else if amount = 0 then (0, st)
          else (case misc_try_loop type amount (full_path c) st of
              (st1, None) \<Rightarrow> (0, st1)
            | (st1, Some i) \<Rightarrow>
                let st2 = fold (inc_events type) (full_path i) st1;
                    st3 = fold (misc_cg_cancel_charge type amount)
                            (takeWhile (\<lambda>j. j \<noteq> i) (full_path c)) st2
                in (- EBUSY, misc_cg_cancel_charge type amount i st3)))"

definition misc_cg_uncharge :: "int \<Rightarrow> cgroup option \<Rightarrow> u64 \<Rightarrow> misc_state \<Rightarrow> misc_state" where
  "misc_cg_uncharge type cg amount st =
     (case cg of
        None \<Rightarrow> st
      | Some c \<Rightarrow>
          if \<not> (amount \<noteq> 0 \<and> valid_type type) then st
          else fold (misc_cg_cancel_charge type amount) (full_path c) st)"

text \<open>
  \<open>misc_cg_max_write\<close> on the stripped text: the name up to the first space, then "max" or a
  number; \<open>kstrtou64\<close> is a parameter.
\<close>

definition strsep_space :: "string \<Rightarrow> string \<times> string option" where
  "strsep_space buf =
     (takeWhile (\<lambda>c. c \<noteq> CHR '' '') buf,
      case dropWhile (\<lambda>c. c \<noteq> CHR '' '') buf of [] \<Rightarrow> None | _ # r \<Rightarrow> Some r)"

fun find_name :: "string list \<Rightarrow> string \<Rightarrow> int \<Rightarrow> int option" where
  "find_name [] token i = None"
| "find_name (n # ns) token i = (if n = token then Some i else find_name ns token (i + 1))"

definition misc_cg_max_write ::
  "(string \<Rightarrow> int + u64) \<Rightarrow> cgroup \<Rightarrow> string \<Rightarrow> int \<Rightarrow> misc_state \<Rightarrow> int \<times> misc_state" where
  "misc_cg_max_write kstrtou64 cg buf nbytes st =
     (case strsep_space buf of
        (token, None) \<Rightarrow> (- EINVAL, st)
      | (token, Some rest) \<Rightarrow>
          (case find_name misc_res_name token 0 of
             None \<Rightarrow> (- EINVAL, st)
           | Some type \<Rightarrow>
               (case (if rest = ''max'' then Inr MAX_NUM else kstrtou64 rest) of
                  Inl ret \<Rightarrow> (ret, st)
                | Inr v \<Rightarrow>
                    if misc_res_capacity st type \<noteq> 0
                    then (nbytes, upd_res cg type (\<lambda>r. r\<lparr>mr_max := v\<rparr>) st)
                    else (- EINVAL, st))))"

text \<open>\<open>misc_cg_alloc\<close> resets limit and usage of each type; the root object is static.\<close>

definition misc_cg_alloc :: "cgroup \<Rightarrow> misc_state \<Rightarrow> misc_state" where
  "misc_cg_alloc cg st =
     st\<lparr>misc_cgs := (misc_cgs st)(cg := (\<lambda>type. if valid_type type
        then (misc_cgs st cg type)\<lparr>mr_max := MAX_NUM, mr_usage := 0\<rparr> else misc_cgs st cg type))\<rparr>"

text \<open>The lines a show function prints, as pairs of a name and a number (None is "max").\<close>

definition misc_types :: "int list" where "misc_types = [0, 1]"

definition misc_cg_max_show :: "cgroup \<Rightarrow> misc_state \<Rightarrow> (string \<times> u64 option) list" where
  "misc_cg_max_show cg st =
     map (\<lambda>i. (misc_res_name ! nat i,
           let m = mr_max (misc_cgs st cg i) in if m = MAX_NUM then None else Some m))
       (filter (\<lambda>i. misc_res_capacity st i \<noteq> 0) misc_types)"

definition misc_cg_current_show :: "cgroup \<Rightarrow> misc_state \<Rightarrow> (string \<times> u64) list" where
  "misc_cg_current_show cg st =
     map (\<lambda>i. (misc_res_name ! nat i, mr_usage (misc_cgs st cg i)))
       (filter (\<lambda>i. misc_res_capacity st i \<noteq> 0 \<or> mr_usage (misc_cgs st cg i) \<noteq> 0) misc_types)"

definition misc_cg_capacity_show :: "misc_state \<Rightarrow> (string \<times> u64) list" where
  "misc_cg_capacity_show st =
     map (\<lambda>i. (misc_res_name ! nat i, misc_res_capacity st i)) (filter (\<lambda>i. misc_res_capacity st i \<noteq> 0) misc_types)"

definition misc_events_show :: "cgroup \<Rightarrow> misc_state \<Rightarrow> (string \<times> u64) list" where
  "misc_events_show cg st =
     map (\<lambda>i. (misc_res_name ! nat i, mr_events (misc_cgs st cg i)))
       (filter (\<lambda>i. misc_res_capacity st i \<noteq> 0 \<or> mr_events (misc_cgs st cg i) \<noteq> 0) misc_types)"

section \<open>Views of the state\<close>

definition usages :: "int \<Rightarrow> misc_state \<Rightarrow> cgroup \<Rightarrow> u64" where
  "usages type st g = mr_usage (misc_cgs st g type)"

definition maxes :: "int \<Rightarrow> misc_state \<Rightarrow> cgroup \<Rightarrow> u64" where
  "maxes type st g = mr_max (misc_cgs st g type)"

definition events :: "int \<Rightarrow> misc_state \<Rightarrow> cgroup \<Rightarrow> u64" where
  "events type st g = mr_events (misc_cgs st g type)"

text \<open>Everything but the usages and events of one type.\<close>

definition frame :: "int \<Rightarrow> misc_state \<Rightarrow> misc_state \<Rightarrow> bool" where
  "frame type st st' \<longleftrightarrow> misc_res_capacity st' = misc_res_capacity st \<and> maxes type st' = maxes type st \<and>
     (\<forall>g t. t \<noteq> type \<longrightarrow> misc_cgs st' g t = misc_cgs st g t)"

lemma frame_refl [simp]: "frame type st st"
  by (simp add: frame_def)

lemma frame_trans: "frame type a b \<Longrightarrow> frame type b c \<Longrightarrow> frame type a c"
  by (simp add: frame_def)

interpretation misc_usage: path_counter "usage_add type" "usages type" for type
  by unfold_locales (simp add: usage_add_def upd_res_def usages_def)

lemma events_usage_add [simp]: "events type (usage_add type n g st) = events type st"
  by (auto simp: usage_add_def upd_res_def events_def)

lemma usages_inc_events [simp]: "usages type (inc_events type g st) = usages type st"
  by (auto simp: inc_events_def upd_res_def usages_def)

interpretation misc_events: path_counter "\<lambda>n g st. upd_res g type (\<lambda>r. r\<lparr>mr_events := mr_events r + n\<rparr>) st" "events type" for type
  by unfold_locales (simp add: upd_res_def events_def)

lemma events_fold:
  "distinct gs \<Longrightarrow> events type (fold (inc_events type) gs st) h = events type st h + (if h \<in> set gs then 1 else 0)"
  using misc_events.usage_fold [of gs type 1 st h] by (simp add: inc_events_def [abs_def])

lemma usages_fold_events [simp]: "usages type (fold (inc_events type) gs st) = usages type st"
  by (induction gs arbitrary: st) simp_all

lemma events_fold_cancel [simp]:
  "events type (fold (misc_cg_cancel_charge type n) gs st) = events type st"
  by (induction gs arbitrary: st) (simp_all add: misc_cg_cancel_charge_def)

lemma frame_ops: "frame type st (usage_add type n g st)" "frame type st (inc_events type g st)"
  by (auto simp: frame_def usage_add_def inc_events_def upd_res_def maxes_def fun_eq_iff)

lemma frame_fold:
  "frame type st (fold (misc_cg_cancel_charge type n) gs st)" "frame type st (fold (inc_events type) gs st)"
  by (induction gs arbitrary: st)
    (auto simp: misc_cg_cancel_charge_def intro: frame_trans [OF frame_ops(1)] frame_trans [OF frame_ops(2)])

lemma try_loop_usages:
  assumes "distinct ps" "misc_try_loop type n ps st = (st', r)"
  shows "frame type st st' \<and> events type st' = events type st \<and>
    (case r of
       None \<Rightarrow> (\<forall>p\<in>set ps. usages type st p + n \<le> maxes type st p \<and> usages type st p + n \<le> misc_res_capacity st type) \<and>
               (\<forall>g. usages type st' g = usages type st g + (if g \<in> set ps then n else 0))
     | Some p \<Rightarrow> p \<in> set ps \<and> \<not> (usages type st p + n \<le> maxes type st p \<and> usages type st p + n \<le> misc_res_capacity st type) \<and>
               (\<forall>g. usages type st' g = usages type st g +
                  (if g = p \<or> g \<in> set (takeWhile (\<lambda>q. q \<noteq> p) ps) then n else 0)))"
  using assms
proof (induction ps arbitrary: st)
  case (Cons p ps)
  let ?st1 = "usage_add type n p st"
  let ?over = "maxes type st p < usages type st p + n \<or> misc_res_capacity st type < usages type st p + n"
  have c1: "usages type ?st1 g = usages type st g + (if p = g then n else 0)" for g
    by (rule misc_usage.usage_after_add)
  have f1: "frame type st ?st1" by (rule frame_ops)
  have l: "misc_try_loop type n (p # ps) st = (if ?over then (?st1, Some p) else misc_try_loop type n ps ?st1)"
    using c1 [of p] f1 by (auto simp: Let_def usages_def maxes_def frame_def fun_eq_iff)
  show ?case
  proof (cases ?over)
    case True
    then have "st' = ?st1" "r = Some p" using Cons.prems(2) l by auto
    then show ?thesis using True c1 f1 by (auto simp: not_le)
  next
    case False
    have "misc_try_loop type n ps ?st1 = (st', r)" using Cons.prems(2) l False by simp
    note ih = Cons.IH [OF _ this]
    have np: "p \<notin> set ps" "distinct ps" using Cons.prems(1) by simp_all
    have same: "usages type ?st1 q = usages type st q" if "q \<in> set ps" for q using that np c1 [of q] by auto
    have m: "maxes type ?st1 = maxes type st" "misc_res_capacity ?st1 = misc_res_capacity st"
      using f1 by (simp_all add: frame_def)
    have fr: "frame type st st'" "events type st' = events type st"
      using ih np f1 frame_trans by auto
    show ?thesis
    proof (cases r)
      case None
      then show ?thesis using ih np same False c1 m fr by auto
    next
      case (Some q)
      then have q: "q \<in> set ps" "\<not> (usages type st q + n \<le> maxes type st q \<and> usages type st q + n \<le> misc_res_capacity st type)" and
        st': "\<forall>g. usages type st' g = usages type ?st1 g + (if g = q \<or> g \<in> set (takeWhile (\<lambda>x. x \<noteq> q) ps) then n else 0)"
        using ih np same m by auto
      have "p \<noteq> q" "p \<notin> set (takeWhile (\<lambda>x. x \<noteq> q) ps)" using np q by (auto dest: set_takeWhileD)
      then show ?thesis using Some np q st' c1 fr by auto
    qed
  qed
qed simp

lemma misc_charge_ok:
  assumes "valid_type type" "misc_res_capacity st type \<noteq> 0" "n \<noteq> 0"
    and "\<forall>p\<in>set (full_path c). usages type st p + n \<le> maxes type st p \<and> usages type st p + n \<le> misc_res_capacity st type"
  shows "\<exists>st'. misc_cg_try_charge type (Some c) n st = (0, st') \<and> frame type st st' \<and> events type st' = events type st \<and>
    (\<forall>g. usages type st' g = usages type st g + (if g \<in> set (full_path c) then n else 0))"
proof -
  obtain st' r where l: "misc_try_loop type n (full_path c) st = (st', r)" by (rule prod.exhaust)
  note t = try_loop_usages [OF distinct_full_path l]
  have "r = None" using t assms(4) by (auto split: option.splits)
  then show ?thesis using t assms by (simp add: misc_cg_try_charge_def l)
qed

lemma misc_charge_fail:
  assumes "valid_type type" "misc_res_capacity st type \<noteq> 0" "n \<noteq> 0"
    and "\<not> (\<forall>p\<in>set (full_path c). usages type st p + n \<le> maxes type st p \<and> usages type st p + n \<le> misc_res_capacity st type)"
  shows "\<exists>st' i. misc_cg_try_charge type (Some c) n st = (- EBUSY, st') \<and> frame type st st' \<and>
    usages type st' = usages type st \<and> i \<in> set (full_path c) \<and>
    (\<forall>g. events type st' g = events type st g + (if g \<in> set (full_path i) then 1 else 0))"
proof -
  obtain st1 r where l: "misc_try_loop type n (full_path c) st = (st1, r)" by (rule prod.exhaust)
  note t = try_loop_usages [OF distinct_full_path l]
  obtain i where r: "r = Some i" using t assms(4) by (auto split: option.splits)
  let ?ps = "takeWhile (\<lambda>j. j \<noteq> i) (full_path c)"
  let ?st2 = "fold (inc_events type) (full_path i) st1"
  let ?st3 = "fold (misc_cg_cancel_charge type n) ?ps ?st2"
  let ?st = "misc_cg_cancel_charge type n i ?st3"
  have "i \<notin> set ?ps" by (auto dest: set_takeWhileD)
  then have "usages type ?st g = usages type st g" for g
    using t r by (auto simp: misc_cg_cancel_charge_def [abs_def] misc_usage.usage_after_add misc_usage.usage_fold)
  then have "usages type ?st = usages type st" by (rule ext)
  moreover have "frame type st ?st"
    using t frame_fold(2) [of type st1 "full_path i"] frame_fold(1) [of type ?st2 n ?ps] frame_ops(1) [of type ?st3 "- n" i]
    unfolding misc_cg_cancel_charge_def [of type n i] by (blast intro: frame_trans)
  moreover have "events type ?st g = events type st g + (if g \<in> set (full_path i) then 1 else 0)" for g
    using t r by (simp add: misc_cg_cancel_charge_def [of type n i] events_fold)
  moreover have "i \<in> set (full_path c)" using t r by simp
  ultimately show ?thesis using assms by (intro exI [of _ ?st] exI [of _ i]) (simp add: misc_cg_try_charge_def l r Let_def)
qed

section \<open>Properties\<close>


definition demo_misc :: "misc_state" where
  "demo_misc = \<lparr>misc_res_capacity = (\<lambda>_. 5), misc_cgs = (\<lambda>g t. \<lparr>mr_max = (if g = [] then 3 else 10), mr_usage = 2, mr_events = 0\<rparr>)\<rparr>"


text \<open>A successful charge followed by an uncharge of the same amount from the same cgroup gives
  back every usage.\<close>

theorem misc_uncharge_inverse:
  assumes "misc_cg_try_charge type cg n st = (0, st')"
  shows "usages type (misc_cg_uncharge type cg n st') = usages type st"
proof (cases cg)
  case None
  then show ?thesis using assms by (simp add: misc_cg_try_charge_def EINVAL_def)
next
  case (Some c)
  show ?thesis
  proof (cases "valid_type type \<and> misc_res_capacity st type \<noteq> 0 \<and> n \<noteq> 0")
    case True
    then have v: "valid_type type" "misc_res_capacity st type \<noteq> 0" "n \<noteq> 0" by simp_all
    have "\<forall>p\<in>set (full_path c). usages type st p + n \<le> maxes type st p \<and> usages type st p + n \<le> misc_res_capacity st type"
      (is ?within)
    proof (rule ccontr)
      assume "\<not> ?within"
      from misc_charge_fail [OF v this] show False using assms Some by (auto simp: EBUSY_def)
    qed
    from misc_charge_ok [OF v this]
    have "\<forall>g. usages type st' g = usages type st g + (if g \<in> set (full_path c) then n else 0)"
      using assms Some by auto
    then show ?thesis using True Some
      by (auto simp: misc_cg_uncharge_def misc_cg_cancel_charge_def [abs_def] misc_usage.usage_fold)
  next
    case False
    then show ?thesis using assms Some
      by (auto simp: misc_cg_try_charge_def misc_cg_uncharge_def EINVAL_def split: if_splits)
  qed
qed

theorem misc_uncharge_inverse_witness:
  "usages 0 (misc_cg_uncharge 0 (Some [1]) 1 (snd (misc_cg_try_charge 0 (Some [1]) 1 demo_misc))) = usages 0 demo_misc"
proof -
  have "fst (misc_cg_try_charge 0 (Some [1]) 1 demo_misc) = 0"
    by (simp add: misc_cg_try_charge_def demo_misc_def usage_add_def upd_res_def valid_type_def MISC_CG_RES_TYPES_def Let_def)
  then have "misc_cg_try_charge 0 (Some [1]) 1 demo_misc = (0, snd (misc_cg_try_charge 0 (Some [1]) 1 demo_misc))"
    by (simp add: prod_eq_iff)
  then show ?thesis by (rule misc_uncharge_inverse)
qed

end
