(* ===== verification/Simulation.thy ===== *)
theory Simulation
  imports Prelude
begin

text \<open>
  Data refinement, the contract several components are measured against: a detailed step function
  that returns what an abstract one returns, up to an abstraction of the state, agrees with it on
  every sequence of operations. Each client interprets the locale on its own operations.
\<close>

text \<open>Run a sequence with a given step function and collect what each call returns.\<close>

primrec run_ops :: "('o \<Rightarrow> 's \<Rightarrow> 'r \<times> 's) \<Rightarrow> 'o list \<Rightarrow> 's \<Rightarrow> 'r list \<times> 's" where
  "run_ops f [] s = ([], s)"
| "run_ops f (x # xs) s = (case f x s of (r, s') \<Rightarrow> case run_ops f xs s' of (rs, s'') \<Rightarrow> (r # rs, s''))"

lemma run_ops_append:
  "run_ops f (xs @ ys) s = (let (rs, s') = run_ops f xs s; (rs', s'') = run_ops f ys s' in (rs @ rs', s''))"
  by (induction xs arbitrary: s) (simp_all add: case_prod_beta Let_def)

text \<open>
  Data refinement: a step function on the concrete state that stays in an invariant and returns
  what the abstract step returns, up to an abstraction function, agrees with it on every sequence.
\<close>

locale simulation =
  fixes cstep :: "'o \<Rightarrow> 'c \<Rightarrow> 'r \<times> 'c"
    and astep :: "'o \<Rightarrow> 'a \<Rightarrow> 'r \<times> 'a"
    and inv :: "'c \<Rightarrow> bool"
    and abst :: "'c \<Rightarrow> 'a"
    and allowed :: "'o \<Rightarrow> bool"
  assumes step_sim: "inv c \<Longrightarrow> allowed op \<Longrightarrow>
    inv (snd (cstep op c)) \<and> astep op (abst c) = (fst (cstep op c), abst (snd (cstep op c)))"
begin

lemma run_sim:
  "inv c \<Longrightarrow> list_all allowed ops \<Longrightarrow>
    inv (snd (run_ops cstep ops c)) \<and>
    run_ops astep ops (abst c) = (fst (run_ops cstep ops c), abst (snd (run_ops cstep ops c)))"
proof (induction ops arbitrary: c)
  case (Cons op ops)
  then have "inv (snd (cstep op c)) \<and> astep op (abst c) = (fst (cstep op c), abst (snd (cstep op c)))"
    using step_sim by simp
  then show ?case using Cons.IH [of "snd (cstep op c)"] Cons.prems(2) by (simp add: case_prod_beta)
qed simp

end

end
