(* ===== verification/Queue_Stack.thy ===== *)
theory Queue_Stack
  imports Simulation
begin

text \<open>
  BPF queue and stack maps (kernel/bpf/queue_stack_maps.c): a ring of fixed-size values in one
  byte array, indexed by 32-bit words. The contents of the ring are shown to behave as a bounded
  list: the queue takes from the front, the stack from the back. Taking the spinlock is a
  parameter (\<open>busy\<close>: in a non-maskable interrupt with the lock held elsewhere).
\<close>

section \<open>State and operations\<close>

record bpf_queue_stack =
  qs_head :: u32
  qs_tail :: u32
  qs_size :: u32
  qs_value_size :: u32
  qs_elements :: "u8 list"

definition BPF_NOEXIST :: u64 where "BPF_NOEXIST = 1"
definition BPF_EXIST :: u64 where "BPF_EXIST = 2"

definition queue_stack_map_is_empty :: "bpf_queue_stack \<Rightarrow> bool" where
  "queue_stack_map_is_empty qs \<longleftrightarrow> qs_head qs = qs_tail qs"

definition queue_stack_map_is_full :: "bpf_queue_stack \<Rightarrow> bool" where
  "queue_stack_map_is_full qs =
     (let head = qs_head qs + 1; head = (if head \<ge> qs_size qs then 0 else head) in head = qs_tail qs)"

text \<open>
  \<open>queue_stack_map_alloc_check\<close>: the flag test is a parameter, as are the flags and the largest
  allocation.
\<close>

definition queue_stack_map_alloc_check :: "bool \<Rightarrow> u64 \<Rightarrow> u32 \<Rightarrow> u32 \<Rightarrow> u32 \<Rightarrow> int" where
  "queue_stack_map_alloc_check flags_ok kmalloc_max max_entries key_size value_size =
     (if max_entries = 0 \<or> key_size \<noteq> 0 \<or> value_size = 0 \<or> \<not> flags_ok then - EINVAL
      else if ucast value_size > kmalloc_max then - E2BIG else 0)"

text \<open>The allocator gives zeroed memory or fails; the 64-bit size is stored in 32 bits.\<close>

definition queue_stack_map_alloc :: "bool \<Rightarrow> u32 \<Rightarrow> u32 \<Rightarrow> int + bpf_queue_stack" where
  "queue_stack_map_alloc area_ok max_entries value_size =
     (let sz = ucast max_entries + 1 :: u64 in
      if \<not> area_ok then Inl (- ENOMEM)
      else Inr \<lparr>qs_head = 0, qs_tail = 0, qs_size = ucast sz, qs_value_size = value_size,
        qs_elements = replicate (unat (sz * ucast value_size)) 0\<rparr>)"

text \<open>\<open>memcpy\<close> from and to \<open>&elements[i * value_size]\<close>; the product is a 32-bit one.\<close>

definition elem_get :: "bpf_queue_stack \<Rightarrow> u32 \<Rightarrow> u8 list" where
  "elem_get qs i = take (unat (qs_value_size qs)) (drop (unat (i * qs_value_size qs)) (qs_elements qs))"

definition elem_put :: "u32 \<Rightarrow> u8 list \<Rightarrow> bpf_queue_stack \<Rightarrow> bpf_queue_stack" where
  "elem_put i v qs =
     (let off = unat (i * qs_value_size qs) in
      qs\<lparr>qs_elements := take off (qs_elements qs) @ v @ drop (off + length v) (qs_elements qs)\<rparr>)"

definition queue_map_get :: "bool \<Rightarrow> bool \<Rightarrow> bpf_queue_stack \<Rightarrow> int \<times> u8 list option \<times> bpf_queue_stack" where
  "queue_map_get busy del qs =
     (if busy then (- EBUSY, None, qs)
      else if queue_stack_map_is_empty qs
        then (- ENOENT, Some (replicate (unat (qs_value_size qs)) 0), qs)
      else let v = elem_get qs (qs_tail qs) in
        if del then (let t = qs_tail qs + 1 in
           (0, Some v, qs\<lparr>qs_tail := (if t \<ge> qs_size qs then 0 else t)\<rparr>))
        else (0, Some v, qs))"

definition stack_map_get :: "bool \<Rightarrow> bool \<Rightarrow> bpf_queue_stack \<Rightarrow> int \<times> u8 list option \<times> bpf_queue_stack" where
  "stack_map_get busy del qs =
     (if busy then (- EBUSY, None, qs)
      else if queue_stack_map_is_empty qs
        then (- ENOENT, Some (replicate (unat (qs_value_size qs)) 0), qs)
      else let index = qs_head qs - 1;
               index = (if index \<ge> qs_size qs then qs_size qs - 1 else index);
               v = elem_get qs index in
        if del then (0, Some v, qs\<lparr>qs_head := index\<rparr>) else (0, Some v, qs))"

definition queue_map_peek_elem where "queue_map_peek_elem busy qs = queue_map_get busy False qs"
definition stack_map_peek_elem where "stack_map_peek_elem busy qs = stack_map_get busy False qs"
definition queue_map_pop_elem where "queue_map_pop_elem busy qs = queue_map_get busy True qs"
definition stack_map_pop_elem where "stack_map_pop_elem busy qs = stack_map_get busy True qs"

definition queue_stack_map_push_elem ::
  "bool \<Rightarrow> u8 list \<Rightarrow> u64 \<Rightarrow> bpf_queue_stack \<Rightarrow> int \<times> bpf_queue_stack" where
  "queue_stack_map_push_elem busy value flags qs =
     (let replace = (flags AND BPF_EXIST \<noteq> 0) in
      if flags AND BPF_NOEXIST \<noteq> 0 \<or> flags > BPF_EXIST then (- EINVAL, qs)
      else if busy then (- EBUSY, qs)
      else if queue_stack_map_is_full qs \<and> \<not> replace then (- E2BIG, qs)
      else let qs1 = (if queue_stack_map_is_full qs
                      then (let t = qs_tail qs + 1 in qs\<lparr>qs_tail := (if t \<ge> qs_size qs then 0 else t)\<rparr>)
                      else qs);
               qs2 = elem_put (qs_head qs1) value qs1;
               h = qs_head qs2 + 1
           in (0, qs2\<lparr>qs_head := (if h \<ge> qs_size qs2 then 0 else h)\<rparr>))"

definition queue_stack_map_mem_usage :: "u64 \<Rightarrow> u32 \<Rightarrow> u32 \<Rightarrow> u64" where
  "queue_stack_map_mem_usage sizeof_qs max_entries value_size =
     sizeof_qs + (ucast max_entries + 1) * ucast value_size"

text \<open>The map operations that have no meaning for a queue.\<close>

definition queue_stack_map_update_elem :: int where "queue_stack_map_update_elem = - EINVAL"
definition queue_stack_map_delete_elem :: int where "queue_stack_map_delete_elem = - EINVAL"
definition queue_stack_map_get_next_key :: int where "queue_stack_map_get_next_key = - EINVAL"

section \<open>Invariant and contents\<close>

definition qs_inv :: "bpf_queue_stack \<Rightarrow> bool" where
  "qs_inv qs \<longleftrightarrow> qs_head qs < qs_size qs \<and> qs_tail qs < qs_size qs \<and> 1 < qs_size qs \<and>
     length (qs_elements qs) = unat (qs_size qs) * unat (qs_value_size qs) \<and>
     unat (qs_size qs) * unat (qs_value_size qs) \<le> 2 ^ 32 \<and> 0 < qs_value_size qs"

definition qs_cap :: "bpf_queue_stack \<Rightarrow> nat" where
  "qs_cap qs = unat (qs_size qs) - 1"

definition qs_count :: "bpf_queue_stack \<Rightarrow> nat" where
  "qs_count qs = (let h = unat (qs_head qs); t = unat (qs_tail qs) in
     if t \<le> h then h - t else h + unat (qs_size qs) - t)"

definition qs_slot :: "bpf_queue_stack \<Rightarrow> nat \<Rightarrow> u8 list" where
  "qs_slot qs i = take (unat (qs_value_size qs)) (drop (i * unat (qs_value_size qs)) (qs_elements qs))"

definition qs_list :: "bpf_queue_stack \<Rightarrow> u8 list list" where
  "qs_list qs = map (\<lambda>k. qs_slot qs ((unat (qs_tail qs) + k) mod unat (qs_size qs))) [0..<qs_count qs]"

section \<open>Words as indices\<close>

lemma succ_index:
  assumes "(i :: u32) < n"
  shows "unat (if i + 1 \<ge> n then 0 else i + 1) = Suc (unat i) mod unat n"
proof -
  have s: "unat (i + 1) = Suc (unat i)" by (rule unat_Suc_le [OF assms])
  have l: "unat i < unat n" using assms by (simp add: word_less_nat_alt)
  show ?thesis
  proof (cases "n \<le> i + 1")
    case True
    then have "Suc (unat i) = unat n" using s l by (simp add: word_le_nat_alt)
    then show ?thesis using True by simp
  next
    case False
    then show ?thesis using s by (simp add: word_le_nat_alt)
  qed
qed

lemma offset_no_wrap:
  assumes "(i :: u32) < n" "unat n * unat v \<le> 2 ^ 32" "0 < v"
  shows "unat (i * v) = unat i * unat v"
proof -
  have "unat i < unat n" "0 < unat v" using assms by (simp_all add: word_less_nat_alt)
  then have "unat i * unat v < unat n * unat v" by simp
  then have "unat i * unat v < 2 ^ 32" using assms(2) by linarith
  then show ?thesis by (simp add: unat_word_ariths)
qed

lemma elem_get_slot: "qs_inv qs \<Longrightarrow> i < qs_size qs \<Longrightarrow> elem_get qs i = qs_slot qs (unat i)"
  using offset_no_wrap [of i "qs_size qs" "qs_value_size qs"] by (simp add: elem_get_def qs_slot_def qs_inv_def)

lemma slot_end: "i < n \<Longrightarrow> (i :: nat) * v + v \<le> n * v"
  by (metis Suc_leI add.commute mult_Suc mult_le_mono1)

lemma elem_put_slot:
  assumes inv: "qs_inv qs" and i: "i < qs_size qs" and v: "length v = unat (qs_value_size qs)" and j: "j < unat (qs_size qs)"
  shows "qs_slot (elem_put i v qs) j = (if j = unat i then v else qs_slot qs j)"
    and "length (qs_elements (elem_put i v qs)) = length (qs_elements qs)"
proof -
  let ?v = "unat (qs_value_size qs)" and ?n = "unat (qs_size qs)" and ?i = "unat i" and ?e = "qs_elements qs"
  have off: "unat (i * qs_value_size qs) = ?i * ?v"
    using inv i by (intro offset_no_wrap [of i "qs_size qs"]) (simp_all add: qs_inv_def)
  have le: "?i * ?v + ?v \<le> length ?e" "j * ?v + ?v \<le> length ?e"
    using inv i j slot_end [of ?i ?n ?v] slot_end [of j ?n ?v] by (simp_all add: qs_inv_def word_less_nat_alt)
  have e: "qs_elements (elem_put i v qs) = take (?i * ?v) ?e @ v @ drop (?i * ?v + ?v) ?e"
    by (simp add: elem_put_def Let_def off v)
  show "length (qs_elements (elem_put i v qs)) = length ?e" using le by (simp add: e v)
  have vs: "qs_value_size (elem_put i v qs) = qs_value_size qs" by (simp add: elem_put_def Let_def)
  show "qs_slot (elem_put i v qs) j = (if j = ?i then v else qs_slot qs j)"
  proof (cases rule: linorder_cases [of j ?i])
    case equal
    then show ?thesis using le by (simp add: qs_slot_def vs e v)
  next
    case less
    then have "j * ?v + ?v \<le> ?i * ?v" by (rule slot_end)
    then show ?thesis using less le by (simp add: qs_slot_def vs e v take_drop [symmetric] min_def) (simp add: take_drop min_def)
  next
    case greater
    then have "?i * ?v + ?v \<le> j * ?v" by (rule slot_end)
    then show ?thesis using greater le by (simp add: qs_slot_def vs e v)
  qed
qed

section \<open>The ring as a list\<close>

lemma qs_count_lt: "qs_inv qs \<Longrightarrow> qs_count qs < unat (qs_size qs)"
  by (auto simp: qs_count_def qs_inv_def Let_def word_less_nat_alt)

lemma length_qs_list [simp]: "length (qs_list qs) = qs_count qs"
  by (simp add: qs_list_def)

lemma ring_head:
  assumes "qs_inv qs"
  shows "(unat (qs_tail qs) + qs_count qs) mod unat (qs_size qs) = unat (qs_head qs)"
  using assms by (auto simp: qs_count_def qs_inv_def Let_def word_less_nat_alt mod_if)

lemma ring_distinct:
  assumes "(j :: nat) < k" "k < n"
  shows "(t + j) mod n \<noteq> (t + k) mod n"
proof
  assume "(t + j) mod n = (t + k) mod n"
  then have "n dvd (t + k) - (t + j)" using assms mod_eq_dvd_iff_nat [of "t + j" "t + k" n] by simp
  then show False using assms by (auto dest: dvd_imp_le)
qed

lemma empty_iff: "qs_inv qs \<Longrightarrow> queue_stack_map_is_empty qs \<longleftrightarrow> qs_list qs = []"
  by (auto simp: queue_stack_map_is_empty_def qs_list_def qs_count_def qs_inv_def Let_def word_less_nat_alt word_unat_eq_iff)

lemma full_iff:
  assumes "qs_inv qs"
  shows "queue_stack_map_is_full qs \<longleftrightarrow> length (qs_list qs) = qs_cap qs"
proof -
  let ?n = "unat (qs_size qs)" and ?h = "unat (qs_head qs)" and ?t = "unat (qs_tail qs)"
  have b: "?h < ?n" "?t < ?n" "1 < ?n" using assms by (simp_all add: qs_inv_def word_less_nat_alt)
  have "queue_stack_map_is_full qs \<longleftrightarrow> Suc ?h mod ?n = ?t"
    using assms succ_index [of "qs_head qs" "qs_size qs"]
    by (simp add: queue_stack_map_is_full_def qs_inv_def Let_def word_unat_eq_iff)
  also have "\<dots> \<longleftrightarrow> qs_count qs = ?n - 1" using b by (auto simp: qs_count_def Let_def mod_if)
  finally show ?thesis by (simp add: qs_cap_def)
qed

text \<open>Moving the tail forward drops the first element.\<close>

lemma tail_forward:
  assumes inv: "qs_inv qs" and ne: "0 < qs_count qs" and t: "unat t' = Suc (unat (qs_tail qs)) mod unat (qs_size qs)"
  shows "qs_inv (qs\<lparr>qs_tail := t'\<rparr>)" and "qs_list (qs\<lparr>qs_tail := t'\<rparr>) = tl (qs_list qs)"
    and "qs_slot qs (unat (qs_tail qs)) = hd (qs_list qs)"
proof -
  let ?n = "unat (qs_size qs)" and ?q = "qs\<lparr>qs_tail := t'\<rparr>"
  have b: "unat (qs_head qs) < ?n" "unat (qs_tail qs) < ?n" "1 < ?n"
    using inv by (simp_all add: qs_inv_def word_less_nat_alt)
  have "unat t' < ?n" using t b by simp
  then show "qs_inv ?q" using inv by (simp add: qs_inv_def word_less_nat_alt)
  have c: "qs_count ?q = qs_count qs - 1" using ne b by (auto simp: qs_count_def Let_def t mod_if split: if_splits)
  have s: "qs_slot ?q = qs_slot qs" by (simp add: qs_slot_def fun_eq_iff)
  have tls: "tl (qs_list qs) = map (\<lambda>k. qs_slot qs ((unat (qs_tail qs) + Suc k) mod ?n)) [0..<qs_count qs - 1]"
    using ne by (cases "qs_count qs") (simp_all add: qs_list_def upt_conv_Cons map_Suc_upt [symmetric] comp_def del: upt_Suc)
  show "qs_list ?q = tl (qs_list qs)"
    by (simp add: tls) (simp add: qs_list_def c s t mod_simps)
  show "qs_slot qs (unat (qs_tail qs)) = hd (qs_list qs)"
    using ne b by (simp add: qs_list_def upt_conv_Cons)
qed

text \<open>Moving the head back drops the last element.\<close>

lemma head_back:
  assumes inv: "qs_inv qs" and ne: "0 < qs_count qs" and h: "Suc (unat h') mod unat (qs_size qs) = unat (qs_head qs)"
    and l: "h' < qs_size qs"
  shows "qs_inv (qs\<lparr>qs_head := h'\<rparr>)" and "qs_list (qs\<lparr>qs_head := h'\<rparr>) = butlast (qs_list qs)"
    and "qs_slot qs (unat h') = last (qs_list qs)"
proof -
  let ?n = "unat (qs_size qs)" and ?q = "qs\<lparr>qs_head := h'\<rparr>"
  have b: "unat (qs_head qs) < ?n" "unat (qs_tail qs) < ?n" "1 < ?n" "unat h' < ?n"
    using inv l by (simp_all add: qs_inv_def word_less_nat_alt)
  show i: "qs_inv ?q" using inv l by (simp add: qs_inv_def)
  have c: "qs_count qs = Suc (qs_count ?q)" using ne b h by (auto simp: qs_count_def Let_def mod_if split: if_splits)
  have s: "qs_slot ?q = qs_slot qs" by (simp add: qs_slot_def fun_eq_iff)
  have m: "(unat (qs_tail qs) + qs_count ?q) mod ?n = unat h'" using ring_head [OF i] by simp
  show "qs_list ?q = butlast (qs_list qs)" "qs_slot qs (unat h') = last (qs_list qs)"
    by (simp_all add: qs_list_def c s m)
qed

text \<open>Writing at the head and moving it forward appends.\<close>

lemma head_forward:
  assumes inv: "qs_inv qs" and room: "Suc (qs_count qs) < unat (qs_size qs)"
    and v: "length v = unat (qs_value_size qs)"
    and h: "unat h' = Suc (unat (qs_head qs)) mod unat (qs_size qs)"
  shows "qs_inv ((elem_put (qs_head qs) v qs)\<lparr>qs_head := h'\<rparr>)"
    and "qs_list ((elem_put (qs_head qs) v qs)\<lparr>qs_head := h'\<rparr>) = qs_list qs @ [v]"
proof -
  let ?n = "unat (qs_size qs)" and ?p = "elem_put (qs_head qs) v qs" and ?t = "unat (qs_tail qs)"
  let ?q = "?p\<lparr>qs_head := h'\<rparr>"
  have hd: "qs_head qs < qs_size qs" and b: "unat (qs_head qs) < ?n" "?t < ?n" "1 < ?n"
    using inv by (simp_all add: qs_inv_def word_less_nat_alt)
  note put = elem_put_slot [OF inv hd v]
  have f: "qs_size ?p = qs_size qs" "qs_tail ?p = qs_tail qs" "qs_value_size ?p = qs_value_size qs"
    by (simp_all add: elem_put_def Let_def)
  have "unat h' < ?n" using h b by simp
  then show "qs_inv ?q" using inv put(2) [of 0] b by (simp add: qs_inv_def f word_less_nat_alt)
  have c: "qs_count ?q = Suc (qs_count qs)" using room b by (auto simp: qs_count_def Let_def f h mod_if split: if_splits)
  have s: "qs_slot ?q j = (if j = unat (qs_head qs) then v else qs_slot qs j)" if "j < ?n" for j
    using put(1) [OF that] by (simp add: qs_slot_def)
  have ne: "(?t + k) mod ?n \<noteq> unat (qs_head qs)" if "k < qs_count qs" for k
    using ring_distinct [of k "qs_count qs" ?n ?t] ring_head [OF inv] that room by simp
  show "qs_list ?q = qs_list qs @ [v]"
    using b ne by (simp add: qs_list_def c f s ring_head [OF inv])
qed

section \<open>Specification: a bounded list\<close>

definition spec_push :: "nat \<Rightarrow> bool \<Rightarrow> 'v \<Rightarrow> u64 \<Rightarrow> 'v list \<Rightarrow> int \<times> 'v list" where
  "spec_push cap busy v flags l =
     (if flags \<noteq> 0 \<and> flags \<noteq> BPF_EXIST then (- EINVAL, l)
      else if busy then (- EBUSY, l)
      else if length l < cap then (0, l @ [v])
      else if flags = BPF_EXIST then (0, tl l @ [v]) else (- E2BIG, l))"

definition spec_queue_get :: "'v \<Rightarrow> bool \<Rightarrow> bool \<Rightarrow> 'v list \<Rightarrow> int \<times> 'v option \<times> 'v list" where
  "spec_queue_get zero busy del l =
     (if busy then (- EBUSY, None, l)
      else case l of [] \<Rightarrow> (- ENOENT, Some zero, []) | v # l' \<Rightarrow> (0, Some v, if del then l' else l))"

definition spec_stack_get :: "'v \<Rightarrow> bool \<Rightarrow> bool \<Rightarrow> 'v list \<Rightarrow> int \<times> 'v option \<times> 'v list" where
  "spec_stack_get zero busy del l =
     (if busy then (- EBUSY, None, l)
      else if l = [] then (- ENOENT, Some zero, [])
      else (0, Some (last l), if del then butlast l else l))"

definition same_shape :: "bpf_queue_stack \<Rightarrow> bpf_queue_stack \<Rightarrow> bool" where
  "same_shape qs qs' \<longleftrightarrow> qs_size qs' = qs_size qs \<and> qs_value_size qs' = qs_value_size qs"

definition zero_value :: "bpf_queue_stack \<Rightarrow> u8 list" where
  "zero_value qs = replicate (unat (qs_value_size qs)) 0"

lemma same_shape_refl [simp]: "same_shape qs qs"
  by (simp add: same_shape_def)

lemma same_shapeD: "same_shape qs qs' \<Longrightarrow> qs_cap qs' = qs_cap qs \<and> zero_value qs' = zero_value qs \<and> qs_value_size qs' = qs_value_size qs"
  by (simp add: same_shape_def qs_cap_def zero_value_def)

lemma push_flags:
  "(flags AND BPF_NOEXIST \<noteq> 0 \<or> flags > BPF_EXIST) \<longleftrightarrow> flags \<noteq> 0 \<and> flags \<noteq> BPF_EXIST"
  "BPF_EXIST AND BPF_EXIST \<noteq> 0" "0 AND BPF_EXIST = (0 :: u64)"
proof -
  have "flags \<le> 2 \<longleftrightarrow> flags = 0 \<or> flags = 1 \<or> flags = 2"
  proof
    assume "flags \<le> 2"
    then have "unat flags \<le> 2" by (simp add: word_le_nat_alt)
    then have "unat flags = unat (0 :: u64) \<or> unat flags = unat (1 :: u64) \<or> unat flags = unat (2 :: u64)" by auto
    then show "flags = 0 \<or> flags = 1 \<or> flags = 2" by (simp only: word_unat_eq_iff)
  qed auto
  then show "(flags AND BPF_NOEXIST \<noteq> 0 \<or> flags > BPF_EXIST) \<longleftrightarrow> flags \<noteq> 0 \<and> flags \<noteq> BPF_EXIST"
    by (auto simp: BPF_EXIST_def BPF_NOEXIST_def not_less [symmetric])
qed (simp_all add: BPF_EXIST_def)

section \<open>The operations refine the specification\<close>

lemma cap_pos: "qs_inv qs \<Longrightarrow> 0 < qs_cap qs \<and> qs_count qs \<le> qs_cap qs"
  using qs_count_lt [of qs] by (auto simp: qs_cap_def qs_inv_def word_less_nat_alt)

lemma tail_index:
  "qs_inv qs \<Longrightarrow> unat (if qs_tail qs + 1 \<ge> qs_size qs then 0 else qs_tail qs + 1) = Suc (unat (qs_tail qs)) mod unat (qs_size qs)"
  by (intro succ_index) (simp add: qs_inv_def)

lemma head_index:
  "qs_inv qs \<Longrightarrow> unat (if qs_head qs + 1 \<ge> qs_size qs then 0 else qs_head qs + 1) = Suc (unat (qs_head qs)) mod unat (qs_size qs)"
  by (intro succ_index) (simp add: qs_inv_def)

lemma queue_get_refines:
  assumes inv: "qs_inv qs"
  shows "\<exists>qs'. queue_map_get busy del qs =
      (let (r, v, l) = spec_queue_get (zero_value qs) busy del (qs_list qs) in (r, v, qs')) \<and>
    qs_inv qs' \<and> same_shape qs qs' \<and> qs_list qs' = snd (snd (spec_queue_get (zero_value qs) busy del (qs_list qs)))"
proof (cases "qs_list qs")
  case Nil
  then show ?thesis using inv
    by (intro exI [of _ qs]) (simp add: queue_map_get_def empty_iff spec_queue_get_def zero_value_def)
next
  case (Cons v l)
  then have "length (qs_list qs) = Suc (length l)" by simp
  then have c: "0 < qs_count qs" by simp
  note tf = tail_forward [OF inv c tail_index [OF inv]]
  have g: "elem_get qs (qs_tail qs) = v" using tf(3) inv Cons by (simp add: elem_get_slot qs_inv_def)
  show ?thesis
  proof (cases "busy \<or> \<not> del")
    case True
    then show ?thesis using inv Cons g
      by (intro exI [of _ qs]) (auto simp: queue_map_get_def empty_iff spec_queue_get_def)
  next
    case False
    then show ?thesis using inv Cons g tf
      by (auto simp: queue_map_get_def empty_iff spec_queue_get_def Let_def same_shape_def)
  qed
qed

lemma stack_index:
  assumes "qs_inv qs"
  defines "i \<equiv> (if qs_head qs - 1 \<ge> qs_size qs then qs_size qs - 1 else qs_head qs - 1)"
  shows "i < qs_size qs" "Suc (unat i) mod unat (qs_size qs) = unat (qs_head qs)"
proof -
  let ?n = "qs_size qs" and ?h = "qs_head qs"
  have b: "?h < ?n" "1 < unat ?n" using assms(1) by (simp_all add: qs_inv_def word_less_nat_alt)
  have n: "unat (?n - 1) = unat ?n - 1" using b by (intro unat_minus_one) auto
  show "i < ?n" "Suc (unat i) mod unat ?n = unat ?h"
  proof (atomize (full), cases "?h = 0")
    case True
    then have "i = ?n - 1" by (simp add: i_def)
    then show "i < ?n \<and> Suc (unat i) mod unat ?n = unat ?h" using n b True by (simp add: word_less_nat_alt)
  next
    case False
    then have "unat (?h - 1) = unat ?h - 1" "0 < unat ?h" by (simp_all add: unat_minus_one unat_gt_0)
    then show "i < ?n \<and> Suc (unat i) mod unat ?n = unat ?h"
      using b n by (auto simp: i_def word_less_nat_alt word_le_nat_alt)
  qed
qed

lemma stack_get_refines:
  assumes inv: "qs_inv qs"
  shows "\<exists>qs'. stack_map_get busy del qs =
      (let (r, v, l) = spec_stack_get (zero_value qs) busy del (qs_list qs) in (r, v, qs')) \<and>
    qs_inv qs' \<and> same_shape qs qs' \<and> qs_list qs' = snd (snd (spec_stack_get (zero_value qs) busy del (qs_list qs)))"
proof (cases "qs_list qs = []")
  case True
  then show ?thesis using inv
    by (intro exI [of _ qs]) (simp add: stack_map_get_def empty_iff spec_stack_get_def zero_value_def)
next
  case False
  then have "0 < length (qs_list qs)" by blast
  then have c: "0 < qs_count qs" by simp
  note hb = head_back [OF inv c stack_index(2,1) [OF inv]]
  have g: "elem_get qs (if qs_head qs - 1 \<ge> qs_size qs then qs_size qs - 1 else qs_head qs - 1) = last (qs_list qs)"
    using hb(3) elem_get_slot [OF inv stack_index(1) [OF inv]] by simp
  show ?thesis
  proof (cases "busy \<or> \<not> del")
    case True
    then show ?thesis using inv False g
      by (intro exI [of _ qs]) (auto simp: stack_map_get_def empty_iff spec_stack_get_def)
  next
    case nb: False
    then show ?thesis using inv False g hb
      by (auto simp: stack_map_get_def empty_iff spec_stack_get_def Let_def same_shape_def)
  qed
qed

lemma push_eq:
  "queue_stack_map_push_elem busy v flags qs =
     (if flags \<noteq> 0 \<and> flags \<noteq> BPF_EXIST then (- EINVAL, qs)
      else if busy then (- EBUSY, qs)
      else if queue_stack_map_is_full qs \<and> flags \<noteq> BPF_EXIST then (- E2BIG, qs)
      else let q = (if queue_stack_map_is_full qs
                    then qs\<lparr>qs_tail := (if qs_tail qs + 1 \<ge> qs_size qs then 0 else qs_tail qs + 1)\<rparr> else qs);
             p = elem_put (qs_head q) v q
           in (0, p\<lparr>qs_head := (if qs_head p + 1 \<ge> qs_size p then 0 else qs_head p + 1)\<rparr>))"
proof (cases "flags = 0 \<or> flags = BPF_EXIST")
  case True
  then have "flags AND BPF_EXIST \<noteq> 0 \<longleftrightarrow> flags = BPF_EXIST" by (auto simp: BPF_EXIST_def)
  then show ?thesis using True push_flags(1) [of flags]
    by (simp only: queue_stack_map_push_elem_def Let_def if_False)
next
  case False
  then show ?thesis using push_flags(1) [of flags]
    by (simp only: queue_stack_map_push_elem_def Let_def if_True) simp
qed

lemma push_into_room:
  assumes "qs_inv qs" "qs_count qs < qs_cap qs" "length v = unat (qs_value_size qs)"
  shows "let p = elem_put (qs_head qs) v qs; h = qs_head p + 1; q = p\<lparr>qs_head := (if h \<ge> qs_size p then 0 else h)\<rparr>
    in qs_inv q \<and> qs_list q = qs_list qs @ [v] \<and> same_shape qs q"
proof -
  have f: "qs_size (elem_put (qs_head qs) v qs) = qs_size qs" "qs_head (elem_put (qs_head qs) v qs) = qs_head qs"
    "qs_value_size (elem_put (qs_head qs) v qs) = qs_value_size qs" by (simp_all add: elem_put_def Let_def)
  have "Suc (qs_count qs) < unat (qs_size qs)" using assms(2) by (simp add: qs_cap_def)
  note hf = head_forward [OF assms(1) this assms(3) head_index [OF assms(1)]]
  show ?thesis unfolding Let_def f using hf by (auto simp: same_shape_def f)
qed

lemma push_refines:
  assumes inv: "qs_inv qs" and v: "length v = unat (qs_value_size qs)"
  shows "\<exists>qs'. queue_stack_map_push_elem busy v flags qs = (fst (spec_push (qs_cap qs) busy v flags (qs_list qs)), qs') \<and>
    qs_inv qs' \<and> same_shape qs qs' \<and> qs_list qs' = snd (spec_push (qs_cap qs) busy v flags (qs_list qs))"
proof (cases "(flags \<noteq> 0 \<and> flags \<noteq> BPF_EXIST) \<or> busy \<or> (queue_stack_map_is_full qs \<and> flags \<noteq> BPF_EXIST)")
  case True
  then show ?thesis using inv
    by (intro exI [of _ qs])
      (auto simp: push_eq spec_push_def full_iff)
next
  case ok: False
  show ?thesis
  proof (cases "queue_stack_map_is_full qs")
    case False
    then have c: "qs_count qs < qs_cap qs" using cap_pos [OF inv] full_iff [OF inv] by simp
    from push_into_room [OF inv c v] show ?thesis using ok False c
      by (auto simp: push_eq spec_push_def Let_def)
  next
    case True
    let ?q = "qs\<lparr>qs_tail := (if qs_tail qs + 1 \<ge> qs_size qs then 0 else qs_tail qs + 1)\<rparr>"
    have c: "qs_count qs = qs_cap qs" "0 < qs_count qs" using True full_iff [OF inv] cap_pos [OF inv] by simp_all
    note tf = tail_forward [OF inv c(2) tail_index [OF inv]]
    have sh: "same_shape qs ?q" by (simp add: same_shape_def)
    have "qs_count ?q = qs_count qs - 1" using tf(2) by (metis length_qs_list length_tl)
    then have "qs_count ?q < qs_cap ?q" using c same_shapeD [OF sh] by simp
    from push_into_room [OF tf(1) this, of v] show ?thesis using ok True c v tf sh
      by (auto simp: push_eq spec_push_def Let_def same_shape_def)
  qed
qed

section \<open>Sequences of operations\<close>

datatype qs_op =
    Push_Elem bool "u8 list" u64
  | Queue_Get bool bool
  | Stack_Get bool bool

definition qs_do :: "qs_op \<Rightarrow> bpf_queue_stack \<Rightarrow> (int \<times> u8 list option) \<times> bpf_queue_stack" where
  "qs_do op qs = (case op of
     Push_Elem busy v flags \<Rightarrow> (case queue_stack_map_push_elem busy v flags qs of (r, qs') \<Rightarrow> ((r, None), qs'))
   | Queue_Get busy del \<Rightarrow> (case queue_map_get busy del qs of (r, v, qs') \<Rightarrow> ((r, v), qs'))
   | Stack_Get busy del \<Rightarrow> (case stack_map_get busy del qs of (r, v, qs') \<Rightarrow> ((r, v), qs')))"

definition spec_do :: "nat \<Rightarrow> u8 list \<Rightarrow> qs_op \<Rightarrow> u8 list list \<Rightarrow> (int \<times> u8 list option) \<times> u8 list list" where
  "spec_do cap zero op l = (case op of
     Push_Elem busy v flags \<Rightarrow> (case spec_push cap busy v flags l of (r, l') \<Rightarrow> ((r, None), l'))
   | Queue_Get busy del \<Rightarrow> (case spec_queue_get zero busy del l of (r, v, l') \<Rightarrow> ((r, v), l'))
   | Stack_Get busy del \<Rightarrow> (case spec_stack_get zero busy del l of (r, v, l') \<Rightarrow> ((r, v), l')))"

primrec op_fits :: "nat \<Rightarrow> qs_op \<Rightarrow> bool" where
  "op_fits n (Push_Elem busy v flags) \<longleftrightarrow> length v = n"
| "op_fits n (Queue_Get busy del) \<longleftrightarrow> True"
| "op_fits n (Stack_Get busy del) \<longleftrightarrow> True"

text \<open>The ring simulates the bounded list, for every size of map and of value.\<close>

interpretation qs_ring: simulation qs_do "spec_do cap (replicate n 0)"
    "\<lambda>qs. qs_inv qs \<and> qs_cap qs = cap \<and> unat (qs_value_size qs) = n" qs_list "op_fits n"
  for cap n
proof (unfold_locales, goal_cases)
  case (1 qs op)
  then have inv: "qs_inv qs" and z: "zero_value qs = replicate n 0" by (simp_all add: zero_value_def)
  show ?case
  proof (cases op)
    case (Push_Elem busy v flags)
    from push_refines [OF inv, of v busy flags] 1 Push_Elem obtain qs' where
      "queue_stack_map_push_elem busy v flags qs = (fst (spec_push cap busy v flags (qs_list qs)), qs')"
      "qs_inv qs'" "same_shape qs qs'" "qs_list qs' = snd (spec_push cap busy v flags (qs_list qs))" by auto
    then show ?thesis using 1 Push_Elem same_shapeD [of qs qs'] by (simp add: qs_do_def spec_do_def case_prod_beta)
  next
    case (Queue_Get busy del)
    from queue_get_refines [OF inv, of busy del] obtain qs' where
      "queue_map_get busy del qs = (let (r, v, l) = spec_queue_get (zero_value qs) busy del (qs_list qs) in (r, v, qs'))"
      "qs_inv qs'" "same_shape qs qs'" "qs_list qs' = snd (snd (spec_queue_get (zero_value qs) busy del (qs_list qs)))" by auto
    then show ?thesis using 1 Queue_Get same_shapeD [of qs qs'] by (simp add: qs_do_def spec_do_def case_prod_beta z)
  next
    case (Stack_Get busy del)
    from stack_get_refines [OF inv, of busy del] obtain qs' where
      "stack_map_get busy del qs = (let (r, v, l) = spec_stack_get (zero_value qs) busy del (qs_list qs) in (r, v, qs'))"
      "qs_inv qs'" "same_shape qs qs'" "qs_list qs' = snd (snd (spec_stack_get (zero_value qs) busy del (qs_list qs)))" by auto
    then show ?thesis using 1 Stack_Get same_shapeD [of qs qs'] by (simp add: qs_do_def spec_do_def case_prod_beta z)
  qed
qed

lemma alloc_inv:
  assumes "max_entries \<noteq> 0" "max_entries \<noteq> - 1" "value_size \<noteq> 0"
    and "(unat max_entries + 1) * unat value_size \<le> 2 ^ 32"
    and "queue_stack_map_alloc area_ok max_entries value_size = Inr qs"
  shows "qs_inv qs" "qs_list qs = []" "qs_cap qs = unat max_entries" "qs_value_size qs = value_size"
proof -
  have m: "unat max_entries < 2 ^ 32 - 1"
  proof -
    have "unat max_entries \<noteq> unat (- 1 :: u32)" using assms(2) by (simp only: word_unat_eq_iff not_False_eq_True)
    then show ?thesis using unat_bound [of max_entries] by (simp add: unsigned_minus_1_eq_mask mask_eq_exp_minus_1)
  qed
  have p: "0 < unat max_entries" "0 < unat value_size" using assms(1,3) by (simp_all add: unat_gt_0)
  have up: "unat (ucast w :: u64) = unat w" for w :: u32
    using unat_bound [of w] by (simp add: unsigned_ucast_eq take_bit_nat_eq_self_iff)
  have s64: "unat (ucast max_entries + 1 :: u64) = unat max_entries + 1"
    using m by (simp add: unat_word_ariths up)
  have s: "unat (ucast (ucast max_entries + 1 :: u64) :: u32) = unat max_entries + 1"
    using m by (simp add: unsigned_ucast_eq s64 take_bit_nat_eq_self_iff)
  have l: "unat ((ucast max_entries + 1 :: u64) * ucast value_size) = (unat max_entries + 1) * unat value_size"
    using assms(4) by (subst unat_word_ariths) (simp add: s64 up)
  have q: "qs = \<lparr>qs_head = 0, qs_tail = 0, qs_size = ucast (ucast max_entries + 1 :: u64), qs_value_size = value_size,
      qs_elements = replicate ((unat max_entries + 1) * unat value_size) 0\<rparr>"
    using assms(5) by (auto simp: queue_stack_map_alloc_def Let_def l split: if_splits)
  show "qs_inv qs" using p assms(4) by (simp add: q qs_inv_def word_less_nat_alt s)
  show "qs_list qs = []" by (simp add: q qs_list_def qs_count_def)
  show "qs_cap qs = unat max_entries" by (simp add: q qs_cap_def s)
  show "qs_value_size qs = value_size" by (simp add: q)
qed

lemma alloc_properties:
  assumes "queue_stack_map_alloc_check flags_ok kmalloc_max max_entries key_size value_size = 0"
    and "max_entries \<noteq> - 1" "(unat max_entries + 1) * unat value_size \<le> 2 ^ 32"
    and "queue_stack_map_alloc area_ok max_entries value_size = Inr qs"
  shows "qs_inv qs \<and> qs_cap qs = unat max_entries \<and> qs_value_size qs = value_size" "qs_list qs = []"
  using assms alloc_inv [of max_entries value_size area_ok qs]
  by (auto simp: queue_stack_map_alloc_check_def errno_defs split: if_splits)

text \<open>C20: a BPF queue or stack map that was allocated with a 32-bit total size behaves on every
  sequence of pushes, pops and peeks as a bounded list: the return codes and the values handed out
  are those of the list, which appends on push (dropping the oldest element on a full map with
  BPF_EXIST, refusing with -E2BIG otherwise), takes from the front for the queue and from the back
  for the stack, and answers -EBUSY without any change when the lock cannot be had.
\<close>

theorem queue_stack_refines_list:
  assumes "queue_stack_map_alloc_check flags_ok kmalloc_max max_entries key_size value_size = 0"
    and "max_entries \<noteq> - 1" "(unat max_entries + 1) * unat value_size \<le> 2 ^ 32"
    and "queue_stack_map_alloc area_ok max_entries value_size = Inr qs"
    and "list_all (op_fits (unat value_size)) ops"
  shows "run_ops (spec_do (unat max_entries) (replicate (unat value_size) 0)) ops [] =
    (fst (run_ops qs_do ops qs), qs_list (snd (run_ops qs_do ops qs)))"
  using qs_ring.run_sim [of qs "unat max_entries" "unat value_size" ops] alloc_properties [OF assms(1-4)] assms(5)
  by simp

theorem queue_stack_refines_list_witness:
  "case queue_stack_map_alloc True 2 1 of Inr qs \<Rightarrow>
     run_ops (spec_do 2 [0]) [Push_Elem False [7] 0, Push_Elem False [8] 0, Push_Elem False [9] 2, Queue_Get False True] [] =
     (fst (run_ops qs_do [Push_Elem False [7] 0, Push_Elem False [8] 0, Push_Elem False [9] 2, Queue_Get False True] qs),
      [[9]]) | Inl e \<Rightarrow> False"
  using queue_stack_refines_list [of True 64 2 0 1 True _ "[Push_Elem False [7] 0, Push_Elem False [8] 0, Push_Elem False [9] 2, Queue_Get False True]"]
  by (simp add: queue_stack_map_alloc_def queue_stack_map_alloc_check_def Let_def spec_do_def spec_push_def spec_queue_get_def BPF_EXIST_def)

lemma spec_fill:
  "length l + length vs \<le> cap \<Longrightarrow>
   run_ops (spec_do cap z) (map (\<lambda>v. Push_Elem False v 0) vs) l = (replicate (length vs) (0, None), l @ vs)"
  by (induction vs arbitrary: l) (simp_all add: spec_do_def spec_push_def)

lemma spec_drain_queue:
  "run_ops (spec_do cap z) (replicate (length l) (Queue_Get False True)) l = (map (\<lambda>v. (0, Some v)) l, [])"
  by (induction l) (simp_all add: spec_do_def spec_queue_get_def)

lemma spec_drain_stack:
  "run_ops (spec_do cap z) (replicate (length l) (Stack_Get False True)) l = (map (\<lambda>v. (0, Some v)) (rev l), [])"
  by (induction l rule: rev_induct) (simp_all add: spec_do_def spec_stack_get_def)

text \<open>FIFO and LIFO order. On a fresh map, at most max_entries values pushed and then popped one by
  one come back all of them: in order from the queue, in reverse from the stack, every call
  returning 0.
\<close>

theorem queue_fifo_stack_lifo:
  assumes "queue_stack_map_alloc_check flags_ok kmalloc_max max_entries key_size value_size = 0"
    and "max_entries \<noteq> - 1" "(unat max_entries + 1) * unat value_size \<le> 2 ^ 32"
    and "queue_stack_map_alloc area_ok max_entries value_size = Inr qs"
    and vs: "list_all (\<lambda>v. length v = unat value_size) vs" "length vs \<le> unat max_entries"
  shows "fst (run_ops qs_do (map (\<lambda>v. Push_Elem False v 0) vs @ replicate (length vs) (Queue_Get False True)) qs) =
      replicate (length vs) (0, None) @ map (\<lambda>v. (0, Some v)) vs \<and>
    fst (run_ops qs_do (map (\<lambda>v. Push_Elem False v 0) vs @ replicate (length vs) (Stack_Get False True)) qs) =
      replicate (length vs) (0, None) @ map (\<lambda>v. (0, Some v)) (rev vs)"
proof -
  let ?c = "unat max_entries" and ?z = "replicate (unat value_size) (0 :: u8)"
  have f: "list_all (op_fits (unat value_size)) (map (\<lambda>v. Push_Elem False v 0) vs @ replicate n (Queue_Get False True))"
    "list_all (op_fits (unat value_size)) (map (\<lambda>v. Push_Elem False v 0) vs @ replicate n (Stack_Get False True))" for n
    using vs(1) by (auto simp: list_all_iff)
  have sim: "fst (run_ops (spec_do ?c ?z) ops []) = fst (run_ops qs_do ops qs)" if "list_all (op_fits (unat value_size)) ops" for ops
    using qs_ring.run_sim [of qs ?c "unat value_size" ops] alloc_properties [OF assms(1-4)] that by simp
  note fill = spec_fill [of "[]" vs ?c ?z] and q = spec_drain_queue [of ?c ?z vs] and s = spec_drain_stack [of ?c ?z vs]
  show ?thesis
    using sim [OF f(1), symmetric] sim [OF f(2), symmetric] fill q s vs(2) by (simp add: run_ops_append)
qed

theorem queue_fifo_stack_lifo_witness:
  "case queue_stack_map_alloc True 3 1 of Inr qs \<Rightarrow>
     fst (run_ops qs_do [Push_Elem False [1] 0, Push_Elem False [2] 0, Queue_Get False True, Queue_Get False True] qs) =
       [(0, None), (0, None), (0, Some [1]), (0, Some [2])] \<and>
     fst (run_ops qs_do [Push_Elem False [1] 0, Push_Elem False [2] 0, Stack_Get False True, Stack_Get False True] qs) =
       [(0, None), (0, None), (0, Some [2]), (0, Some [1])] | Inl e \<Rightarrow> False"
  using queue_fifo_stack_lifo [of True 64 3 0 1 True _ "[[1], [2]]"]
  by (simp add: queue_stack_map_alloc_def queue_stack_map_alloc_check_def Let_def)

lemma size_wrap: "(ucast (ucast (- 1 :: u32) + 1 :: u64) :: u32) = 0"
  by (simp add: ucast_eq unsigned_minus_1_eq_mask mask_eq_exp_minus_1)

text \<open>Outside the 32-bit range the map is wrong. With the largest max_entries the stored size wraps
  to 0, so the empty map counts as full and every plain push is refused; and with 64 KiB values two
  different indices, 0 and 65536, denote the same bytes although the array allocated for 65537 or
  more entries is larger than 4 GiB.
\<close>

theorem queue_stack_size_wraps:
  "(case queue_stack_map_alloc True (- 1) value_size of
      Inr qs \<Rightarrow> queue_stack_map_is_empty qs \<and> queue_stack_map_is_full qs \<and>
        queue_stack_map_push_elem False v 0 qs = (- E2BIG, qs)
    | Inl e \<Rightarrow> False) \<and>
   (case queue_stack_map_alloc True 0x20000 0x10000 of
      Inr qs \<Rightarrow> length (qs_elements qs) > 2 ^ 32 \<and>
        elem_get (elem_put 0x10000 v qs) 0 = elem_get (elem_put 0 v qs) 0
    | Inl e \<Rightarrow> False)"
  by (simp add: queue_stack_map_alloc_def Let_def queue_stack_map_is_empty_def queue_stack_map_is_full_def
      push_eq BPF_EXIST_def elem_put_def size_wrap)

end
