(* ===== verification/Id_Map.thy ===== *)
theory Id_Map
  imports Prelude "HOL-Library.Multiset"
begin

text \<open>
  Id maps of user namespaces (first half of kernel/user_namespace.c, the extents of
  include/linux/user_namespace.h, the binary search of include/linux/bsearch.h): translating ids
  between a namespace and the kernel, by a linear scan of up to five extents and by binary search
  of sorted copies above that. Both searches are shown equal to one specification and the two
  directions inverse of each other.
\<close>

section \<open>Binary search\<close>

function bsearch_loop :: "('k \<Rightarrow> 'e \<Rightarrow> int) \<Rightarrow> 'k \<Rightarrow> 'e list \<Rightarrow> nat \<Rightarrow> nat \<Rightarrow> 'e option" where
  "bsearch_loop cmp key xs base num =
     (if num = 0 then None
      else let pivot = base + num div 2; result = cmp key (xs ! pivot) in
        if result = 0 then Some (xs ! pivot)
        else if result > 0 then bsearch_loop cmp key xs (pivot + 1) ((num - 1) div 2)
        else bsearch_loop cmp key xs base (num div 2))"
  by pat_completeness auto
termination by (relation "measure (\<lambda>(cmp, key, xs, base, num). num)") auto

declare bsearch_loop.simps [simp del]

definition bsearch :: "'k \<Rightarrow> 'e list \<Rightarrow> nat \<Rightarrow> ('k \<Rightarrow> 'e \<Rightarrow> int) \<Rightarrow> 'e option" where
  "bsearch key base num cmp = bsearch_loop cmp key base 0 num"

section \<open>Extents and maps\<close>

record uid_gid_extent =
  first :: u32
  lower_first :: u32
  ecount :: u32

record uid_gid_map =
  nr_extents :: nat
  extent :: "uid_gid_extent list"
  forward :: "uid_gid_extent list"
  reverse :: "uid_gid_extent list"

definition UID_GID_MAP_MAX_BASE_EXTENTS :: nat where "UID_GID_MAP_MAX_BASE_EXTENTS = 5"
definition UID_GID_MAP_MAX_EXTENTS :: nat where "UID_GID_MAP_MAX_EXTENTS = 340"

record idmap_key =
  map_up :: bool
  key_id :: u32
  key_count :: u32

definition cmp_map_id :: "idmap_key \<Rightarrow> uid_gid_extent \<Rightarrow> int" where
  "cmp_map_id key el =
     (let id2 = key_id key + key_count key - 1;
          fst' = (if map_up key then lower_first el else first el);
          lst = fst' + ecount el - 1 in
      if key_id key \<ge> fst' \<and> key_id key \<le> lst \<and> id2 \<ge> fst' \<and> id2 \<le> lst then 0
      else if key_id key < fst' \<or> id2 < fst' then -1 else 1)"

definition map_id_range_down_max :: "nat \<Rightarrow> uid_gid_map \<Rightarrow> u32 \<Rightarrow> u32 \<Rightarrow> uid_gid_extent option" where
  "map_id_range_down_max extents m i cnt =
     bsearch \<lparr>map_up = False, key_id = i, key_count = cnt\<rparr> (forward m) extents cmp_map_id"

definition map_id_range_down_base :: "nat \<Rightarrow> uid_gid_map \<Rightarrow> u32 \<Rightarrow> u32 \<Rightarrow> uid_gid_extent option" where
  "map_id_range_down_base extents m i cnt =
     (let id2 = i + cnt - 1 in
      find (\<lambda>e. let lst = first e + ecount e - 1 in i \<ge> first e \<and> i \<le> lst \<and> id2 \<ge> first e \<and> id2 \<le> lst)
        (take extents (extent m)))"

definition map_id_range_down :: "uid_gid_map \<Rightarrow> u32 \<Rightarrow> u32 \<Rightarrow> u32" where
  "map_id_range_down m i cnt =
     (let extents = nr_extents m;
          e = (if extents \<le> UID_GID_MAP_MAX_BASE_EXTENTS then map_id_range_down_base extents m i cnt
               else map_id_range_down_max extents m i cnt)
      in case e of Some e \<Rightarrow> (i - first e) + lower_first e | None \<Rightarrow> - 1)"

definition map_id_down :: "uid_gid_map \<Rightarrow> u32 \<Rightarrow> u32" where
  "map_id_down m i = map_id_range_down m i 1"

definition map_id_up_base :: "nat \<Rightarrow> uid_gid_map \<Rightarrow> u32 \<Rightarrow> uid_gid_extent option" where
  "map_id_up_base extents m i =
     find (\<lambda>e. i \<ge> lower_first e \<and> i \<le> lower_first e + ecount e - 1) (take extents (extent m))"

definition map_id_up_max :: "nat \<Rightarrow> uid_gid_map \<Rightarrow> u32 \<Rightarrow> uid_gid_extent option" where
  "map_id_up_max extents m i =
     bsearch \<lparr>map_up = True, key_id = i, key_count = 1\<rparr> (reverse m) extents cmp_map_id"

definition map_id_up :: "uid_gid_map \<Rightarrow> u32 \<Rightarrow> u32" where
  "map_id_up m i =
     (let extents = nr_extents m;
          e = (if extents \<le> UID_GID_MAP_MAX_BASE_EXTENTS then map_id_up_base extents m i
               else map_id_up_max extents m i)
      in case e of Some e \<Rightarrow> (i - lower_first e) + first e | None \<Rightarrow> - 1)"

section \<open>Well-formed maps\<close>

definition extents_of :: "uid_gid_map \<Rightarrow> uid_gid_extent list" where
  "extents_of m = take (nr_extents m)
     (if nr_extents m \<le> UID_GID_MAP_MAX_BASE_EXTENTS then extent m else forward m)"

definition ext_ok :: "uid_gid_extent \<Rightarrow> bool" where
  "ext_ok e \<longleftrightarrow> 0 < unat (ecount e) \<and> unat (first e) + unat (ecount e) < 2 ^ 32 \<and>
     unat (lower_first e) + unat (ecount e) < 2 ^ 32"

definition upper_range :: "uid_gid_extent \<Rightarrow> nat set" where
  "upper_range e = {unat (first e) ..< unat (first e) + unat (ecount e)}"

definition lower_range :: "uid_gid_extent \<Rightarrow> nat set" where
  "lower_range e = {unat (lower_first e) ..< unat (lower_first e) + unat (ecount e)}"

definition ext_apart :: "uid_gid_extent \<Rightarrow> uid_gid_extent \<Rightarrow> bool" where
  "ext_apart a b \<longleftrightarrow> upper_range a \<inter> upper_range b = {} \<and> lower_range a \<inter> lower_range b = {}"

definition exts_ok :: "uid_gid_extent list \<Rightarrow> bool" where
  "exts_ok es \<longleftrightarrow> list_all ext_ok es \<and> sorted_wrt ext_apart es"

definition map_wf :: "uid_gid_map \<Rightarrow> bool" where
  "map_wf m \<longleftrightarrow> exts_ok (extents_of m) \<and> length (extents_of m) = nr_extents m \<and>
     (nr_extents m > UID_GID_MAP_MAX_BASE_EXTENTS \<longrightarrow>
        length (forward m) = nr_extents m \<and>
        sorted_wrt (\<lambda>a b. first a \<le> first b) (forward m) \<and>
        mset (reverse m) = mset (forward m) \<and>
        sorted_wrt (\<lambda>a b. lower_first a \<le> lower_first b) (reverse m))"

section \<open>The binary search finds what the linear one finds\<close>

lemma find_none: "find P xs = None \<longleftrightarrow> (\<forall>x \<in> set xs. \<not> P x)"
  by (induction xs) auto

lemma find_nth_first:
  assumes "i < length xs" "P (xs ! i)" "\<And>j. j < i \<Longrightarrow> \<not> P (xs ! j)"
  shows "find P xs = Some (xs ! i)"
  using assms
proof (induction xs arbitrary: i)
  case (Cons x xs)
  show ?case
  proof (cases i)
    case (Suc k)
    have "\<not> P x" using Cons.prems(3) [of 0] Suc by simp
    moreover have "find P xs = Some (xs ! k)"
    proof (rule Cons.IH)
      show "\<not> P (xs ! j)" if "j < k" for j using Cons.prems(3) [of "Suc j"] that Suc by simp
    qed (use Cons.prems Suc in simp_all)
    ultimately show ?thesis using Suc by simp
  qed (use Cons.prems in simp)
qed simp

definition search_mono :: "('e \<Rightarrow> int) \<Rightarrow> 'e list \<Rightarrow> bool" where
  "search_mono c xs \<longleftrightarrow> sorted_wrt (\<lambda>a b. c b \<ge> 0 \<longrightarrow> c a > 0) xs"

lemma bsearch_loop_correct:
  assumes "search_mono (cmp key) xs" "base + num \<le> length xs"
    and "\<forall>j < base. cmp key (xs ! j) > 0" "\<forall>j. base + num \<le> j \<and> j < length xs \<longrightarrow> cmp key (xs ! j) < 0"
  shows "bsearch_loop cmp key xs base num = find (\<lambda>e. cmp key e = 0) xs"
  using assms
proof (induction num arbitrary: base rule: less_induct)
  case (less num)
  have mono: "cmp key (xs ! j) \<ge> 0 \<Longrightarrow> cmp key (xs ! i) > 0" if "i < j" "j < length xs" for i j
    using less.prems(1) that by (auto simp: search_mono_def sorted_wrt_iff_nth_less)
  show ?case
  proof (cases "num = 0")
    case True
    have "cmp key (xs ! j) \<noteq> 0" if "j < length xs" for j
      using less.prems(3,4) True that by (cases "j < base") (auto simp: not_less)
    then have "find (\<lambda>e. cmp key e = 0) xs = None" by (auto simp: find_none in_set_conv_nth)
    then show ?thesis using True by (simp add: bsearch_loop.simps)
  next
    case False
    let ?p = "base + num div 2"
    have p: "?p < length xs" "?p < base + num" using False less.prems(2) by auto
    consider "cmp key (xs ! ?p) = 0" | "cmp key (xs ! ?p) > 0" | "cmp key (xs ! ?p) < 0" by linarith
    then show ?thesis
    proof cases
      case 1
      have "find (\<lambda>e. cmp key e = 0) xs = Some (xs ! ?p)"
        using p 1 mono [of _ ?p] by (intro find_nth_first) fastforce+
      then show ?thesis using 1 False by (subst bsearch_loop.simps) (simp add: Let_def)
    next
      case 2
      have "\<forall>j < ?p + 1. cmp key (xs ! j) > 0"
        using 2 mono [of _ ?p] p by (metis add.commute less_Suc_eq less_imp_le plus_1_eq_Suc)
      moreover have e: "?p + 1 + (num - 1) div 2 = base + num" using False by linarith
      ultimately have "bsearch_loop cmp key xs (?p + 1) ((num - 1) div 2) = find (\<lambda>e. cmp key e = 0) xs"
        using False less.prems by (intro less.IH) (auto simp only: e)
      then show ?thesis using 2 False by (subst bsearch_loop.simps) (simp add: Let_def)
    next
      case 3
      have "cmp key (xs ! j) < 0" if "?p \<le> j" "j < length xs" for j
        using 3 mono [of ?p j] that by (cases "j = ?p") (force simp: not_le [symmetric])+
      then have "bsearch_loop cmp key xs base (num div 2) = find (\<lambda>e. cmp key e = 0) xs"
        using False less.prems p by (intro less.IH) auto
      then show ?thesis using 3 False by (subst bsearch_loop.simps) (simp add: Let_def)
    qed
  qed
qed

lemma bsearch_correct:
  "search_mono (cmp key) xs \<Longrightarrow> bsearch key xs (length xs) cmp = find (\<lambda>e. cmp key e = 0) xs"
  by (simp add: bsearch_def bsearch_loop_correct)

section \<open>Extents as intervals\<close>

lemma last_no_wrap:
  assumes "0 < unat (c :: u32)" "unat f + unat c < 2 ^ 32"
  shows "unat (f + c - 1) = unat f + unat c - 1"
proof -
  have "unat (f + c) = unat f + unat c" using assms by (simp add: unat_word_ariths)
  moreover from this have "f + c \<noteq> 0" using assms(1) by (metis add_is_0 unsigned_0 less_numeral_extra(3))
  ultimately show ?thesis by (simp add: unat_minus_one)
qed

lemma in_interval:
  assumes "0 < unat (c :: u32)" "unat f + unat c < 2 ^ 32"
  shows "(i \<ge> f \<and> i \<le> f + c - 1) \<longleftrightarrow> unat i \<in> {unat f ..< unat f + unat c}"
  using last_no_wrap [OF assms] assms by (auto simp: word_le_nat_alt)

lemma in_upper: "ext_ok e \<Longrightarrow> (i \<ge> first e \<and> i \<le> first e + ecount e - 1) \<longleftrightarrow> unat i \<in> upper_range e"
  by (simp only: ext_ok_def upper_range_def in_interval)

lemma in_lower: "ext_ok e \<Longrightarrow> (i \<ge> lower_first e \<and> i \<le> lower_first e + ecount e - 1) \<longleftrightarrow> unat i \<in> lower_range e"
  by (simp only: ext_ok_def lower_range_def in_interval)

lemma ext_apart_sym: "ext_apart a b \<longleftrightarrow> ext_apart b a"
  by (auto simp: ext_apart_def)

lemma exts_ok_mset: "mset xs = mset ys \<Longrightarrow> exts_ok xs \<longleftrightarrow> exts_ok ys"
proof -
  assume m: "mset xs = mset ys"
  have "sorted_wrt ext_apart as" if "sorted_wrt ext_apart bs" "mset as = mset bs" for as bs
    using that
  proof (induction as arbitrary: bs)
    case (Cons a as)
    from Cons.prems(2) have "a \<in> set bs" by (metis list.set_intros(1) mset_eq_setD)
    then obtain us vs where b: "bs = us @ a # vs" by (meson split_list)
    then have ms: "mset as = mset (us @ vs)" using Cons.prems(2) by simp
    have w: "sorted_wrt ext_apart (us @ vs)" "\<forall>x \<in> set (us @ vs). ext_apart a x"
      using Cons.prems(1) ext_apart_sym by (auto simp: b sorted_wrt_append)
    then have "sorted_wrt ext_apart as" using ms by (intro Cons.IH)
    moreover have "\<forall>x \<in> set as. ext_apart a x" using w(2) mset_eq_setD [OF ms] by simp
    ultimately show ?case by simp
  qed simp
  then show ?thesis using m by (auto simp: exts_ok_def list_all_iff dest: mset_eq_setD)
qed

lemma exts_unique:
  assumes "exts_ok es" "a \<in> set es" "b \<in> set es"
    and "x \<in> upper_range a \<and> x \<in> upper_range b \<or> x \<in> lower_range a \<and> x \<in> lower_range b"
  shows "a = b"
proof (rule ccontr)
  assume "a \<noteq> b"
  have "ext_apart a b"
    using assms(1-3) \<open>a \<noteq> b\<close> ext_apart_sym [of a b]
    by (induction es) (auto simp: exts_ok_def)
  then show False using assms(4) by (auto simp: ext_apart_def)
qed

lemma find_SomeD: "find P es = Some e \<Longrightarrow> e \<in> set es \<and> P e"
  by (induction es) (auto split: if_splits)

lemma find_unique:
  assumes "e \<in> set es" "P e" "\<And>e'. e' \<in> set es \<Longrightarrow> P e' \<Longrightarrow> e' = e"
  shows "find P es = Some e"
proof (cases "find P es")
  case None
  then show ?thesis using assms(1,2) by (auto simp: find_none)
next
  case (Some e')
  then have "e' \<in> set es" "P e'" by (auto dest: find_SomeD)
  then show ?thesis using assms(3) [of e'] Some by simp
qed

lemma find_cong_set: "(\<And>e. e \<in> set es \<Longrightarrow> P e = Q e) \<Longrightarrow> find P es = find Q es"
  by (induction es) auto

section \<open>Specification of the lookups\<close>

definition down_ext :: "uid_gid_extent list \<Rightarrow> u32 \<Rightarrow> u32 \<Rightarrow> uid_gid_extent option" where
  "down_ext es i cnt = find (\<lambda>e. unat i \<in> upper_range e \<and> unat (i + cnt - 1) \<in> upper_range e) es"

definition up_ext :: "uid_gid_extent list \<Rightarrow> u32 \<Rightarrow> uid_gid_extent option" where
  "up_ext es i = find (\<lambda>e. unat i \<in> lower_range e) es"

lemma map_wf_ext: "map_wf m \<Longrightarrow> e \<in> set (extents_of m) \<Longrightarrow> ext_ok e"
  by (simp add: map_wf_def exts_ok_def list_all_iff)

lemma cmp_down_zero:
  "ext_ok e \<Longrightarrow> cmp_map_id \<lparr>map_up = False, key_id = i, key_count = c\<rparr> e = 0 \<longleftrightarrow>
     unat i \<in> upper_range e \<and> unat (i + c - 1) \<in> upper_range e"
  using in_upper [of e i] in_upper [of e "i + c - 1"] by (auto simp: cmp_map_id_def Let_def)

lemma cmp_up_zero:
  "ext_ok e \<Longrightarrow> cmp_map_id \<lparr>map_up = True, key_id = i, key_count = 1\<rparr> e = 0 \<longleftrightarrow> unat i \<in> lower_range e"
  using in_lower [of e i] by (auto simp: cmp_map_id_def Let_def)

text \<open>Extents that are apart and ordered by their start are searchable.\<close>

lemma cmp_mono:
  assumes a: "0 < unat (ecount a)" "unat fa + unat (ecount a) < 2 ^ 32"
    and b: "0 < unat (ecount b)"
    and le: "fa \<le> fb" and disj: "{unat fa ..< unat fa + unat (ecount a)} \<inter> {unat fb ..< unat fb + unat (ecount b)} = {}"
    and k: "fa = (if map_up key then lower_first a else first a)" "fb = (if map_up key then lower_first b else first b)"
    and c: "cmp_map_id key b \<ge> 0"
  shows "cmp_map_id key a > 0"
proof -
  have lt: "unat fa + unat (ecount a) \<le> unat fb"
  proof (rule ccontr)
    assume "\<not> ?thesis"
    then have "unat fb \<in> {unat fa ..< unat fa + unat (ecount a)} \<inter> {unat fb ..< unat fb + unat (ecount b)}"
      using le b by (auto simp: word_le_nat_alt)
    then show False using disj by blast
  qed
  have la: "fa + ecount a - 1 < fb" using last_no_wrap [OF a] lt a by (simp add: word_less_nat_alt)
  from c k(2) have "key_id key \<ge> fb" "key_id key + key_count key - 1 \<ge> fb"
    by (auto simp: cmp_map_id_def Let_def split: if_splits)
  then show ?thesis using la le k(1) by (auto simp: cmp_map_id_def Let_def)
qed

lemma search_mono_down:
  assumes "exts_ok es" "sorted_wrt (\<lambda>a b. first a \<le> first b) es"
  shows "search_mono (cmp_map_id \<lparr>map_up = False, key_id = i, key_count = c\<rparr>) es"
  unfolding search_mono_def
proof (rule sorted_wrt_mono_rel [of _ "\<lambda>a b. first a \<le> first b \<and> ext_apart a b"])
  show "sorted_wrt (\<lambda>a b. first a \<le> first b \<and> ext_apart a b) es"
    using assms by (induction es) (auto simp: exts_ok_def)
  show "0 \<le> cmp_map_id \<lparr>map_up = False, key_id = i, key_count = c\<rparr> b \<longrightarrow> 0 < cmp_map_id \<lparr>map_up = False, key_id = i, key_count = c\<rparr> a"
    if "a \<in> set es" "b \<in> set es" "first a \<le> first b \<and> ext_apart a b" for a b
  proof
    have ok: "ext_ok a" "ext_ok b" using that assms(1) by (simp_all add: exts_ok_def list_all_iff)
    have dj: "upper_range a \<inter> upper_range b = {}" using that by (simp add: ext_apart_def)
    show "0 < cmp_map_id \<lparr>map_up = False, key_id = i, key_count = c\<rparr> a"
      if "0 \<le> cmp_map_id \<lparr>map_up = False, key_id = i, key_count = c\<rparr> b"
      by (rule cmp_mono [OF _ _ _ _ dj [unfolded upper_range_def] _ _ that])
        (use ok \<open>first a \<le> first b \<and> ext_apart a b\<close> in \<open>simp_all add: ext_ok_def\<close>)
  qed
qed

lemma search_mono_up:
  assumes "exts_ok es" "sorted_wrt (\<lambda>a b. lower_first a \<le> lower_first b) es"
  shows "search_mono (cmp_map_id \<lparr>map_up = True, key_id = i, key_count = c\<rparr>) es"
  unfolding search_mono_def
proof (rule sorted_wrt_mono_rel [of _ "\<lambda>a b. lower_first a \<le> lower_first b \<and> ext_apart a b"])
  show "sorted_wrt (\<lambda>a b. lower_first a \<le> lower_first b \<and> ext_apart a b) es"
    using assms by (induction es) (auto simp: exts_ok_def)
  show "0 \<le> cmp_map_id \<lparr>map_up = True, key_id = i, key_count = c\<rparr> b \<longrightarrow> 0 < cmp_map_id \<lparr>map_up = True, key_id = i, key_count = c\<rparr> a"
    if "a \<in> set es" "b \<in> set es" "lower_first a \<le> lower_first b \<and> ext_apart a b" for a b
  proof
    have ok: "ext_ok a" "ext_ok b" using that assms(1) by (simp_all add: exts_ok_def list_all_iff)
    have dj: "lower_range a \<inter> lower_range b = {}" using that by (simp add: ext_apart_def)
    show "0 < cmp_map_id \<lparr>map_up = True, key_id = i, key_count = c\<rparr> a"
      if "0 \<le> cmp_map_id \<lparr>map_up = True, key_id = i, key_count = c\<rparr> b"
      by (rule cmp_mono [OF _ _ _ _ dj [unfolded lower_range_def] _ _ that])
        (use ok \<open>lower_first a \<le> lower_first b \<and> ext_apart a b\<close> in \<open>simp_all add: ext_ok_def\<close>)
  qed
qed

section \<open>Both searches meet the specification\<close>

lemma range_down_max_spec:
  assumes wf: "map_wf m" and big: "nr_extents m > UID_GID_MAP_MAX_BASE_EXTENTS"
  shows "map_id_range_down_max (nr_extents m) m i c = down_ext (forward m) i c"
proof -
  have es: "extents_of m = forward m" and w: "exts_ok (forward m)" "length (forward m) = nr_extents m"
      "sorted_wrt (\<lambda>a b. first a \<le> first b) (forward m)"
    using wf big by (auto simp: map_wf_def extents_of_def)
  have "map_id_range_down_max (nr_extents m) m i c = find (\<lambda>e. cmp_map_id \<lparr>map_up = False, key_id = i, key_count = c\<rparr> e = 0) (forward m)"
    unfolding map_id_range_down_max_def w(2) [symmetric]
    by (rule bsearch_correct) (rule search_mono_down [OF w(1,3)])
  also have "\<dots> = down_ext (forward m) i c"
    unfolding down_ext_def by (rule find_cong_set) (use map_wf_ext [OF wf] cmp_down_zero es in auto)
  finally show ?thesis .
qed

lemma range_down_base_spec:
  "list_all ext_ok (take n (extent m)) \<Longrightarrow> map_id_range_down_base n m i c = down_ext (take n (extent m)) i c"
  unfolding map_id_range_down_base_def down_ext_def Let_def list_all_iff
  by (rule find_cong_set) (use in_upper in blast)

lemma range_down_spec:
  assumes wf: "map_wf m"
  shows "map_id_range_down m i c =
    (case down_ext (extents_of m) i c of Some e \<Rightarrow> (i - first e) + lower_first e | None \<Rightarrow> - 1)"
proof (cases "nr_extents m \<le> UID_GID_MAP_MAX_BASE_EXTENTS")
  case True
  then have "map_id_range_down_base (nr_extents m) m i c = down_ext (extents_of m) i c"
    using wf range_down_base_spec [of "nr_extents m" m] by (simp add: extents_of_def map_wf_def exts_ok_def)
  then show ?thesis using True by (simp add: map_id_range_down_def)
next
  case False
  then show ?thesis using range_down_max_spec [OF wf, of i c] wf by (simp add: map_id_range_down_def extents_of_def map_wf_def)
qed

lemma find_mset:
  assumes "mset xs = mset ys" "exts_ok ys"
  shows "up_ext xs i = up_ext ys i"
proof (cases "up_ext ys i")
  case None
  then have "up_ext xs i = None" using mset_eq_setD [OF assms(1)] by (simp add: up_ext_def find_none)
  then show ?thesis using None by simp
next
  case (Some e)
  then have e: "e \<in> set ys" "unat i \<in> lower_range e" by (auto simp: up_ext_def dest: find_SomeD)
  have "up_ext xs i = Some e" unfolding up_ext_def
    using e mset_eq_setD [OF assms(1)] exts_unique [OF assms(2)] by (intro find_unique) auto
  then show ?thesis using Some by simp
qed

lemma up_max_spec:
  assumes wf: "map_wf m" and big: "nr_extents m > UID_GID_MAP_MAX_BASE_EXTENTS"
  shows "map_id_up_max (nr_extents m) m i = up_ext (forward m) i"
proof -
  have es: "extents_of m = forward m" and w: "exts_ok (forward m)" "mset (reverse m) = mset (forward m)"
      "sorted_wrt (\<lambda>a b. lower_first a \<le> lower_first b) (reverse m)" "length (forward m) = nr_extents m"
    using wf big by (auto simp: map_wf_def extents_of_def)
  have r: "exts_ok (reverse m)" "length (reverse m) = nr_extents m" "set (reverse m) = set (forward m)"
    using w exts_ok_mset [OF w(2)] mset_eq_length [OF w(2)] mset_eq_setD [OF w(2)] by simp_all
  have "map_id_up_max (nr_extents m) m i = find (\<lambda>e. cmp_map_id \<lparr>map_up = True, key_id = i, key_count = 1\<rparr> e = 0) (reverse m)"
    unfolding map_id_up_max_def r(2) [symmetric]
    by (rule bsearch_correct) (rule search_mono_up [OF r(1) w(3)])
  also have "\<dots> = up_ext (reverse m) i"
    unfolding up_ext_def by (rule find_cong_set) (use map_wf_ext [OF wf] cmp_up_zero es r(3) in auto)
  also have "\<dots> = up_ext (forward m) i" by (rule find_mset [OF w(2,1)])
  finally show ?thesis .
qed

lemma up_base_spec:
  "list_all ext_ok (take n (extent m)) \<Longrightarrow> map_id_up_base n m i = up_ext (take n (extent m)) i"
  unfolding map_id_up_base_def up_ext_def list_all_iff
  by (rule find_cong_set) (use in_lower in blast)

lemma up_spec:
  assumes wf: "map_wf m"
  shows "map_id_up m i =
    (case up_ext (extents_of m) i of Some e \<Rightarrow> (i - lower_first e) + first e | None \<Rightarrow> - 1)"
proof (cases "nr_extents m \<le> UID_GID_MAP_MAX_BASE_EXTENTS")
  case True
  then have "map_id_up_base (nr_extents m) m i = up_ext (extents_of m) i"
    using wf up_base_spec [of "nr_extents m" m] by (simp add: extents_of_def map_wf_def exts_ok_def)
  then show ?thesis using True by (simp add: map_id_up_def)
next
  case False
  then show ?thesis using up_max_spec [OF wf, of i] wf by (simp add: map_id_up_def extents_of_def map_wf_def)
qed

section \<open>The two directions are inverse\<close>

lemma shift_no_wrap:
  assumes "unat (i :: u32) \<in> {unat f ..< unat f + unat c}" "unat l + unat c < 2 ^ 32"
  shows "unat ((i - f) + l) = unat i - unat f + unat l" "(i - f) + l \<noteq> - 1"
proof -
  have s: "unat (i - f) = unat i - unat f" using assms(1) by (simp add: unat_sub word_le_nat_alt)
  then show e: "unat ((i - f) + l) = unat i - unat f + unat l"
    using assms by (subst unat_word_ariths) auto
  have "unat ((i - f) + l) < 2 ^ 32 - 1" using assms by (auto simp: e)
  moreover have "unat (- 1 :: u32) = 2 ^ 32 - 1" by (simp add: unsigned_minus_1_eq_mask mask_eq_exp_minus_1)
  ultimately show "(i - f) + l \<noteq> - 1" by (metis less_irrefl)
qed

lemma down_cases:
  assumes wf: "map_wf m"
  obtains (mapped) e where "e \<in> set (extents_of m)" "unat i \<in> upper_range e"
      "map_id_down m i = (i - first e) + lower_first e" "map_id_down m i \<noteq> - 1"
      "unat (map_id_down m i) \<in> lower_range e"
  | (unmapped) "map_id_down m i = - 1" "\<forall>e \<in> set (extents_of m). unat i \<notin> upper_range e"
proof (cases "down_ext (extents_of m) i 1")
  case None
  then have "\<forall>e \<in> set (extents_of m). unat i \<notin> upper_range e" by (simp add: down_ext_def find_none)
  moreover have "map_id_down m i = - 1" using None range_down_spec [OF wf, of i 1] by (simp add: map_id_down_def)
  ultimately show ?thesis using unmapped by blast
next
  case (Some e)
  then have e: "e \<in> set (extents_of m)" "unat i \<in> upper_range e" by (auto simp: down_ext_def dest: find_SomeD)
  have d: "map_id_down m i = (i - first e) + lower_first e"
    using Some range_down_spec [OF wf, of i 1] by (simp add: map_id_down_def)
  note sh = shift_no_wrap [of i "first e" "ecount e" "lower_first e"]
  have ok: "ext_ok e" using map_wf_ext [OF wf e(1)] .
  show ?thesis using e d sh ok by (intro mapped [of e]) (auto simp: upper_range_def lower_range_def ext_ok_def)
qed

lemma up_cases:
  assumes wf: "map_wf m"
  obtains (mapped) e where "e \<in> set (extents_of m)" "unat k \<in> lower_range e"
      "map_id_up m k = (k - lower_first e) + first e" "map_id_up m k \<noteq> - 1"
      "unat (map_id_up m k) \<in> upper_range e"
  | (unmapped) "map_id_up m k = - 1" "\<forall>e \<in> set (extents_of m). unat k \<notin> lower_range e"
proof (cases "up_ext (extents_of m) k")
  case None
  then have "\<forall>e \<in> set (extents_of m). unat k \<notin> lower_range e" by (simp add: up_ext_def find_none)
  moreover have "map_id_up m k = - 1" using None up_spec [OF wf, of k] by simp
  ultimately show ?thesis using unmapped by blast
next
  case (Some e)
  then have e: "e \<in> set (extents_of m)" "unat k \<in> lower_range e" by (auto simp: up_ext_def dest: find_SomeD)
  have d: "map_id_up m k = (k - lower_first e) + first e"
    using Some up_spec [OF wf, of k] by simp
  note sh = shift_no_wrap [of k "lower_first e" "ecount e" "first e"]
  have ok: "ext_ok e" using map_wf_ext [OF wf e(1)] .
  show ?thesis using e d sh ok by (intro mapped [of e]) (auto simp: upper_range_def lower_range_def ext_ok_def)
qed

lemma up_of_down:
  assumes wf: "map_wf m" and "map_id_down m i \<noteq> - 1"
  shows "map_id_up m (map_id_down m i) = i"
  using wf
proof (cases rule: down_cases [of m i])
  case (mapped e)
  from wf show ?thesis
  proof (cases rule: up_cases [of m "map_id_down m i"])
    case m2: (mapped e')
    have "e' = e" using exts_unique [of "extents_of m" e' e "unat (map_id_down m i)"] mapped m2 wf by (simp add: map_wf_def)
    then show ?thesis using mapped m2 by simp
  qed (use mapped in auto)
qed (use assms in simp)

lemma down_of_up:
  assumes wf: "map_wf m" and "map_id_up m k \<noteq> - 1"
  shows "map_id_down m (map_id_up m k) = k"
  using wf
proof (cases rule: up_cases [of m k])
  case (mapped e)
  from wf show ?thesis
  proof (cases rule: down_cases [of m "map_id_up m k"])
    case m2: (mapped e')
    have "e' = e" using exts_unique [of "extents_of m" e' e "unat (map_id_up m k)"] mapped m2 wf by (simp add: map_wf_def)
    then show ?thesis using mapped m2 by simp
  qed (use mapped in auto)
qed (use assms in simp)

section \<open>Properties\<close>

text \<open>C26: in a map of more than five extents the binary searches give the very extent the linear scans of
  the same extents give, downwards for a range of ids and upwards for a kernel id.\<close>

theorem idmap_search_equals_scan:
  assumes "map_wf m" "nr_extents m > UID_GID_MAP_MAX_BASE_EXTENTS"
  shows "map_id_range_down_max (nr_extents m) m i c = map_id_range_down_base (nr_extents m) (m\<lparr>extent := forward m\<rparr>) i c \<and>
    map_id_up_max (nr_extents m) m k = map_id_up_base (nr_extents m) (m\<lparr>extent := forward m\<rparr>) k"
proof -
  have f: "take (nr_extents m) (forward m) = forward m" "list_all ext_ok (forward m)"
    using assms by (auto simp: map_wf_def extents_of_def exts_ok_def)
  show ?thesis
    using range_down_max_spec [OF assms] up_max_spec [OF assms] f
      range_down_base_spec [of "nr_extents m" "m\<lparr>extent := forward m\<rparr>"] up_base_spec [of "nr_extents m" "m\<lparr>extent := forward m\<rparr>"]
    by simp
qed

theorem idmap_search_equals_scan_witness:
  "let es = map (\<lambda>n. \<lparr>first = 10 * n, lower_first = 100 * n, ecount = 5\<rparr>) [0, 1, 2, 3, 4, 5];
       m = \<lparr>nr_extents = 6, extent = [], forward = es, reverse = es\<rparr>
   in map_id_range_down_max 6 m 43 1 = map_id_range_down_base 6 (m\<lparr>extent := es\<rparr>) 43 1 \<and>
      map_id_up_max 6 m 404 = map_id_up_base 6 (m\<lparr>extent := es\<rparr>) 404"
  using idmap_search_equals_scan [of "\<lparr>nr_extents = 6, extent = [],
      forward = map (\<lambda>n. \<lparr>first = 10 * n, lower_first = 100 * n, ecount = 5\<rparr>) [0, 1, 2, 3, 4, 5],
      reverse = map (\<lambda>n. \<lparr>first = 10 * n, lower_first = 100 * n, ecount = 5\<rparr>) [0, 1, 2, 3, 4, 5]\<rparr>" 43 1 404]
  by (simp add: map_wf_def extents_of_def exts_ok_def ext_ok_def ext_apart_def upper_range_def lower_range_def
      UID_GID_MAP_MAX_BASE_EXTENTS_def)

end
