(* ===== verification/User_Ns.thy ===== *)
theory User_Ns
  imports Id_Map
begin

text \<open>
  User namespaces (second half of kernel/user_namespace.c): installing an id map by writing to
  /proc/<pid>/uid_map and its siblings, with the checks of the text, of overlaps, of permission
  and of the parent's map; creating a namespace; the setgroups switch. The namespaces are a store
  from identities to records. String scanning, \<open>sort\<close>, allocation and capabilities are
  parameters, collected in the record of one write.
\<close>

section \<open>Namespaces and id conversion\<close>

record user_namespace =
  uid_map :: uid_gid_map
  gid_map :: uid_gid_map
  projid_map :: uid_gid_map
  ns_parent :: "nat option"
  ns_level :: nat
  ns_owner :: u32
  ns_group :: u32
  ns_flags :: u64
  parent_could_setfcap :: bool

type_synonym namespaces = "nat \<Rightarrow> user_namespace option"

definition make_kuid :: "user_namespace \<Rightarrow> u32 \<Rightarrow> u32" where "make_kuid ns uid = map_id_down (uid_map ns) uid"
definition from_kuid :: "user_namespace \<Rightarrow> u32 \<Rightarrow> u32" where "from_kuid targ kuid = map_id_up (uid_map targ) kuid"
definition make_kgid :: "user_namespace \<Rightarrow> u32 \<Rightarrow> u32" where "make_kgid ns gid = map_id_down (gid_map ns) gid"
definition from_kgid :: "user_namespace \<Rightarrow> u32 \<Rightarrow> u32" where "from_kgid targ kgid = map_id_up (gid_map targ) kgid"
definition make_kprojid :: "user_namespace \<Rightarrow> u32 \<Rightarrow> u32" where "make_kprojid ns i = map_id_down (projid_map ns) i"
definition from_kprojid :: "user_namespace \<Rightarrow> u32 \<Rightarrow> u32" where "from_kprojid targ k = map_id_up (projid_map targ) k"

definition from_kuid_munged :: "u32 \<Rightarrow> user_namespace \<Rightarrow> u32 \<Rightarrow> u32" where
  "from_kuid_munged overflowuid targ kuid =
     (let uid = from_kuid targ kuid in if uid = - 1 then overflowuid else uid)"

definition from_kgid_munged :: "u32 \<Rightarrow> user_namespace \<Rightarrow> u32 \<Rightarrow> u32" where
  "from_kgid_munged overflowgid targ kgid =
     (let gid = from_kgid targ kgid in if gid = - 1 then overflowgid else gid)"

definition OVERFLOW_PROJID :: u32 where "OVERFLOW_PROJID = 65534"

definition from_kprojid_munged :: "user_namespace \<Rightarrow> u32 \<Rightarrow> u32" where
  "from_kprojid_munged targ k =
     (let i = from_kprojid targ k in if i = - 1 then OVERFLOW_PROJID else i)"

definition uid_valid :: "u32 \<Rightarrow> bool" where "uid_valid kuid \<longleftrightarrow> kuid \<noteq> - 1"
definition gid_valid :: "u32 \<Rightarrow> bool" where "gid_valid kgid \<longleftrightarrow> kgid \<noteq> - 1"
definition kuid_has_mapping :: "user_namespace \<Rightarrow> u32 \<Rightarrow> bool" where "kuid_has_mapping ns uid \<longleftrightarrow> from_kuid ns uid \<noteq> - 1"
definition kgid_has_mapping :: "user_namespace \<Rightarrow> u32 \<Rightarrow> bool" where "kgid_has_mapping ns gid \<longleftrightarrow> from_kgid ns gid \<noteq> - 1"

text \<open>Printing a map: the lower ids as the reader's namespace sees them.\<close>

definition lower_ns_of :: "namespaces \<Rightarrow> nat \<Rightarrow> nat \<Rightarrow> nat" where
  "lower_ns_of nss ns seq_ns =
     (if seq_ns = ns then (case nss seq_ns of Some n \<Rightarrow> (case ns_parent n of Some p \<Rightarrow> p | None \<Rightarrow> seq_ns) | None \<Rightarrow> seq_ns)
      else seq_ns)"

definition uid_m_show :: "user_namespace \<Rightarrow> uid_gid_extent \<Rightarrow> u32 \<times> u32 \<times> u32" where
  "uid_m_show lower_ns e = (first e, from_kuid lower_ns (lower_first e), ecount e)"
definition gid_m_show :: "user_namespace \<Rightarrow> uid_gid_extent \<Rightarrow> u32 \<times> u32 \<times> u32" where
  "gid_m_show lower_ns e = (first e, from_kgid lower_ns (lower_first e), ecount e)"
definition projid_m_show :: "user_namespace \<Rightarrow> uid_gid_extent \<Rightarrow> u32 \<times> u32 \<times> u32" where
  "projid_m_show lower_ns e = (first e, from_kprojid lower_ns (lower_first e), ecount e)"

definition m_start :: "nat \<Rightarrow> uid_gid_map \<Rightarrow> uid_gid_extent option" where
  "m_start pos m =
     (let extents = nr_extents m in
      if pos \<ge> extents then None
      else if extents \<le> UID_GID_MAP_MAX_BASE_EXTENTS then Some (extent m ! pos) else Some (forward m ! pos))"

section \<open>Building a map\<close>

definition CAP_SETGID :: int where "CAP_SETGID = 6"
definition CAP_SETUID :: int where "CAP_SETUID = 7"
definition CAP_SETFCAP :: int where "CAP_SETFCAP = 31"
definition CAP_LAST_CAP :: int where "CAP_LAST_CAP = 40"
definition cap_valid :: "int \<Rightarrow> bool" where "cap_valid x \<longleftrightarrow> x \<ge> 0 \<and> x \<le> CAP_LAST_CAP"
definition USERNS_SETGROUPS_ALLOWED :: u64 where "USERNS_SETGROUPS_ALLOWED = 1"
definition PAGE_SIZE :: nat where "PAGE_SIZE = 4096"

definition mappings_overlap :: "uid_gid_map \<Rightarrow> uid_gid_extent \<Rightarrow> bool" where
  "mappings_overlap new_map e =
     (let upper_last = first e + ecount e - 1; lower_last = lower_first e + ecount e - 1;
          prevs = take (nr_extents new_map)
            (if nr_extents new_map \<le> UID_GID_MAP_MAX_BASE_EXTENTS then extent new_map else forward new_map)
      in list_ex (\<lambda>prev.
           (first prev \<le> upper_last \<and> first prev + ecount prev - 1 \<ge> first e) \<or>
           (lower_first prev \<le> lower_last \<and> lower_first prev + ecount prev - 1 \<ge> lower_first e)) prevs)"

text \<open>The arrays hold the entries written so far; the sixth entry moves them to the allocated one.\<close>

definition insert_extent :: "bool \<Rightarrow> uid_gid_map \<Rightarrow> uid_gid_extent \<Rightarrow> int \<times> uid_gid_map" where
  "insert_extent kmalloc_ok m e =
     (if nr_extents m = UID_GID_MAP_MAX_BASE_EXTENTS \<and> \<not> kmalloc_ok then (- ENOMEM, m)
      else let m1 = (if nr_extents m = UID_GID_MAP_MAX_BASE_EXTENTS
                     then m\<lparr>forward := take (nr_extents m) (extent m), reverse := []\<rparr> else m);
               m2 = (if nr_extents m1 < UID_GID_MAP_MAX_BASE_EXTENTS
                     then m1\<lparr>extent := take (nr_extents m1) (extent m1) @ [e]\<rparr>
                     else m1\<lparr>forward := take (nr_extents m1) (forward m1) @ [e]\<rparr>)
           in (0, m2\<lparr>nr_extents := nr_extents m2 + 1\<rparr>))"

definition cmp_extents_forward :: "uid_gid_extent \<Rightarrow> uid_gid_extent \<Rightarrow> int" where
  "cmp_extents_forward e1 e2 = (if first e1 < first e2 then -1 else if first e1 > first e2 then 1 else 0)"

definition cmp_extents_reverse :: "uid_gid_extent \<Rightarrow> uid_gid_extent \<Rightarrow> int" where
  "cmp_extents_reverse e1 e2 =
     (if lower_first e1 < lower_first e2 then -1 else if lower_first e1 > lower_first e2 then 1 else 0)"

type_synonym sorter = "(uid_gid_extent \<Rightarrow> uid_gid_extent \<Rightarrow> int) \<Rightarrow> uid_gid_extent list \<Rightarrow> uid_gid_extent list"

definition sort_idmaps :: "sorter \<Rightarrow> bool \<Rightarrow> uid_gid_map \<Rightarrow> int \<times> uid_gid_map" where
  "sort_idmaps srt kmemdup_ok m =
     (if nr_extents m \<le> UID_GID_MAP_MAX_BASE_EXTENTS then (0, m)
      else let m1 = m\<lparr>forward := srt cmp_extents_forward (forward m)\<rparr> in
        if \<not> kmemdup_ok then (- ENOMEM, m1)
        else (0, m1\<lparr>reverse := srt cmp_extents_reverse (forward m1)\<rparr>))"

text \<open>What is documented of \<open>sort\<close>: a permutation, in the order of the comparison.\<close>

definition sort_ok :: "sorter \<Rightarrow> bool" where
  "sort_ok srt \<longleftrightarrow> (\<forall>cmp \<in> {cmp_extents_forward, cmp_extents_reverse}. \<forall>xs.
     mset (srt cmp xs) = mset xs \<and> sorted_wrt (\<lambda>a b. cmp a b \<le> 0) (srt cmp xs))"

section \<open>Reading the text\<close>

record str_ops =
  skip_spaces :: "string \<Rightarrow> string"
  simple_strtoul :: "string \<Rightarrow> u64 \<times> string"
  isspace :: "char \<Rightarrow> bool"

definition at_space :: "str_ops \<Rightarrow> string \<Rightarrow> bool" where
  "at_space ops pos = (case pos of [] \<Rightarrow> False | c # _ \<Rightarrow> isspace ops c)"

definition parse_extent :: "str_ops \<Rightarrow> string \<Rightarrow> uid_gid_extent option" where
  "parse_extent ops line =
     (let (a, pos) = simple_strtoul ops (skip_spaces ops line) in
      if \<not> at_space ops pos then None
      else let (b, pos) = simple_strtoul ops (skip_spaces ops pos) in
        if \<not> at_space ops pos then None
        else let (c, pos) = simple_strtoul ops (skip_spaces ops pos) in
          if pos \<noteq> [] \<and> \<not> at_space ops pos then None
          else if skip_spaces ops pos \<noteq> [] then None
          else Some \<lparr>first = ucast a, lower_first = ucast b, ecount = ucast c\<rparr>)"

definition next_line :: "string \<Rightarrow> string option" where
  "next_line pos = (case dropWhile (\<lambda>c. c \<noteq> CHR 0x0A) pos of
     [] \<Rightarrow> None | _ # rest \<Rightarrow> if rest = [] then None else Some rest)"

lemma next_line_shorter: "next_line pos = Some rest \<Longrightarrow> length rest < length pos"
  using length_dropWhile_le [of "\<lambda>c. c \<noteq> CHR 0x0A" pos]
  by (auto simp: next_line_def split: list.splits if_splits)

function parse_map :: "str_ops \<Rightarrow> bool \<Rightarrow> string \<Rightarrow> uid_gid_map \<Rightarrow> int \<times> uid_gid_map" where
  "parse_map ops kmalloc_ok pos new_map =
     (case parse_extent ops (takeWhile (\<lambda>c. c \<noteq> CHR 0x0A) pos) of
        None \<Rightarrow> (- EINVAL, new_map)
      | Some e \<Rightarrow>
          if first e = - 1 \<or> lower_first e = - 1 then (- EINVAL, new_map)
          else if first e + ecount e \<le> first e then (- EINVAL, new_map)
          else if lower_first e + ecount e \<le> lower_first e then (- EINVAL, new_map)
          else if mappings_overlap new_map e then (- EINVAL, new_map)
          else if nr_extents new_map + 1 = UID_GID_MAP_MAX_EXTENTS \<and> next_line pos \<noteq> None then (- EINVAL, new_map)
          else let (ret, new_map) = insert_extent kmalloc_ok new_map e in
            if ret < 0 then (ret, new_map)
            else (case next_line pos of None \<Rightarrow> (0, new_map) | Some rest \<Rightarrow> parse_map ops kmalloc_ok rest new_map))"
  by pat_completeness auto
termination
  by (relation "measure (\<lambda>(ops, ok, pos, m). length pos)") (auto dest: next_line_shorter)

declare parse_map.simps [simp del]

section \<open>Writing a map\<close>

record map_write_env =
  mw_ops :: str_ops
  mw_sort :: sorter
  mw_kbuf :: "int + string"
  mw_kmalloc :: bool
  mw_kmemdup :: bool
  mw_file_ns :: nat
  mw_ns_admin :: bool
  mw_file_parent :: "int \<Rightarrow> bool"
  mw_task_parent :: "int \<Rightarrow> bool"
  mw_euid :: u32
  mw_egid :: u32

definition empty_map :: uid_gid_map where
  "empty_map = \<lparr>nr_extents = 0, extent = [], forward = [], reverse = []\<rparr>"

definition verify_root_map :: "map_write_env \<Rightarrow> namespaces \<Rightarrow> nat \<Rightarrow> uid_gid_map \<Rightarrow> bool" where
  "verify_root_map env nss map_ns new_map =
     (if list_ex (\<lambda>e. lower_first e = 0) (extents_of new_map)
      then if map_ns = mw_file_ns env
           then (case nss (mw_file_ns env) of Some ns \<Rightarrow> parent_could_setfcap ns | None \<Rightarrow> False)
           else mw_file_parent env CAP_SETFCAP
      else True)"

definition new_idmap_permitted ::
  "map_write_env \<Rightarrow> namespaces \<Rightarrow> nat \<Rightarrow> user_namespace \<Rightarrow> user_namespace \<Rightarrow> int \<Rightarrow> uid_gid_map \<Rightarrow> bool" where
  "new_idmap_permitted env nss nsid ns par cap_setid new_map =
     (if cap_setid = CAP_SETUID \<and> \<not> verify_root_map env nss nsid new_map then False
      else if nr_extents new_map = 1 \<and> ecount (extent new_map ! 0) = 1 \<and> ns_owner ns = mw_euid env \<and>
          (let i = lower_first (extent new_map ! 0) in
           if cap_setid = CAP_SETUID then make_kuid par i = mw_euid env
           else cap_setid = CAP_SETGID \<and> ns_flags ns AND USERNS_SETGROUPS_ALLOWED = 0 \<and> make_kgid par i = mw_egid env)
        then True
      else if \<not> cap_valid cap_setid then True
      else mw_task_parent env cap_setid \<and> mw_file_parent env cap_setid)"

text \<open>Replace the lower ids by the kernel's, or fail when the parent does not map a whole extent.\<close>

fun lower_to_kernel :: "uid_gid_map \<Rightarrow> uid_gid_extent list \<Rightarrow> uid_gid_extent list option" where
  "lower_to_kernel parent_map [] = Some []"
| "lower_to_kernel parent_map (e # es) =
     (let l = map_id_range_down parent_map (lower_first e) (ecount e) in
      if l = - 1 then None
      else map_option (Cons (e\<lparr>lower_first := l\<rparr>)) (lower_to_kernel parent_map es))"

definition set_extents :: "uid_gid_map \<Rightarrow> uid_gid_extent list \<Rightarrow> uid_gid_map" where
  "set_extents m es =
     (if nr_extents m \<le> UID_GID_MAP_MAX_BASE_EXTENTS then m\<lparr>extent := es\<rparr> else m\<lparr>forward := es\<rparr>)"

text \<open>The label \<open>out\<close> with an error: a large unfinished map is freed and the target reset.\<close>

definition map_write_out :: "int \<Rightarrow> uid_gid_map \<Rightarrow> uid_gid_map \<Rightarrow> int \<times> uid_gid_map" where
  "map_write_out ret new_map m =
     (if nr_extents new_map > UID_GID_MAP_MAX_BASE_EXTENTS
      then (ret, m\<lparr>forward := [], reverse := [], nr_extents := 0\<rparr>) else (ret, m))"

definition map_write ::
  "map_write_env \<Rightarrow> namespaces \<Rightarrow> nat \<Rightarrow> user_namespace \<Rightarrow> user_namespace \<Rightarrow> nat \<Rightarrow> nat \<Rightarrow> int \<Rightarrow>
   uid_gid_map \<Rightarrow> uid_gid_map \<Rightarrow> int \<times> uid_gid_map" where
  "map_write env nss nsid ns par cnt ppos cap_setid m parent_map =
     (if ppos \<noteq> 0 \<or> cnt \<ge> PAGE_SIZE then (- EINVAL, m)
      else case mw_kbuf env of Inl err \<Rightarrow> (err, m)
      | Inr kbuf \<Rightarrow>
        if nr_extents m \<noteq> 0 then (- EPERM, m)
        else if cap_valid cap_setid \<and> \<not> mw_ns_admin env then (- EPERM, m)
        else let (ret, new_map) = parse_map (mw_ops env) (mw_kmalloc env) (takeWhile (\<lambda>c. c \<noteq> CHR 0x00) kbuf) empty_map in
          if ret < 0 then map_write_out ret new_map m
          else if nr_extents new_map = 0 then map_write_out (- EINVAL) new_map m
          else if \<not> new_idmap_permitted env nss nsid ns par cap_setid new_map then map_write_out (- EPERM) new_map m
          else (case lower_to_kernel parent_map (extents_of new_map) of
              None \<Rightarrow> map_write_out (- EPERM) new_map m
            | Some es \<Rightarrow>
                let (ret, sorted) = sort_idmaps (mw_sort env) (mw_kmemdup env) (set_extents new_map es) in
                if ret < 0 then map_write_out ret sorted m
                else let m1 = (if nr_extents sorted \<le> UID_GID_MAP_MAX_BASE_EXTENTS
                               then m\<lparr>extent := take (nr_extents sorted) (extent sorted)\<rparr>
                               else m\<lparr>forward := forward sorted, reverse := reverse sorted\<rparr>)
                  in (int cnt, m1\<lparr>nr_extents := nr_extents sorted\<rparr>)))"

text \<open>The three files: the namespace must have a parent, the reader's must be it or its parent.\<close>

definition proc_uid_map_write :: "map_write_env \<Rightarrow> nat \<Rightarrow> nat \<Rightarrow> nat \<Rightarrow> nat \<Rightarrow> namespaces \<Rightarrow> int \<times> namespaces" where
  "proc_uid_map_write env nsid seq_ns cnt ppos nss =
     (case nss nsid of None \<Rightarrow> (- EPERM, nss) | Some ns \<Rightarrow>
      case ns_parent ns of None \<Rightarrow> (- EPERM, nss) | Some p \<Rightarrow>
      if seq_ns \<noteq> nsid \<and> seq_ns \<noteq> p then (- EPERM, nss)
      else case nss p of None \<Rightarrow> (- EPERM, nss) | Some par \<Rightarrow>
        let (r, m) = map_write env nss nsid ns par cnt ppos CAP_SETUID (uid_map ns) (uid_map par)
        in (r, nss(nsid \<mapsto> ns\<lparr>uid_map := m\<rparr>)))"

definition proc_gid_map_write :: "map_write_env \<Rightarrow> nat \<Rightarrow> nat \<Rightarrow> nat \<Rightarrow> nat \<Rightarrow> namespaces \<Rightarrow> int \<times> namespaces" where
  "proc_gid_map_write env nsid seq_ns cnt ppos nss =
     (case nss nsid of None \<Rightarrow> (- EPERM, nss) | Some ns \<Rightarrow>
      case ns_parent ns of None \<Rightarrow> (- EPERM, nss) | Some p \<Rightarrow>
      if seq_ns \<noteq> nsid \<and> seq_ns \<noteq> p then (- EPERM, nss)
      else case nss p of None \<Rightarrow> (- EPERM, nss) | Some par \<Rightarrow>
        let (r, m) = map_write env nss nsid ns par cnt ppos CAP_SETGID (gid_map ns) (gid_map par)
        in (r, nss(nsid \<mapsto> ns\<lparr>gid_map := m\<rparr>)))"

definition proc_projid_map_write :: "map_write_env \<Rightarrow> nat \<Rightarrow> nat \<Rightarrow> nat \<Rightarrow> nat \<Rightarrow> namespaces \<Rightarrow> int \<times> namespaces" where
  "proc_projid_map_write env nsid seq_ns cnt ppos nss =
     (case nss nsid of None \<Rightarrow> (- EPERM, nss) | Some ns \<Rightarrow>
      case ns_parent ns of None \<Rightarrow> (- EPERM, nss) | Some p \<Rightarrow>
      if seq_ns \<noteq> nsid \<and> seq_ns \<noteq> p then (- EPERM, nss)
      else case nss p of None \<Rightarrow> (- EPERM, nss) | Some par \<Rightarrow>
        let (r, m) = map_write env nss nsid ns par cnt ppos (- 1) (projid_map ns) (projid_map par)
        in (r, nss(nsid \<mapsto> ns\<lparr>projid_map := m\<rparr>)))"

section \<open>The setgroups switch\<close>

definition proc_setgroups_show :: "user_namespace \<Rightarrow> string" where
  "proc_setgroups_show ns = (if ns_flags ns AND USERNS_SETGROUPS_ALLOWED \<noteq> 0 then ''allow'' else ''deny'')"

definition proc_setgroups_write ::
  "(string \<Rightarrow> string) \<Rightarrow> string option \<Rightarrow> nat \<Rightarrow> nat \<Rightarrow> user_namespace \<Rightarrow> int \<times> user_namespace" where
  "proc_setgroups_write skip ubuf cnt ppos ns =
     (if ppos \<noteq> 0 \<or> cnt \<ge> 8 then (- EINVAL, ns)
      else case ubuf of None \<Rightarrow> (- EFAULT, ns)
      | Some buf \<Rightarrow>
        let kbuf = takeWhile (\<lambda>c. c \<noteq> CHR 0x00) (take cnt buf);
            req = (if take 5 kbuf = ''allow'' then Some (True, drop 5 kbuf)
                   else if take 4 kbuf = ''deny'' then Some (False, drop 4 kbuf) else None)
        in case req of None \<Rightarrow> (- EINVAL, ns)
        | Some (setgroups_allowed, pos) \<Rightarrow>
            if skip pos \<noteq> [] then (- EINVAL, ns)
            else if setgroups_allowed
            then if ns_flags ns AND USERNS_SETGROUPS_ALLOWED = 0 then (- EPERM, ns) else (int cnt, ns)
            else if nr_extents (gid_map ns) \<noteq> 0 then (- EPERM, ns)
            else (int cnt, ns\<lparr>ns_flags := ns_flags ns AND NOT USERNS_SETGROUPS_ALLOWED\<rparr>))"

definition userns_may_setgroups :: "user_namespace \<Rightarrow> bool" where
  "userns_may_setgroups ns \<longleftrightarrow>
     nr_extents (gid_map ns) \<noteq> 0 \<and> ns_flags ns AND USERNS_SETGROUPS_ALLOWED \<noteq> 0"

section \<open>Creating a namespace\<close>

definition full_map :: uid_gid_map where
  "full_map = \<lparr>nr_extents = 1, extent = [\<lparr>first = 0, lower_first = 0, ecount = 4294967295\<rparr>], forward = [], reverse = []\<rparr>"

definition init_user_ns :: user_namespace where
  "init_user_ns = \<lparr>uid_map = full_map, gid_map = full_map, projid_map = full_map, ns_parent = None, ns_level = 0,
     ns_owner = 0, ns_group = 0, ns_flags = USERNS_SETGROUPS_ALLOWED, parent_could_setfcap = False\<rparr>"

text \<open>
  The answers of the code that is called: the ucounts charge, whether the task is chrooted, the
  security module, the allocation, the inode number and the sysctl table.
\<close>

record create_env =
  ce_ucounts :: bool
  ce_chrooted :: bool
  ce_security :: int
  ce_alloc :: bool
  ce_inum :: int
  ce_sysctls :: bool

definition create_user_ns ::
  "create_env \<Rightarrow> nat \<Rightarrow> u32 \<Rightarrow> u32 \<Rightarrow> bool \<Rightarrow> nat \<Rightarrow> namespaces \<Rightarrow> int \<times> namespaces" where
  "create_user_ns ce parent_id euid egid setfcap fresh nss =
     (case nss parent_id of None \<Rightarrow> (- EINVAL, nss) | Some par \<Rightarrow>
      if ns_level par > 32 then (- ENOSPC, nss)
      else if \<not> ce_ucounts ce then (- ENOSPC, nss)
      else if ce_chrooted ce then (- EPERM, nss)
      else if \<not> kuid_has_mapping par euid \<or> \<not> kgid_has_mapping par egid then (- EPERM, nss)
      else if ce_security ce < 0 then (ce_security ce, nss)
      else if \<not> ce_alloc ce then (- ENOMEM, nss)
      else if ce_inum ce \<noteq> 0 then (ce_inum ce, nss)
      else if \<not> ce_sysctls ce then (- ENOMEM, nss)
      else (0, nss(fresh \<mapsto> \<lparr>uid_map = empty_map, gid_map = empty_map, projid_map = empty_map,
        ns_parent = Some parent_id, ns_level = ns_level par + 1, ns_owner = euid, ns_group = egid,
        ns_flags = ns_flags par, parent_could_setfcap = setfcap\<rparr>)))"

text \<open>Ancestry: climb from the child while its level is above the ancestor's.\<close>

fun climb :: "namespaces \<Rightarrow> nat \<Rightarrow> nat \<Rightarrow> nat \<Rightarrow> nat option" where
  "climb nss 0 ancestor_level child = None"
| "climb nss (Suc fuel) ancestor_level child =
     (case nss child of None \<Rightarrow> None
      | Some ns \<Rightarrow> if ns_level ns > ancestor_level
                  then (case ns_parent ns of None \<Rightarrow> None | Some p \<Rightarrow> climb nss fuel ancestor_level p)
                  else Some child)"

definition in_userns :: "namespaces \<Rightarrow> nat \<Rightarrow> nat \<Rightarrow> bool option" where
  "in_userns nss ancestor child =
     (case (nss ancestor, nss child) of
        (Some a, Some c) \<Rightarrow> map_option (\<lambda>n. n = ancestor) (climb nss (Suc (ns_level c)) (ns_level a) child)
      | _ \<Rightarrow> None)"

text \<open>The system: the initial namespace, and every call any process can make.\<close>

inductive userns_step :: "sorter \<Rightarrow> namespaces \<Rightarrow> namespaces \<Rightarrow> bool" for srt where
  create: "nss fresh = None \<Longrightarrow>
    userns_step srt nss (snd (create_user_ns ce parent_id euid egid setfcap fresh nss))"
| write_uid: "mw_sort env = srt \<Longrightarrow>
    userns_step srt nss (snd (proc_uid_map_write env nsid seq_ns cnt ppos nss))"
| write_gid: "mw_sort env = srt \<Longrightarrow>
    userns_step srt nss (snd (proc_gid_map_write env nsid seq_ns cnt ppos nss))"
| write_projid: "mw_sort env = srt \<Longrightarrow>
    userns_step srt nss (snd (proc_projid_map_write env nsid seq_ns cnt ppos nss))"
| write_setgroups: "nss nsid = Some ns \<Longrightarrow>
    userns_step srt nss (nss(nsid \<mapsto> snd (proc_setgroups_write skip ubuf cnt ppos ns)))"

abbreviation userns_steps :: "sorter \<Rightarrow> namespaces \<Rightarrow> namespaces \<Rightarrow> bool" where
  "userns_steps srt \<equiv> (userns_step srt)\<^sup>*\<^sup>*"

abbreviation userns_reach :: "sorter \<Rightarrow> namespaces \<Rightarrow> bool" where
  "userns_reach srt \<equiv> userns_steps srt [0 \<mapsto> init_user_ns]"

section \<open>A new map is well formed\<close>

text \<open>While it is built, a map has one array of as many entries as it counts.\<close>

definition building :: "uid_gid_map \<Rightarrow> bool" where
  "building m \<longleftrightarrow> exts_ok (extents_of m) \<and>
     length (if nr_extents m \<le> UID_GID_MAP_MAX_BASE_EXTENTS then extent m else forward m) = nr_extents m"

lemma building_empty: "building empty_map"
  by (simp add: building_def extents_of_def empty_map_def exts_ok_def)

lemma count_no_wrap:
  assumes "\<not> (f :: u32) + c \<le> f"
  shows "0 < unat c" "unat f + unat c < 2 ^ 32"
proof -
  have n: "\<not> unat f + unat c \<ge> 2 ^ 32"
  proof
    assume g: "unat f + unat c \<ge> 2 ^ 32"
    then have "unat (f + c) = unat f + unat c - 2 ^ 32"
      using unat_bound [of f] unat_bound [of c] by (simp add: unat_word_ariths mod_if)
    then show False using assms g unat_bound [of c] by (simp add: word_le_nat_alt)
  qed
  then show "unat f + unat c < 2 ^ 32" by simp
  have "c \<noteq> 0" using assms by auto
  then show "0 < unat c" by (simp add: unat_gt_0)
qed

lemma interval_apart:
  assumes "0 < unat (c :: u32)" "unat f + unat c < 2 ^ 32" "0 < unat (c' :: u32)" "unat f' + unat c' < 2 ^ 32"
    and "\<not> (f' \<le> f + c - 1 \<and> f' + c' - 1 \<ge> f)"
  shows "{unat f' ..< unat f' + unat c'} \<inter> {unat f ..< unat f + unat c} = {}"
  using assms(5) last_no_wrap [OF assms(1,2)] last_no_wrap [OF assms(3,4)] assms(1,3)
  by (auto simp: word_le_nat_alt)

lemma overlap_apart:
  assumes "ext_ok e" "list_all ext_ok (extents_of m)" "\<not> mappings_overlap m e" "a \<in> set (extents_of m)"
  shows "ext_apart a e"
proof -
  have ok: "ext_ok a" using assms(2,4) by (simp add: list_all_iff)
  have "\<not> (first a \<le> first e + ecount e - 1 \<and> first a + ecount a - 1 \<ge> first e)"
    "\<not> (lower_first a \<le> lower_first e + ecount e - 1 \<and> lower_first a + ecount a - 1 \<ge> lower_first e)"
    using assms(3,4) by (auto simp: mappings_overlap_def Let_def extents_of_def list_ex_iff)
  then show ?thesis using ok assms(1) unfolding ext_apart_def ext_ok_def upper_range_def lower_range_def
    by (intro conjI interval_apart) simp_all
qed

lemma insert_extents:
  assumes "building m" "insert_extent ok m e = (0, m')"
  shows "extents_of m' = extents_of m @ [e]" "nr_extents m' = Suc (nr_extents m)"
    "length (if nr_extents m' \<le> UID_GID_MAP_MAX_BASE_EXTENTS then extent m' else forward m') = nr_extents m'"
  using assms
  by (auto simp: insert_extent_def Let_def building_def extents_of_def UID_GID_MAP_MAX_BASE_EXTENTS_def
      errno_defs split: if_splits)

lemma parse_map_building:
  "building m \<Longrightarrow> parse_map ops ok pos m = (r, m') \<Longrightarrow> building m'"
proof (induction ops ok pos m rule: parse_map.induct)
  case (1 ops ok pos m)
  show ?case
  proof (cases "parse_extent ops (takeWhile (\<lambda>c. c \<noteq> CHR 0x0A) pos)")
    case None
    then show ?thesis using 1 by (simp add: parse_map.simps)
  next
    case (Some e)
    let ?bad = "first e = - 1 \<or> lower_first e = - 1 \<or> first e + ecount e \<le> first e \<or> lower_first e + ecount e \<le> lower_first e \<or>
      mappings_overlap m e \<or> (nr_extents m + 1 = UID_GID_MAP_MAX_EXTENTS \<and> next_line pos \<noteq> None)"
    obtain ret nm where ie: "insert_extent ok m e = (ret, nm)" by (rule prod.exhaust)
    consider "?bad" | "\<not> ?bad" "ret < 0" | "\<not> ?bad" "\<not> ret < 0" by blast
    then show ?thesis
    proof cases
      case 1
      then show ?thesis using "1.prems" Some by (subst (asm) parse_map.simps) (auto split: if_splits)
    next
      case 2
      then have "nm = m" using ie by (auto simp: insert_extent_def Let_def split: if_splits)
      then show ?thesis using 2 "1.prems" Some ie by (subst (asm) parse_map.simps) (auto split: if_splits)
    next
      case 3
      then have r0: "ret = 0" using ie by (auto simp: insert_extent_def Let_def errno_defs split: if_splits)
      have ok: "ext_ok e" using 3(1) count_no_wrap [of "first e" "ecount e"] count_no_wrap [of "lower_first e" "ecount e"]
        by (simp add: ext_ok_def)
      have ap: "ext_apart a e" if "a \<in> set (extents_of m)" for a
        using overlap_apart [OF ok _ _ that] "1.prems"(1) 3(1) by (simp add: building_def exts_ok_def)
      note ins = insert_extents [OF "1.prems"(1) ie [unfolded r0]]
      have "exts_ok (extents_of nm)"
        using ins(1) ok ap "1.prems"(1) by (auto simp: building_def exts_ok_def sorted_wrt_append)
      then have b: "building nm" using ins(3) by (simp add: building_def)
      show ?thesis
      proof (cases "next_line pos")
        case None
        then show ?thesis using b 3 "1.prems"(2) Some ie by (subst (asm) parse_map.simps) auto
      next
        case (Some rest)
        then show ?thesis using b 3 "1.prems"(2) \<open>parse_extent _ _ = Some e\<close> ie "1.IH" [OF \<open>parse_extent _ _ = Some e\<close>, of "(ret, nm)" ret nm rest]
          by (subst (asm) parse_map.simps) auto
      qed
    qed
  qed
qed

section \<open>Translation through the parent\<close>

definition lowered :: "uid_gid_map \<Rightarrow> uid_gid_extent \<Rightarrow> uid_gid_extent \<Rightarrow> bool" where
  "lowered pm e e' \<longleftrightarrow> (\<exists>pe \<in> set (extents_of pm). \<exists>l. e' = e\<lparr>lower_first := l\<rparr> \<and>
     unat l + unat (first pe) = unat (lower_first e) + unat (lower_first pe) \<and>
     lower_range e \<subseteq> upper_range pe)"

lemma range_down_lowered:
  assumes wf: "map_wf pm" and ok: "ext_ok e" and l: "map_id_range_down pm (lower_first e) (ecount e) = l" "l \<noteq> - 1"
  shows "lowered pm e (e\<lparr>lower_first := l\<rparr>)"
proof -
  from l range_down_spec [OF wf, of "lower_first e" "ecount e"]
  obtain pe where pe: "down_ext (extents_of pm) (lower_first e) (ecount e) = Some pe"
    and le: "l = (lower_first e - first pe) + lower_first pe" by (auto split: option.splits)
  from pe have m: "pe \<in> set (extents_of pm)" and i: "unat (lower_first e) \<in> upper_range pe"
    and j: "unat (lower_first e + ecount e - 1) \<in> upper_range pe" by (auto simp: down_ext_def dest: find_SomeD)
  have okp: "ext_ok pe" using map_wf_ext [OF wf m] .
  have "unat l = unat (lower_first e) - unat (first pe) + unat (lower_first pe)"
    using shift_no_wrap(1) [of "lower_first e" "first pe" "ecount pe" "lower_first pe"] i okp le
    by (simp add: upper_range_def ext_ok_def)
  then have "unat l + unat (first pe) = unat (lower_first e) + unat (lower_first pe)"
    using i by (simp add: upper_range_def)
  moreover have "lower_range e \<subseteq> upper_range pe"
    using i j ok last_no_wrap [of "ecount e" "lower_first e"] by (auto simp: upper_range_def lower_range_def ext_ok_def)
  ultimately show ?thesis using m by (auto simp: lowered_def)
qed

lemma lower_to_kernel_lowered:
  "map_wf pm \<Longrightarrow> list_all ext_ok es \<Longrightarrow> lower_to_kernel pm es = Some es' \<Longrightarrow> list_all2 (lowered pm) es es'"
  by (induction es arbitrary: es') (auto simp: Let_def range_down_lowered split: if_splits)

lemma lowered_range:
  assumes wf: "map_wf pm" and ok: "ext_ok e" and r: "lowered pm e e'"
  obtains pe where "pe \<in> set (extents_of pm)" "lower_range e' \<subseteq> lower_range pe" "ext_ok e'" "upper_range e' = upper_range e"
    "\<And>x. x \<in> lower_range e' \<Longrightarrow> x + unat (first pe) - unat (lower_first pe) \<in> lower_range e"
proof -
  from r obtain pe l where pe: "pe \<in> set (extents_of pm)" "e' = e\<lparr>lower_first := l\<rparr>"
    "unat l + unat (first pe) = unat (lower_first e) + unat (lower_first pe)" "lower_range e \<subseteq> upper_range pe"
    by (auto simp: lowered_def)
  have okp: "ext_ok pe" using map_wf_ext [OF wf pe(1)] .
  have "unat (first pe) \<le> unat (lower_first e)" "unat (lower_first e) + unat (ecount e) \<le> unat (first pe) + unat (ecount pe)"
    using pe(4) ok by (auto simp: lower_range_def upper_range_def ext_ok_def atLeastLessThan_subset_iff)
  then show ?thesis using pe ok okp
    by (intro that [of pe]) (auto simp: lower_range_def upper_range_def ext_ok_def)
qed

lemma lowered_apart:
  assumes wf: "map_wf pm" and ok: "ext_ok a" "ext_ok b" and r: "lowered pm a a'" "lowered pm b b'" and ap: "ext_apart a b"
  shows "ext_apart a' b'"
proof -
  from lowered_range [OF wf ok(1) r(1)] obtain pa where a: "pa \<in> set (extents_of pm)" "lower_range a' \<subseteq> lower_range pa"
    "upper_range a' = upper_range a" "\<And>x. x \<in> lower_range a' \<Longrightarrow> x + unat (first pa) - unat (lower_first pa) \<in> lower_range a" by metis
  from lowered_range [OF wf ok(2) r(2)] obtain pb where b: "pb \<in> set (extents_of pm)" "lower_range b' \<subseteq> lower_range pb"
    "upper_range b' = upper_range b" "\<And>x. x \<in> lower_range b' \<Longrightarrow> x + unat (first pb) - unat (lower_first pb) \<in> lower_range b" by metis
  have "x \<notin> lower_range b'" if x: "x \<in> lower_range a'" for x
  proof
    assume y: "x \<in> lower_range b'"
    have "pa = pb" using exts_unique [of "extents_of pm" pa pb x] wf a(1,2) b(1,2) x y by (auto simp: map_wf_def)
    then show False using a(4) [OF x] b(4) [OF y] ap by (auto simp: ext_apart_def)
  qed
  then show ?thesis using ap a(3) b(3) by (auto simp: ext_apart_def)
qed

lemma lower_to_kernel_ok:
  assumes wf: "map_wf pm" and ok: "exts_ok es" and r: "lower_to_kernel pm es = Some es'"
  shows "exts_ok es'" "length es' = length es"
    "\<And>e'. e' \<in> set es' \<Longrightarrow> \<exists>pe \<in> set (extents_of pm). lower_range e' \<subseteq> lower_range pe"
proof -
  have l2: "list_all2 (lowered pm) es es'" using lower_to_kernel_lowered [OF wf _ r] ok by (simp add: exts_ok_def)
  then show len: "length es' = length es" by (simp add: list_all2_lengthD)
  have n: "lowered pm (es ! i) (es' ! i)" "ext_ok (es ! i)" if "i < length es'" for i
    using l2 ok that len by (auto simp: list_all2_conv_all_nth exts_ok_def list_all_length)
  show "\<exists>pe \<in> set (extents_of pm). lower_range e' \<subseteq> lower_range pe" if e': "e' \<in> set es'" for e'
  proof -
    from e' obtain i where "i < length es'" "es' ! i = e'" by (auto simp: in_set_conv_nth)
    with lowered_range [OF wf n(2,1), of i] show ?thesis by metis
  qed
  have "list_all ext_ok es'"
    unfolding list_all_length using lowered_range [OF wf n(2,1)] by metis
  moreover have "sorted_wrt ext_apart es'"
    unfolding sorted_wrt_iff_nth_less
  proof (intro allI impI)
    fix i j assume ij: "i < j" "j < length es'"
    then have "ext_apart (es ! i) (es ! j)" using ok len by (simp add: exts_ok_def sorted_wrt_iff_nth_less)
    then show "ext_apart (es' ! i) (es' ! j)" using lowered_apart [OF wf n(2) [of i] n(2) [of j] n(1) [of i] n(1) [of j]] ij by simp
  qed
  ultimately show "exts_ok es'" by (simp add: exts_ok_def)
qed

section \<open>Installing a map\<close>

text \<open>Every kernel id the map reaches is one the parent's map reaches.\<close>

definition kernel_ids :: "uid_gid_map \<Rightarrow> nat set" where
  "kernel_ids m = (\<Union>e \<in> set (extents_of m). lower_range e)"

lemma sort_okD:
  assumes "sort_ok srt"
  shows "mset (srt cmp_extents_forward xs) = mset xs" "mset (srt cmp_extents_reverse xs) = mset xs"
    "sorted_wrt (\<lambda>a b. first a \<le> first b) (srt cmp_extents_forward xs)"
    "sorted_wrt (\<lambda>a b. lower_first a \<le> lower_first b) (srt cmp_extents_reverse xs)"
proof -
  have f: "cmp_extents_forward a b \<le> 0 \<longleftrightarrow> first a \<le> first b" and r: "cmp_extents_reverse a b \<le> 0 \<longleftrightarrow> lower_first a \<le> lower_first b" for a b
    by (auto simp: cmp_extents_forward_def cmp_extents_reverse_def)
  show "mset (srt cmp_extents_forward xs) = mset xs" "mset (srt cmp_extents_reverse xs) = mset xs"
    "sorted_wrt (\<lambda>a b. first a \<le> first b) (srt cmp_extents_forward xs)"
    "sorted_wrt (\<lambda>a b. lower_first a \<le> lower_first b) (srt cmp_extents_reverse xs)"
    using assms by (simp_all add: sort_ok_def f r)
qed

lemma sort_idmaps_wf:
  assumes srt: "sort_ok srt" and b: "building m" and r: "sort_idmaps srt ok m = (0, m')"
  shows "map_wf m'" "nr_extents m' = nr_extents m" "kernel_ids m' = kernel_ids m"
    "nr_extents m' > UID_GID_MAP_MAX_BASE_EXTENTS \<or> m' = m"
proof -
  have "map_wf m' \<and> nr_extents m' = nr_extents m \<and> kernel_ids m' = kernel_ids m \<and>
    (nr_extents m' > UID_GID_MAP_MAX_BASE_EXTENTS \<or> m' = m)"
  proof (cases "nr_extents m \<le> UID_GID_MAP_MAX_BASE_EXTENTS")
    case True
    then show ?thesis using r b by (auto simp: sort_idmaps_def map_wf_def building_def extents_of_def)
  next
    case False
    let ?f = "srt cmp_extents_forward (forward m)"
    have m': "m' = m\<lparr>forward := ?f, reverse := srt cmp_extents_reverse ?f\<rparr>"
      using r False by (auto simp: sort_idmaps_def Let_def errno_defs split: if_splits)
    have len: "length (forward m) = nr_extents m" "extents_of m = forward m" "exts_ok (forward m)"
      using b False by (auto simp: building_def extents_of_def)
    have lf: "length ?f = nr_extents m" using mset_eq_length [OF sort_okD(1) [OF srt]] len(1) by simp
    have e': "extents_of m' = ?f" using False lf by (simp add: m' extents_of_def)
    have "exts_ok ?f" using exts_ok_mset [OF sort_okD(1) [OF srt, of "forward m"]] len(3) by simp
    then show ?thesis using False lf e' len sort_okD [OF srt] mset_eq_setD [OF sort_okD(1) [OF srt, of "forward m"]]
      by (simp add: map_wf_def kernel_ids_def) (simp add: m')
  qed
  then show "map_wf m'" "nr_extents m' = nr_extents m" "kernel_ids m' = kernel_ids m"
    "nr_extents m' > UID_GID_MAP_MAX_BASE_EXTENTS \<or> m' = m" by blast+
qed

lemma set_extents_building:
  assumes "building m" "exts_ok es" "length es = nr_extents m"
  shows "building (set_extents m es)" "extents_of (set_extents m es) = es" "nr_extents (set_extents m es) = nr_extents m"
  using assms by (auto simp: building_def set_extents_def extents_of_def)

lemma map_write_out_zero:
  "nr_extents m = 0 \<Longrightarrow> map_write_out r nm m = (r', m') \<Longrightarrow> nr_extents m' = 0 \<and> r' = r"
  by (auto simp: map_write_out_def split: if_splits)

lemma zero_map: "nr_extents m = 0 \<Longrightarrow> map_wf m \<and> kernel_ids m = {} \<and> extents_of m = []"
  by (simp add: map_wf_def extents_of_def exts_ok_def kernel_ids_def)

definition fresh_map :: "uid_gid_map \<Rightarrow> uid_gid_map \<Rightarrow> bool" where
  "fresh_map pm m \<longleftrightarrow> map_wf m \<and> nr_extents m \<noteq> 0 \<and> kernel_ids m \<subseteq> kernel_ids pm"

lemma map_install:
  assumes srt: "sort_ok srt" and pm: "map_wf pm" and b: "building nm" and nz: "nr_extents nm \<noteq> 0"
    and es: "lower_to_kernel pm (extents_of nm) = Some es"
    and so: "sort_idmaps srt ok (set_extents nm es) = (0, sm)"
    and m': "m' = (if nr_extents sm \<le> UID_GID_MAP_MAX_BASE_EXTENTS then m\<lparr>extent := take (nr_extents sm) (extent sm)\<rparr>
        else m\<lparr>forward := forward sm, reverse := reverse sm\<rparr>)\<lparr>nr_extents := nr_extents sm\<rparr>"
  shows "fresh_map pm m'"
proof -
  have en: "exts_ok (extents_of nm)" "length (extents_of nm) = nr_extents nm"
    using b by (auto simp: building_def extents_of_def split: if_splits)
  note lk = lower_to_kernel_ok [OF pm en(1) es]
  note se = set_extents_building [OF b lk(1)] lk(2) en(2)
  have bs: "building (set_extents nm es)" "extents_of (set_extents nm es) = es" "nr_extents (set_extents nm es) = nr_extents nm"
    using se by simp_all
  note sw = sort_idmaps_wf [OF srt bs(1) so]
  have "kernel_ids sm = (\<Union>e \<in> set es. lower_range e)" using sw(3) bs(2) by (simp add: kernel_ids_def)
  then have "kernel_ids sm \<subseteq> kernel_ids pm" using lk(3) by (fastforce simp: kernel_ids_def)
  moreover have "extents_of m' = extents_of sm" by (simp add: m' extents_of_def)
  moreover from this have "map_wf m'" using sw(1) by (auto simp: map_wf_def m')
  moreover have "nr_extents m' \<noteq> 0" using sw(2) bs(3) nz by (simp add: m')
  ultimately show ?thesis by (simp add: fresh_map_def kernel_ids_def)
qed

lemma map_write_cases:
  assumes srt: "sort_ok (mw_sort env)" and pm: "map_wf pm"
    and w: "map_write env nss nsid ns par cnt ppos c m pm = (r, m')"
  obtains (installed) "r = int cnt" "nr_extents m = 0" "fresh_map pm m'" "cap_valid c \<Longrightarrow> mw_ns_admin env"
      "\<exists>nm. building nm \<and> nr_extents nm \<noteq> 0 \<and> new_idmap_permitted env nss nsid ns par c nm \<and> nr_extents m' = nr_extents nm \<and>
        (nr_extents nm \<le> UID_GID_MAP_MAX_BASE_EXTENTS \<longrightarrow> lower_to_kernel pm (extents_of nm) = Some (extents_of m'))"
  | (kept) "m' = m" | (reset) "nr_extents m = 0" "nr_extents m' = 0"
proof (cases "ppos \<noteq> 0 \<or> cnt \<ge> PAGE_SIZE \<or> (\<exists>e. mw_kbuf env = Inl e) \<or> nr_extents m \<noteq> 0 \<or> (cap_valid c \<and> \<not> mw_ns_admin env)")
  case True
  then have "m' = m" using w by (auto simp: map_write_def split: sum.splits if_splits)
  then show ?thesis by (rule kept)
next
  case False
  then obtain kbuf where k: "mw_kbuf env = Inr kbuf" by (cases "mw_kbuf env") auto
  obtain ret nm where pa: "parse_map (mw_ops env) (mw_kmalloc env) (takeWhile (\<lambda>c. c \<noteq> CHR 0x00) kbuf) empty_map = (ret, nm)"
    by (rule prod.exhaust)
  have b: "building nm" using parse_map_building [OF building_empty pa] .
  have nz: "nr_extents m = 0" using False by simp
  note w1 = w [unfolded map_write_def k sum.case pa Let_def prod.case]
  show ?thesis
  proof (cases "ret < 0 \<or> nr_extents nm = 0 \<or> \<not> new_idmap_permitted env nss nsid ns par c nm \<or> lower_to_kernel pm (extents_of nm) = None")
    case True
    then have "\<exists>x. map_write_out x nm m = (r, m')" using w1 False nz by (auto split: if_splits)
    then show ?thesis using map_write_out_zero [OF nz] nz by (intro reset) auto
  next
    case ok: False
    then obtain es where es: "lower_to_kernel pm (extents_of nm) = Some es" by auto
    obtain ret' sm where so: "sort_idmaps (mw_sort env) (mw_kmemdup env) (set_extents nm es) = (ret', sm)" by (rule prod.exhaust)
    show ?thesis
    proof (cases "ret' < 0")
      case True
      then have "map_write_out ret' sm m = (r, m')" using w1 False ok es so by (simp split: if_splits)
      then show ?thesis using map_write_out_zero [OF nz] nz by (intro reset) auto
    next
      case pos: False
      then have z: "ret' = 0" using so by (auto simp: sort_idmaps_def Let_def errno_defs split: if_splits)
      have m': "r = int cnt" "m' = (if nr_extents sm \<le> UID_GID_MAP_MAX_BASE_EXTENTS then m\<lparr>extent := take (nr_extents sm) (extent sm)\<rparr>
        else m\<lparr>forward := forward sm, reverse := reverse sm\<rparr>)\<lparr>nr_extents := nr_extents sm\<rparr>"
        using w1 False ok es so z by (simp_all split: if_splits)
      have nr: "nr_extents nm \<noteq> 0" using ok by simp
      have "nr_extents m' = nr_extents nm" using so z
        by (auto simp: m'(2) sort_idmaps_def set_extents_def Let_def errno_defs split: if_splits)
      moreover have "extents_of m' = es" if "nr_extents nm \<le> UID_GID_MAP_MAX_BASE_EXTENTS"
      proof -
        have "exts_ok (extents_of nm)" "length (extents_of nm) = nr_extents nm"
          using b by (auto simp: building_def extents_of_def split: if_splits)
        then have "length es = nr_extents nm" using lower_to_kernel_ok(2) [OF pm _ es] by simp
        then show ?thesis using so z that by (auto simp: m'(2) sort_idmaps_def set_extents_def extents_of_def)
      qed
      ultimately show ?thesis using map_install [OF srt pm b nr es so [unfolded z] m'(2)] m'(1) nz False ok b es
        by (intro installed) auto
    qed
  qed
qed

section \<open>The invariant of the hierarchy\<close>

definition maps_within :: "user_namespace \<Rightarrow> user_namespace \<Rightarrow> bool" where
  "maps_within ns par \<longleftrightarrow> kernel_ids (uid_map ns) \<subseteq> kernel_ids (uid_map par) \<and>
     kernel_ids (gid_map ns) \<subseteq> kernel_ids (gid_map par) \<and> kernel_ids (projid_map ns) \<subseteq> kernel_ids (projid_map par)"

definition ns_wf :: "user_namespace \<Rightarrow> bool" where
  "ns_wf ns \<longleftrightarrow> map_wf (uid_map ns) \<and> map_wf (gid_map ns) \<and> map_wf (projid_map ns)"

definition userns_inv :: "namespaces \<Rightarrow> bool" where
  "userns_inv nss \<longleftrightarrow> (\<forall>n ns. nss n = Some ns \<longrightarrow> ns_wf ns \<and>
     (case ns_parent ns of None \<Rightarrow> ns_level ns = 0
      | Some p \<Rightarrow> \<exists>par. nss p = Some par \<and> ns_level ns = Suc (ns_level par) \<and> maps_within ns par))"

text \<open>A change of a map that the invariant allows: none, or of a map that was empty.\<close>

definition map_upd :: "uid_gid_map \<Rightarrow> uid_gid_map \<Rightarrow> uid_gid_map \<Rightarrow> bool" where
  "map_upd pm m m' \<longleftrightarrow> m' = m \<or> nr_extents m = 0 \<and> (nr_extents m' = 0 \<or> fresh_map pm m')"

lemma map_updD:
  assumes "map_upd pm m m'" "map_wf m" "kernel_ids m \<subseteq> kernel_ids pm"
  shows "map_wf m'" "kernel_ids m \<subseteq> kernel_ids m'" "kernel_ids m' \<subseteq> kernel_ids pm"
  using assms zero_map [of m] zero_map [of m'] by (auto simp: map_upd_def fresh_map_def)

definition ns_upd :: "user_namespace \<Rightarrow> user_namespace \<Rightarrow> user_namespace \<Rightarrow> bool" where
  "ns_upd par ns ns' \<longleftrightarrow> ns_parent ns' = ns_parent ns \<and> ns_level ns' = ns_level ns \<and>
     map_upd (uid_map par) (uid_map ns) (uid_map ns') \<and> map_upd (gid_map par) (gid_map ns) (gid_map ns') \<and>
     map_upd (projid_map par) (projid_map ns) (projid_map ns')"

lemma map_upd_refl [simp]: "map_upd pm m m"
  by (simp add: map_upd_def)

lemma map_write_upd:
  assumes "sort_ok (mw_sort env)" "map_wf pm" "map_write env nss nsid ns par cnt ppos c m pm = (r, m')"
  shows "map_upd pm m m'"
  using assms by (cases rule: map_write_cases) (auto simp: map_upd_def)

lemma maps_within_mono:
  "maps_within ns par \<Longrightarrow> maps_within par par' \<Longrightarrow> maps_within ns par'"
  by (auto simp: maps_within_def)

lemma userns_inv_upd:
  assumes inv: "userns_inv nss" and n: "nss n = Some ns" "ns_parent ns = Some p" "nss p = Some par" and u: "ns_upd par ns ns'"
  shows "userns_inv (nss(n \<mapsto> ns'))"
proof -
  have lv: "ns_level ns = Suc (ns_level par)" and w: "maps_within ns par" "ns_wf ns"
    using inv n by (auto simp: userns_inv_def split: option.splits) (metis n option.inject option.sel)+
  then have pn: "p \<noteq> n" using n by auto
  have m: "ns_wf ns'" "maps_within ns ns'" "maps_within ns' par"
    using u w map_updD [of "uid_map par" "uid_map ns" "uid_map ns'"] map_updD [of "gid_map par" "gid_map ns" "gid_map ns'"]
      map_updD [of "projid_map par" "projid_map ns" "projid_map ns'"]
    by (simp_all add: ns_upd_def ns_wf_def maps_within_def)
  have pl: "ns_parent ns' = Some p" "ns_level ns' = ns_level ns" using u n by (simp_all add: ns_upd_def)
  show ?thesis unfolding userns_inv_def
  proof (intro allI impI)
    fix k x assume x: "(nss(n \<mapsto> ns')) k = Some x"
    show "ns_wf x \<and> (case ns_parent x of None \<Rightarrow> ns_level x = 0
      | Some q \<Rightarrow> \<exists>par. (nss(n \<mapsto> ns')) q = Some par \<and> ns_level x = Suc (ns_level par) \<and> maps_within x par)"
    proof (cases "k = n")
      case True
      then show ?thesis using x m pl lv pn n by simp
    next
      case False
      then have kx: "nss k = Some x" using x by simp
      then have ix: "ns_wf x \<and> (case ns_parent x of None \<Rightarrow> ns_level x = 0
        | Some q \<Rightarrow> \<exists>par. nss q = Some par \<and> ns_level x = Suc (ns_level par) \<and> maps_within x par)"
        using inv by (simp add: userns_inv_def)
      show ?thesis
      proof (cases "ns_parent x = Some n")
        case True
        then have "ns_level x = Suc (ns_level ns')" "maps_within x ns'"
          using ix n pl(2) maps_within_mono [OF _ m(2), of x] by auto
        then show ?thesis using True ix by simp
      next
        case False
        then show ?thesis using ix by (auto split: option.splits)
      qed
    qed
  qed
qed

lemma userns_inv_parent:
  assumes "userns_inv nss" "nss n = Some ns" "ns_parent ns = Some p"
  obtains par where "nss p = Some par" "ns_level ns = Suc (ns_level par)" "maps_within ns par" "ns_wf par" "ns_wf ns"
  using assms by (fastforce simp: userns_inv_def)

lemma userns_inv_root:
  "userns_inv nss \<Longrightarrow> nss n = Some ns \<Longrightarrow> ns_parent ns = None \<Longrightarrow> ns_level ns = 0"
  by (fastforce simp: userns_inv_def)

lemma proc_writes_inv:
  assumes inv: "userns_inv nss" and srt: "sort_ok (mw_sort env)"
  shows "userns_inv (snd (proc_uid_map_write env nsid seq_ns cnt ppos nss))"
    "userns_inv (snd (proc_gid_map_write env nsid seq_ns cnt ppos nss))"
    "userns_inv (snd (proc_projid_map_write env nsid seq_ns cnt ppos nss))"
proof -
  have step: "userns_inv (nss(nsid \<mapsto> f m'))"
    if "nss nsid = Some ns" "ns_parent ns = Some p" "nss p = Some par"
      "map_write env nss nsid ns par cnt ppos c (sel ns) (sel par) = (r, m')" "map_wf (sel par)"
      "map_upd (sel par) (sel ns) m' \<Longrightarrow> ns_upd par ns (f m')" for ns p par c sel r m' f
    using that userns_inv_upd [OF inv that(1-3)] map_write_upd [OF srt that(5,4)] by blast
  have wf: "ns_wf par" if "nss p = Some par" for p par using inv that by (simp add: userns_inv_def)
  show "userns_inv (snd (proc_uid_map_write env nsid seq_ns cnt ppos nss))"
    using inv step [where sel = uid_map and f = "\<lambda>m. _\<lparr>uid_map := m\<rparr>"] wf
    by (auto simp: proc_uid_map_write_def ns_upd_def ns_wf_def split: option.splits prod.splits)
  show "userns_inv (snd (proc_gid_map_write env nsid seq_ns cnt ppos nss))"
    using inv step [where sel = gid_map and f = "\<lambda>m. _\<lparr>gid_map := m\<rparr>"] wf
    by (auto simp: proc_gid_map_write_def ns_upd_def ns_wf_def split: option.splits prod.splits)
  show "userns_inv (snd (proc_projid_map_write env nsid seq_ns cnt ppos nss))"
    using inv step [where sel = projid_map and f = "\<lambda>m. _\<lparr>projid_map := m\<rparr>"] wf
    by (auto simp: proc_projid_map_write_def ns_upd_def ns_wf_def split: option.splits prod.splits)
qed

lemma full_map_wf: "map_wf full_map"
  by (simp add: full_map_def map_wf_def extents_of_def exts_ok_def ext_ok_def UID_GID_MAP_MAX_BASE_EXTENTS_def)

lemma boot_inv: "userns_inv [0 \<mapsto> init_user_ns]"
  by (simp add: userns_inv_def init_user_ns_def ns_wf_def full_map_wf split: if_splits)

lemma create_userns_inv:
  assumes inv: "userns_inv nss" and f: "nss fresh = None"
  shows "userns_inv (snd (create_user_ns ce parent_id euid egid setfcap fresh nss))"
proof (cases "snd (create_user_ns ce parent_id euid egid setfcap fresh nss) = nss")
  case True
  then show ?thesis using inv by simp
next
  case False
  then obtain par where par: "nss parent_id = Some par"
    and c: "snd (create_user_ns ce parent_id euid egid setfcap fresh nss) =
      nss(fresh \<mapsto> \<lparr>uid_map = empty_map, gid_map = empty_map, projid_map = empty_map,
        ns_parent = Some parent_id, ns_level = ns_level par + 1, ns_owner = euid, ns_group = egid,
        ns_flags = ns_flags par, parent_could_setfcap = setfcap\<rparr>)" (is "_ = nss(fresh \<mapsto> ?new)")
    by (auto simp: create_user_ns_def split: option.splits if_splits)
  have z: "nr_extents empty_map = 0" by (simp add: empty_map_def)
  have new: "ns_wf ?new" "maps_within ?new par" using zero_map [OF z] by (simp_all add: ns_wf_def maps_within_def)
  have "parent_id \<noteq> fresh" using par f by auto
  show ?thesis unfolding c userns_inv_def
  proof (intro allI impI)
    fix k x assume x: "(nss(fresh \<mapsto> ?new)) k = Some x"
    show "ns_wf x \<and> (case ns_parent x of None \<Rightarrow> ns_level x = 0
      | Some q \<Rightarrow> \<exists>par. (nss(fresh \<mapsto> ?new)) q = Some par \<and> ns_level x = Suc (ns_level par) \<and> maps_within x par)"
    proof (cases "k = fresh")
      case True
      then show ?thesis using x new par \<open>parent_id \<noteq> fresh\<close> by auto
    next
      case False
      then have "nss k = Some x" using x by simp
      then show ?thesis using inv f by (cases "ns_parent x") (fastforce simp: userns_inv_def)+
    qed
  qed
qed

lemma setgroups_fields:
  "uid_map (snd (proc_setgroups_write skip ubuf cnt ppos ns)) = uid_map ns"
  "gid_map (snd (proc_setgroups_write skip ubuf cnt ppos ns)) = gid_map ns"
  "projid_map (snd (proc_setgroups_write skip ubuf cnt ppos ns)) = projid_map ns"
  "ns_parent (snd (proc_setgroups_write skip ubuf cnt ppos ns)) = ns_parent ns"
  "ns_level (snd (proc_setgroups_write skip ubuf cnt ppos ns)) = ns_level ns"
  by (simp_all add: proc_setgroups_write_def Let_def split: option.splits)

lemma setgroups_inv:
  assumes inv: "userns_inv nss" and n: "nss nsid = Some ns"
    and e: "uid_map ns' = uid_map ns" "gid_map ns' = gid_map ns" "projid_map ns' = projid_map ns"
      "ns_parent ns' = ns_parent ns" "ns_level ns' = ns_level ns"
  shows "userns_inv (nss(nsid \<mapsto> ns'))"
proof -
  have w: "ns_wf ns' = ns_wf ns" "maps_within x ns' = maps_within x ns" "maps_within ns' x = maps_within ns x" for x
    using e by (simp_all add: ns_wf_def maps_within_def)
  have same: "\<exists>y'. (nss(nsid \<mapsto> ns')) k = Some y' \<and> ns_level y' = ns_level y \<and> (\<forall>x. maps_within x y' = maps_within x y)"
    if "nss k = Some y" for k y using that n e w by (cases "k = nsid") auto
  show ?thesis unfolding userns_inv_def
  proof (intro allI impI)
    fix k x assume x: "(nss(nsid \<mapsto> ns')) k = Some x"
    define y where "y = (if k = nsid then ns else x)"
    have y: "nss k = Some y" "ns_wf x = ns_wf y" "ns_parent x = ns_parent y" "ns_level x = ns_level y"
      "\<And>z. maps_within x z = maps_within y z" using x n e w by (auto simp: y_def split: if_splits)
    show "ns_wf x \<and> (case ns_parent x of None \<Rightarrow> ns_level x = 0
      | Some q \<Rightarrow> \<exists>par. (nss(nsid \<mapsto> ns')) q = Some par \<and> ns_level x = Suc (ns_level par) \<and> maps_within x par)"
    proof (cases "ns_parent y")
      case None
      then show ?thesis using inv y userns_inv_root [OF inv y(1)] by (simp add: userns_inv_def)
    next
      case (Some q)
      from userns_inv_parent [OF inv y(1) Some] obtain par where
        p: "nss q = Some par" "ns_level y = Suc (ns_level par)" "maps_within y par" "ns_wf y" by metis
      from same [OF p(1)] show ?thesis using p y Some by auto
    qed
  qed
qed

lemma step_inv: "userns_step srt nss nss' \<Longrightarrow> sort_ok srt \<Longrightarrow> userns_inv nss \<Longrightarrow> userns_inv nss'"
proof (induction rule: userns_step.induct)
  case (create nss fresh ce parent_id euid egid setfcap)
  then show ?case using create_userns_inv by blast
next
  case (write_uid env nss nsid seq_ns cnt ppos)
  then show ?case using proc_writes_inv(1) by blast
next
  case (write_gid env nss nsid seq_ns cnt ppos)
  then show ?case using proc_writes_inv(2) by blast
next
  case (write_projid env nss nsid seq_ns cnt ppos)
  then show ?case using proc_writes_inv(3) by blast
next
  case (write_setgroups nss nsid ns skip ubuf cnt ppos)
  then show ?case by (intro setgroups_inv) (simp_all add: setgroups_fields)
qed

lemma userns_reach_inv:
  assumes "userns_reach srt nss" "sort_ok srt"
  shows "userns_inv nss"
  using assms(1)
proof (induction rule: rtranclp_induct)
  case base
  show ?case by (rule boot_inv)
next
  case (step nss nss')
  then show ?case using step_inv assms(2) by blast
qed

section \<open>Properties\<close>

lemma up_mapped_iff: "map_wf m \<Longrightarrow> map_id_up m k \<noteq> - 1 \<longleftrightarrow> unat k \<in> kernel_ids m"
  by (cases rule: up_cases [of m k]) (auto simp: kernel_ids_def)

lemma down_invalid:
  assumes wf: "map_wf m"
  shows "map_id_down m (- 1) = - 1"
  using wf
proof (cases rule: down_cases [of m "- 1"])
  case (mapped e)
  have "unat (- 1 :: u32) = 2 ^ 32 - 1" by (simp add: unsigned_minus_1_eq_mask mask_eq_exp_minus_1)
  then show ?thesis using mapped map_wf_ext [OF wf mapped(1)] by (auto simp: upper_range_def ext_ok_def)
qed

lemma reach_wf: "userns_reach srt nss \<Longrightarrow> sort_ok srt \<Longrightarrow> nss n = Some ns \<Longrightarrow> ns_wf ns"
  using userns_reach_inv by (simp add: userns_inv_def)

definition insort_cmp :: "('a \<Rightarrow> 'a \<Rightarrow> int) \<Rightarrow> 'a \<Rightarrow> 'a list \<Rightarrow> 'a list" where
  "insort_cmp cmp x xs = takeWhile (\<lambda>y. cmp y x < 0) xs @ x # dropWhile (\<lambda>y. cmp y x < 0) xs"

definition insertion_sort :: sorter where
  "insertion_sort cmp xs = foldr (insort_cmp cmp) xs []"

lemma insort_cmp_mset: "mset (insort_cmp cmp x xs) = add_mset x (mset xs)"
  by (simp add: insort_cmp_def) (metis mset_append takeWhile_dropWhile_id)

lemma insort_cmp_sorted:
  assumes "\<And>a b. cmp a b \<le> 0 \<longleftrightarrow> (f a :: u32) \<le> f b" "\<And>a b. cmp a b < 0 \<longleftrightarrow> f a < f b"
    and "sorted_wrt (\<lambda>a b. cmp a b \<le> 0) xs"
  shows "sorted_wrt (\<lambda>a b. cmp a b \<le> 0) (insort_cmp cmp x xs)"
  using assms(3)
proof (induction xs)
  case (Cons y ys)
  have m: "set (insort_cmp cmp x ys) = insert x (set ys)" using mset_eq_setD [of "insort_cmp cmp x ys" "x # ys"] insort_cmp_mset by fastforce
  show ?case
  proof (cases "cmp y x < 0")
    case True
    then have e: "insort_cmp cmp x (y # ys) = y # insort_cmp cmp x ys" by (simp add: insort_cmp_def)
    show ?thesis using Cons True m by (auto simp: e assms(1,2))
  next
    case False
    then have "insort_cmp cmp x (y # ys) = x # y # ys" by (simp add: insort_cmp_def)
    then show ?thesis using Cons False by (force simp: assms(1,2))
  qed
qed (simp add: insort_cmp_def)

lemma insertion_sort_ok: "sort_ok insertion_sort"
proof -
  have ms: "mset (insertion_sort cmp xs) = mset xs" for cmp xs
    by (induction xs) (simp_all add: insertion_sort_def insort_cmp_mset)
  have so: "sorted_wrt (\<lambda>a b. cmp a b \<le> 0) (insertion_sort cmp xs)"
    if "\<And>a b. cmp a b \<le> 0 \<longleftrightarrow> (f a :: u32) \<le> f b" "\<And>a b. cmp a b < 0 \<longleftrightarrow> f a < f b" for f cmp xs
    by (induction xs) (simp_all add: insertion_sort_def insort_cmp_sorted [where f = f, OF that])
  have f: "sorted_wrt (\<lambda>a b. cmp_extents_forward a b \<le> 0) (insertion_sort cmp_extents_forward xs)" for xs
    by (rule so [where f = first]) (auto simp: cmp_extents_forward_def)
  have r: "sorted_wrt (\<lambda>a b. cmp_extents_reverse a b \<le> 0) (insertion_sort cmp_extents_reverse xs)" for xs
    by (rule so [where f = lower_first]) (auto simp: cmp_extents_reverse_def)
  show ?thesis using ms f r by (simp add: sort_ok_def)
qed

text \<open>A concrete system for the witnesses: a child of the initial namespace whose uid 0 is uid 1000.\<close>

definition digit :: "char \<Rightarrow> bool" where "digit c \<longleftrightarrow> c \<in> set ''0123456789''"

definition ascii_ops :: str_ops where
  "ascii_ops = \<lparr>skip_spaces = dropWhile (\<lambda>c. c = CHR '' ''),
     simple_strtoul = (\<lambda>s. (foldl (\<lambda>n c. 10 * n + of_nat (of_char c - 48)) 0 (takeWhile digit s), dropWhile digit s)),
     isspace = (\<lambda>c. c = CHR '' '')\<rparr>"

definition demo_write_env :: map_write_env where
  "demo_write_env = \<lparr>mw_ops = ascii_ops, mw_sort = insertion_sort, mw_kbuf = Inr ''0 7 1'', mw_kmalloc = True, mw_kmemdup = True,
     mw_file_ns = 1, mw_ns_admin = True, mw_file_parent = (\<lambda>c. False), mw_task_parent = (\<lambda>c. False), mw_euid = 7, mw_egid = 7\<rparr>"

definition demo_create :: create_env where
  "demo_create = \<lparr>ce_ucounts = True, ce_chrooted = False, ce_security = 0, ce_alloc = True, ce_inum = 0, ce_sysctls = True\<rparr>"

definition demo_child :: user_namespace where
  "demo_child = \<lparr>uid_map = empty_map, gid_map = empty_map, projid_map = empty_map, ns_parent = Some 0, ns_level = 1,
     ns_owner = 7, ns_group = 7, ns_flags = 1, parent_could_setfcap = False\<rparr>"

definition demo_map :: uid_gid_map where
  "demo_map = \<lparr>nr_extents = 1, extent = [\<lparr>first = 0, lower_first = 7, ecount = 1\<rparr>], forward = [], reverse = []\<rparr>"

lemma demo_created: "create_user_ns demo_create 0 7 7 False 1 [0 \<mapsto> init_user_ns] = (0, [0 \<mapsto> init_user_ns, 1 \<mapsto> demo_child])"
  by (simp add: create_user_ns_def demo_create_def demo_child_def init_user_ns_def kuid_has_mapping_def kgid_has_mapping_def
      from_kuid_def from_kgid_def map_id_up_def map_id_up_base_def full_map_def UID_GID_MAP_MAX_BASE_EXTENTS_def USERNS_SETGROUPS_ALLOWED_def)

lemma demo_parsed:
  "parse_map ascii_ops True ''0 7 1'' empty_map = (0, demo_map)"
  by (simp add: parse_map.simps parse_extent_def ascii_ops_def digit_def at_space_def next_line_def Let_def
      mappings_overlap_def insert_extent_def empty_map_def demo_map_def UID_GID_MAP_MAX_BASE_EXTENTS_def UID_GID_MAP_MAX_EXTENTS_def)

lemma demo_written:
  "proc_uid_map_write demo_write_env 1 1 5 0 [0 \<mapsto> init_user_ns, 1 \<mapsto> demo_child] =
     (5, [0 \<mapsto> init_user_ns, 1 \<mapsto> demo_child\<lparr>uid_map := demo_map\<rparr>])"
  by (simp add: proc_uid_map_write_def map_write_def demo_write_env_def demo_parsed [unfolded empty_map_def] demo_child_def init_user_ns_def PAGE_SIZE_def
      new_idmap_permitted_def verify_root_map_def make_kuid_def map_id_down_def map_id_range_down_def map_id_range_down_base_def
      full_map_def demo_map_def empty_map_def extents_of_def UID_GID_MAP_MAX_BASE_EXTENTS_def CAP_SETUID_def cap_valid_def
      CAP_LAST_CAP_def set_extents_def sort_idmaps_def)

lemma demo_reach: "userns_reach insertion_sort [0 \<mapsto> init_user_ns, 1 \<mapsto> demo_child]"
  "userns_reach insertion_sort [0 \<mapsto> init_user_ns, 1 \<mapsto> demo_child\<lparr>uid_map := demo_map\<rparr>]"
proof -
  show r: "userns_reach insertion_sort [0 \<mapsto> init_user_ns, 1 \<mapsto> demo_child]"
    using userns_step.create [of "[0 \<mapsto> init_user_ns]" 1 insertion_sort demo_create 0 7 7 False] demo_created by auto
  have "userns_step insertion_sort [0 \<mapsto> init_user_ns, 1 \<mapsto> demo_child] [0 \<mapsto> init_user_ns, 1 \<mapsto> demo_child\<lparr>uid_map := demo_map\<rparr>]"
    using userns_step.write_uid [of demo_write_env insertion_sort _ 1 1 5 0] by (metis demo_written snd_conv demo_write_env_def map_write_env.select_convs(2))
  with r show "userns_reach insertion_sort [0 \<mapsto> init_user_ns, 1 \<mapsto> demo_child\<lparr>uid_map := demo_map\<rparr>]"
    by (meson rtranclp.rtrancl_into_rtrancl)
qed

text \<open>C21: in every reachable state a user namespace reaches only kernel ids its parent reaches: a kernel uid,
  gid or project id that has an id in the namespace has one in the parent too. So no chain of
  namespace creations and map writes gives access to an id outside the ancestors' ranges.\<close>

theorem userns_ids_within_parent:
  assumes "userns_reach srt nss" "sort_ok srt" "nss n = Some ns" "ns_parent ns = Some p"
  shows "\<exists>par. nss p = Some par \<and> ns_level ns = Suc (ns_level par) \<and>
    (\<forall>k. (from_kuid ns k \<noteq> - 1 \<longrightarrow> from_kuid par k \<noteq> - 1) \<and> (from_kgid ns k \<noteq> - 1 \<longrightarrow> from_kgid par k \<noteq> - 1) \<and>
      (from_kprojid ns k \<noteq> - 1 \<longrightarrow> from_kprojid par k \<noteq> - 1))"
proof -
  from userns_inv_parent [OF userns_reach_inv [OF assms(1,2)] assms(3,4)] obtain par where
    "nss p = Some par" "ns_level ns = Suc (ns_level par)" "maps_within ns par" "ns_wf par" "ns_wf ns" .
  then show ?thesis
    by (intro exI [of _ par]) (auto simp: from_kuid_def from_kgid_def from_kprojid_def ns_wf_def up_mapped_iff maps_within_def)
qed

theorem userns_ids_within_parent_witness:
  "let ns = demo_child\<lparr>uid_map := demo_map\<rparr> in from_kuid ns 7 = 0 \<and> from_kuid init_user_ns 7 \<noteq> - 1"
proof -
  have f: "from_kuid (demo_child\<lparr>uid_map := demo_map\<rparr>) 7 = 0"
    by (simp add: from_kuid_def map_id_up_def map_id_up_base_def demo_map_def UID_GID_MAP_MAX_BASE_EXTENTS_def)
  show ?thesis
    using userns_ids_within_parent [OF demo_reach(2) insertion_sort_ok, of 1 "demo_child\<lparr>uid_map := demo_map\<rparr>" 0] f
    by (auto simp: Let_def demo_child_def dest: spec [of _ 7])
qed

text \<open>C23: in every reachable state the two directions of every id map are inverse: an id that maps to a
  kernel id comes back from it, a kernel id that has an id in the namespace comes back from that,
  for uids, gids and project ids, whether the map is scanned or searched; hence no two ids share a
  kernel id. The invalid id -1 is never mapped.\<close>

theorem userns_ids_roundtrip:
  assumes "userns_reach srt nss" "sort_ok srt" "nss n = Some ns"
  shows "(make_kuid ns i \<noteq> - 1 \<longrightarrow> from_kuid ns (make_kuid ns i) = i) \<and>
    (from_kuid ns k \<noteq> - 1 \<longrightarrow> make_kuid ns (from_kuid ns k) = k) \<and>
    (make_kgid ns i \<noteq> - 1 \<longrightarrow> from_kgid ns (make_kgid ns i) = i) \<and>
    (from_kgid ns k \<noteq> - 1 \<longrightarrow> make_kgid ns (from_kgid ns k) = k) \<and>
    (make_kprojid ns i \<noteq> - 1 \<longrightarrow> from_kprojid ns (make_kprojid ns i) = i) \<and>
    (from_kprojid ns k \<noteq> - 1 \<longrightarrow> make_kprojid ns (from_kprojid ns k) = k) \<and>
    make_kuid ns (- 1) = - 1 \<and> make_kgid ns (- 1) = - 1 \<and> make_kprojid ns (- 1) = - 1"
  using reach_wf [OF assms]
  by (simp add: ns_wf_def make_kuid_def from_kuid_def make_kgid_def from_kgid_def make_kprojid_def from_kprojid_def
      up_of_down down_of_up down_invalid)

theorem userns_ids_roundtrip_witness:
  "make_kuid (demo_child\<lparr>uid_map := demo_map\<rparr>) 0 = 7 \<and> from_kuid (demo_child\<lparr>uid_map := demo_map\<rparr>) 7 = 0"
proof -
  have f: "make_kuid (demo_child\<lparr>uid_map := demo_map\<rparr>) 0 = 7"
    by (simp add: make_kuid_def map_id_down_def map_id_range_down_def map_id_range_down_base_def demo_map_def UID_GID_MAP_MAX_BASE_EXTENTS_def)
  show ?thesis
    using userns_ids_roundtrip [OF demo_reach(2) insertion_sort_ok, of 1 "demo_child\<lparr>uid_map := demo_map\<rparr>" 0] f by simp
qed

text \<open>C25: a task without CAP_SETUID over the parent can install a uid map only in a namespace it owns,
  and only the map with exactly one id, which stands for the task's own effective uid.\<close>

theorem unprivileged_uid_map:
  assumes "userns_reach srt nss" "sort_ok srt" "mw_sort env = srt" "nss n = Some ns"
    and "\<not> (mw_task_parent env CAP_SETUID \<and> mw_file_parent env CAP_SETUID)"
    and "proc_uid_map_write env n seq_ns cnt ppos nss = (r, nss')" "nss' n = Some ns'" "uid_map ns' \<noteq> uid_map ns"
    and "nr_extents (uid_map ns') \<noteq> 0"
  shows "ns_owner ns = mw_euid env \<and> (\<exists>i. extents_of (uid_map ns') = [\<lparr>first = i, lower_first = mw_euid env, ecount = 1\<rparr>])"
proof -
  have inv: "userns_inv nss" using userns_reach_inv [OF assms(1,2)] .
  from assms(4,6,7,8) obtain p par m' where p: "ns_parent ns = Some p" "nss p = Some par"
    and w: "map_write env nss n ns par cnt ppos CAP_SETUID (uid_map ns) (uid_map par) = (r, m')" and m': "uid_map ns' = m'"
    by (auto simp: proc_uid_map_write_def split: option.splits if_splits prod.splits)
  have wfp: "map_wf (uid_map par)" using inv p(2) by (auto simp: userns_inv_def ns_wf_def)
  have srt: "sort_ok (mw_sort env)" using assms(2,3) by simp
  from srt wfp w show ?thesis
  proof (cases rule: map_write_cases)
    case installed
    then obtain nm where nm: "building nm" "new_idmap_permitted env nss n ns par CAP_SETUID nm"
      "nr_extents nm \<le> UID_GID_MAP_MAX_BASE_EXTENTS \<longrightarrow> lower_to_kernel (uid_map par) (extents_of nm) = Some (extents_of m')" by auto
    have one: "nr_extents nm = 1" "ecount (extent nm ! 0) = 1" "ns_owner ns = mw_euid env"
      "make_kuid par (lower_first (extent nm ! 0)) = mw_euid env"
      using nm(2) assms(5) by (auto simp: new_idmap_permitted_def cap_valid_def CAP_SETUID_def CAP_LAST_CAP_def split: if_splits)
    then obtain e where e: "extent nm = [e]" using nm(1)
      by (cases "extent nm") (auto simp: building_def UID_GID_MAP_MAX_BASE_EXTENTS_def)
    have "lower_to_kernel (uid_map par) [e] = Some (extents_of m')"
      using nm(3) one(1) e by (simp add: extents_of_def UID_GID_MAP_MAX_BASE_EXTENTS_def)
    then have "extents_of m' = [e\<lparr>lower_first := mw_euid env\<rparr>]"
      using one e by (auto simp: make_kuid_def map_id_down_def Let_def split: if_splits)
    then show ?thesis using one e m' by (cases e) auto
  qed (use assms m' in simp_all)
qed

theorem unprivileged_uid_map_witness:
  "ns_owner demo_child = mw_euid demo_write_env \<and> (\<exists>i. extents_of demo_map = [\<lparr>first = i, lower_first = 7, ecount = 1\<rparr>])"
  using unprivileged_uid_map [OF demo_reach(1) insertion_sort_ok _ _ _ demo_written, of demo_child "demo_child\<lparr>uid_map := demo_map\<rparr>"]
  by (simp add: demo_write_env_def demo_child_def demo_map_def empty_map_def)

lemma denied_stays:
  assumes "userns_step srt nss nss'" "nss n = Some ns" "ns_flags ns AND USERNS_SETGROUPS_ALLOWED = 0"
  shows "\<exists>ns'. nss' n = Some ns' \<and> ns_flags ns' AND USERNS_SETGROUPS_ALLOWED = 0"
  using assms
proof (induction rule: userns_step.induct)
  case (create nss fresh ce parent_id euid egid setfcap)
  then have "fresh \<noteq> n" by auto
  then show ?case using create by (auto simp: create_user_ns_def split: option.splits)
next
  case (write_uid env nss nsid seq_ns cnt ppos)
  then show ?case by (auto simp: proc_uid_map_write_def split: option.splits prod.splits)
next
  case (write_gid env nss nsid seq_ns cnt ppos)
  then show ?case by (auto simp: proc_gid_map_write_def split: option.splits prod.splits)
next
  case (write_projid env nss nsid seq_ns cnt ppos)
  then show ?case by (auto simp: proc_projid_map_write_def split: option.splits prod.splits)
next
  case (write_setgroups nss nsid x skip ubuf cnt ppos)
  have "ns_flags (snd (proc_setgroups_write skip ubuf cnt ppos x)) \<in> {ns_flags x, ns_flags x AND NOT USERNS_SETGROUPS_ALLOWED}"
    by (simp add: proc_setgroups_write_def Let_def split: option.splits)
  moreover have "(a AND NOT u) AND u = 0" for a u :: u64 by (simp add: and.assoc)
  ultimately show ?case using write_setgroups by (cases "nsid = n") fastforce+
qed

text \<open>C24: setgroups is safe against unprivileged gid maps. When a task without CAP_SETGID over the parent
  installs a gid map, the map has a single extent, and setgroups is denied in
  the namespace in every later state of the system.\<close>

theorem unprivileged_gid_map_no_setgroups:
  assumes "userns_reach srt nss" "sort_ok srt" "mw_sort env = srt" "nss n = Some ns"
    and "\<not> (mw_task_parent env CAP_SETGID \<and> mw_file_parent env CAP_SETGID)"
    and "proc_gid_map_write env n seq_ns cnt ppos nss = (r, nss')" "nss' n = Some ns'" "gid_map ns' \<noteq> gid_map ns"
    and "nr_extents (gid_map ns') \<noteq> 0" "userns_steps srt nss' later"
  shows "nr_extents (gid_map ns') = 1 \<and> (\<exists>ns''. later n = Some ns'' \<and> \<not> userns_may_setgroups ns'')"
proof -
  have inv: "userns_inv nss" using userns_reach_inv [OF assms(1,2)] .
  from assms(4,6,7,8) obtain p par m' where p: "ns_parent ns = Some p" "nss p = Some par"
    and w: "map_write env nss n ns par cnt ppos CAP_SETGID (gid_map ns) (gid_map par) = (r, m')" and m': "ns' = ns\<lparr>gid_map := m'\<rparr>"
    by (auto simp: proc_gid_map_write_def split: option.splits if_splits prod.splits)
  have wfp: "map_wf (gid_map par)" using inv p(2) by (auto simp: userns_inv_def ns_wf_def)
  have srt: "sort_ok (mw_sort env)" using assms(2,3) by simp
  have d: "ns_flags ns AND USERNS_SETGROUPS_ALLOWED = 0 \<and> nr_extents m' = 1"
    using srt wfp w
  proof (cases rule: map_write_cases)
    case installed
    then obtain nm where nm: "new_idmap_permitted env nss n ns par CAP_SETGID nm" "nr_extents m' = nr_extents nm" by auto
    then show ?thesis using assms(5)
      by (auto simp: new_idmap_permitted_def cap_valid_def CAP_SETUID_def CAP_SETGID_def CAP_LAST_CAP_def split: if_splits)
  qed (use assms m' in simp_all)
  from assms(10) have "\<exists>ns''. later n = Some ns'' \<and> ns_flags ns'' AND USERNS_SETGROUPS_ALLOWED = 0"
  proof (induction rule: rtranclp_induct)
    case base
    then show ?case using d m' assms(7) by simp
  next
    case (step x y)
    then show ?case using denied_stays by blast
  qed
  then show ?thesis using d m' by (auto simp: userns_may_setgroups_def)
qed

definition demo_denied :: user_namespace where
  "demo_denied = demo_child\<lparr>ns_flags := 0\<rparr>"

lemma demo_gid_written:
  "proc_gid_map_write demo_write_env 1 1 5 0 [0 \<mapsto> init_user_ns, 1 \<mapsto> demo_denied] =
     (5, [0 \<mapsto> init_user_ns, 1 \<mapsto> demo_denied\<lparr>gid_map := demo_map\<rparr>])"
  by (simp add: proc_gid_map_write_def map_write_def demo_write_env_def demo_parsed [unfolded empty_map_def] demo_child_def demo_denied_def
      init_user_ns_def PAGE_SIZE_def new_idmap_permitted_def make_kgid_def map_id_down_def map_id_range_down_def map_id_range_down_base_def
      full_map_def demo_map_def empty_map_def extents_of_def UID_GID_MAP_MAX_BASE_EXTENTS_def CAP_SETUID_def CAP_SETGID_def cap_valid_def
      CAP_LAST_CAP_def set_extents_def sort_idmaps_def)

lemma demo_denied_reach: "userns_reach insertion_sort [0 \<mapsto> init_user_ns, 1 \<mapsto> demo_denied]"
proof -
  have "snd (proc_setgroups_write (\<lambda>s. s) (Some ''deny'') 4 0 demo_child) = demo_denied"
    by (simp add: proc_setgroups_write_def demo_child_def demo_denied_def empty_map_def USERNS_SETGROUPS_ALLOWED_def)
  then have "userns_step insertion_sort [0 \<mapsto> init_user_ns, 1 \<mapsto> demo_child] [0 \<mapsto> init_user_ns, 1 \<mapsto> demo_denied]"
    using userns_step.write_setgroups [of "[0 \<mapsto> init_user_ns, 1 \<mapsto> demo_child]" 1 demo_child insertion_sort "\<lambda>s. s" "Some ''deny''" 4 0]
    by simp
  with demo_reach(1) show ?thesis by (meson rtranclp.rtrancl_into_rtrancl)
qed

theorem unprivileged_gid_map_no_setgroups_witness:
  "nr_extents demo_map = 1 \<and> \<not> userns_may_setgroups (demo_denied\<lparr>gid_map := demo_map\<rparr>)"
  using unprivileged_gid_map_no_setgroups [OF demo_denied_reach insertion_sort_ok _ _ _ demo_gid_written _ _ _ rtranclp.rtrancl_refl,
      of demo_denied "demo_denied\<lparr>gid_map := demo_map\<rparr>"]
  by (simp add: demo_write_env_def demo_denied_def demo_child_def demo_map_def empty_map_def)

definition parent_of :: "namespaces \<Rightarrow> nat \<Rightarrow> nat \<Rightarrow> bool" where
  "parent_of nss c p \<longleftrightarrow> (\<exists>ns. nss c = Some ns \<and> ns_parent ns = Some p)"

lemma ancestor_level:
  assumes inv: "userns_inv nss" and "(parent_of nss)\<^sup>*\<^sup>* c a" "nss c = Some cn"
  shows "\<exists>an. nss a = Some an \<and> ns_level an \<le> ns_level cn \<and> (c \<noteq> a \<longrightarrow> ns_level an < ns_level cn)"
  using assms(2,3)
proof (induction rule: rtranclp_induct)
  case (step x y)
  then obtain xn where x: "nss x = Some xn" "ns_level xn \<le> ns_level cn" "ns_parent xn = Some y" by (auto simp: parent_of_def)
  from userns_inv_parent [OF inv x(1,3)] obtain yn where "nss y = Some yn" "ns_level xn = Suc (ns_level yn)" by metis
  then show ?case using x by auto
qed auto

lemma climb_correct:
  assumes inv: "userns_inv nss" and a: "nss a = Some an"
  shows "nss c = Some cn \<Longrightarrow> ns_level cn < fuel \<Longrightarrow>
    \<exists>x. climb nss fuel (ns_level an) c = Some x \<and> (x = a \<longleftrightarrow> (parent_of nss)\<^sup>*\<^sup>* c a)"
proof (induction fuel arbitrary: c cn)
  case (Suc fuel)
  show ?case
  proof (cases "ns_level cn > ns_level an")
    case True
    then obtain p where p: "ns_parent cn = Some p" using userns_inv_root [OF inv Suc.prems(1)] by (cases "ns_parent cn") auto
    from userns_inv_parent [OF inv Suc.prems(1) p] obtain pn where pn: "nss p = Some pn" "ns_level cn = Suc (ns_level pn)" by metis
    have "(parent_of nss)\<^sup>*\<^sup>* c a \<longleftrightarrow> (parent_of nss)\<^sup>*\<^sup>* p a"
    proof
      assume "(parent_of nss)\<^sup>*\<^sup>* c a"
      then show "(parent_of nss)\<^sup>*\<^sup>* p a"
        using True a Suc.prems(1) p by (cases rule: converse_rtranclpE) (auto simp: parent_of_def)
    next
      assume "(parent_of nss)\<^sup>*\<^sup>* p a"
      moreover have "parent_of nss c p" using Suc.prems(1) p by (auto simp: parent_of_def)
      ultimately show "(parent_of nss)\<^sup>*\<^sup>* c a" by (rule converse_rtranclp_into_rtranclp [rotated])
    qed
    then show ?thesis using Suc.IH [OF pn(1)] Suc.prems pn True p by simp
  next
    case False
    then have "c = a \<longleftrightarrow> (parent_of nss)\<^sup>*\<^sup>* c a"
      using ancestor_level [OF inv _ Suc.prems(1), of a] a by auto
    then show ?thesis using Suc.prems(1) False by simp
  qed
qed simp

text \<open>Ancestry between namespaces is decided correctly and the climb always ends: in every reachable
  state, in_userns answers whether the second namespace is the first or one of its descendants.\<close>

theorem in_userns_decides:
  assumes "userns_reach srt nss" "sort_ok srt" "nss a = Some an" "nss c = Some cn"
  shows "in_userns nss a c = Some ((parent_of nss)\<^sup>*\<^sup>* c a)"
  using climb_correct [OF userns_reach_inv [OF assms(1,2)] assms(3,4), of "Suc (ns_level cn)"] assms(3,4)
  by (auto simp: in_userns_def simp del: climb.simps)

theorem in_userns_decides_witness:
  "in_userns [0 \<mapsto> init_user_ns, 1 \<mapsto> demo_child] 0 1 = Some True"
  using in_userns_decides [OF demo_reach(1) insertion_sort_ok, of 0 init_user_ns 1 demo_child]
  by (simp add: r_into_rtranclp parent_of_def demo_child_def)

end
