(* ===== verification/Creds.thy ===== *)
theory Creds
  imports User_Ns
begin

text \<open>
  The credentials of a task and the system calls that change its ids: set*uid and set*gid of
  kernel/sys.c with their 16-bit forms of kernel/uid16.c, the supplementary groups of
  kernel/groups.c, and \<open>commit_creds\<close> of kernel/cred.c. The id maps are those of the task's user
  namespace. Allocation, capabilities, the security module and the process accounting answer
  through the record of one call.
\<close>

section \<open>Credentials\<close>

record cred =
  uid :: u32
  gid :: u32
  suid :: u32
  sgid :: u32
  euid :: u32
  egid :: u32
  fsuid :: u32
  fsgid :: u32
  cap_permitted :: u64
  cr_user :: u32
  group_info :: "u32 list"

record cred_task =
  t_cred :: cred
  t_dumpable :: int
  pdeath_signal :: int
  nproc_exceeded :: bool

datatype lsm_setid = LSM_SETID_ID | LSM_SETID_RE | LSM_SETID_RES | LSM_SETID_FS

record id_env =
  ie_prepare :: bool
  ie_setuid :: bool
  ie_setgid :: bool
  ie_alloc_uid :: bool
  ie_fix_setuid :: "cred \<Rightarrow> cred \<Rightarrow> lsm_setid \<Rightarrow> int \<times> cred"
  ie_fix_setgid :: "cred \<Rightarrow> cred \<Rightarrow> lsm_setid \<Rightarrow> int \<times> cred"
  ie_fix_setgroups :: "cred \<Rightarrow> cred \<Rightarrow> int \<times> cred"
  ie_ucounts :: int
  ie_same_ucounts :: bool
  ie_overlimit :: bool
  ie_has_mm :: bool
  ie_suid_dumpable :: int

definition cred_cap_issubset :: "cred \<Rightarrow> cred \<Rightarrow> bool" where
  "cred_cap_issubset st sub \<longleftrightarrow> cap_permitted sub AND NOT (cap_permitted st) = 0"

definition commit_creds :: "id_env \<Rightarrow> cred \<Rightarrow> cred_task \<Rightarrow> int \<times> cred_task" where
  "commit_creds env new t =
     (let old = t_cred t;
          t1 = (if euid old \<noteq> euid new \<or> egid old \<noteq> egid new \<or> fsuid old \<noteq> fsuid new \<or> fsgid old \<noteq> fsgid new \<or>
                    \<not> cred_cap_issubset old new
                then t\<lparr>t_dumpable := (if ie_has_mm env then ie_suid_dumpable env else t_dumpable t), pdeath_signal := 0\<rparr>
                else t)
      in (0, t1\<lparr>t_cred := new\<rparr>))"

text \<open>The user structure is found by its uid; \<open>INIT_USER\<close> is that of uid 0.\<close>

definition set_user :: "id_env \<Rightarrow> cred \<Rightarrow> int \<times> cred" where
  "set_user env new = (if \<not> ie_alloc_uid env then (- EAGAIN, new) else (0, new\<lparr>cr_user := uid new\<rparr>))"

definition flag_nproc_exceeded :: "id_env \<Rightarrow> cred \<Rightarrow> cred_task \<Rightarrow> cred_task" where
  "flag_nproc_exceeded env new t =
     (if ie_same_ucounts env then t
      else t\<lparr>nproc_exceeded := (ie_overlimit env \<and> cr_user new \<noteq> 0)\<rparr>)"

section \<open>Changing the group ids\<close>

definition sys_setregid :: "id_env \<Rightarrow> user_namespace \<Rightarrow> u32 \<Rightarrow> u32 \<Rightarrow> cred_task \<Rightarrow> int \<times> cred_task" where
  "sys_setregid env ns rg eg t =
     (let krgid = make_kgid ns rg; kegid = make_kgid ns eg; old = t_cred t in
      if rg \<noteq> - 1 \<and> \<not> gid_valid krgid then (- EINVAL, t)
      else if eg \<noteq> - 1 \<and> \<not> gid_valid kegid then (- EINVAL, t)
      else if \<not> ie_prepare env then (- ENOMEM, t)
      else if rg \<noteq> - 1 \<and> \<not> (gid old = krgid \<or> egid old = krgid \<or> ie_setgid env) then (- EPERM, t)
      else if eg \<noteq> - 1 \<and> \<not> (gid old = kegid \<or> egid old = kegid \<or> sgid old = kegid \<or> ie_setgid env) then (- EPERM, t)
      else let new = (if rg \<noteq> - 1 then old\<lparr>gid := krgid\<rparr> else old);
               new = (if eg \<noteq> - 1 then new\<lparr>egid := kegid\<rparr> else new);
               new = (if rg \<noteq> - 1 \<or> (eg \<noteq> - 1 \<and> kegid \<noteq> gid old) then new\<lparr>sgid := egid new\<rparr> else new);
               new = new\<lparr>fsgid := egid new\<rparr>;
               (retval, new) = ie_fix_setgid env new old LSM_SETID_RE
           in if retval < 0 then (retval, t) else commit_creds env new t)"

definition sys_setgid :: "id_env \<Rightarrow> user_namespace \<Rightarrow> u32 \<Rightarrow> cred_task \<Rightarrow> int \<times> cred_task" where
  "sys_setgid env ns g t =
     (let kgid = make_kgid ns g; old = t_cred t in
      if \<not> gid_valid kgid then (- EINVAL, t)
      else if \<not> ie_prepare env then (- ENOMEM, t)
      else if \<not> ie_setgid env \<and> \<not> (kgid = gid old \<or> kgid = sgid old) then (- EPERM, t)
      else let new = (if ie_setgid env then old\<lparr>gid := kgid, egid := kgid, sgid := kgid, fsgid := kgid\<rparr>
                      else old\<lparr>egid := kgid, fsgid := kgid\<rparr>);
               (retval, new) = ie_fix_setgid env new old LSM_SETID_ID
           in if retval < 0 then (retval, t) else commit_creds env new t)"

definition sys_setresgid :: "id_env \<Rightarrow> user_namespace \<Rightarrow> u32 \<Rightarrow> u32 \<Rightarrow> u32 \<Rightarrow> cred_task \<Rightarrow> int \<times> cred_task" where
  "sys_setresgid env ns rg eg sg t =
     (let krgid = make_kgid ns rg; kegid = make_kgid ns eg; ksgid = make_kgid ns sg; old = t_cred t;
          known = (\<lambda>k. k = gid old \<or> k = egid old \<or> k = sgid old) in
      if rg \<noteq> - 1 \<and> \<not> gid_valid krgid then (- EINVAL, t)
      else if eg \<noteq> - 1 \<and> \<not> gid_valid kegid then (- EINVAL, t)
      else if sg \<noteq> - 1 \<and> \<not> gid_valid ksgid then (- EINVAL, t)
      else if (rg = - 1 \<or> krgid = gid old) \<and> (eg = - 1 \<or> (kegid = egid old \<and> kegid = fsgid old)) \<and> (sg = - 1 \<or> ksgid = sgid old)
        then (0, t)
      else if ((rg \<noteq> - 1 \<and> \<not> known krgid) \<or> (eg \<noteq> - 1 \<and> \<not> known kegid) \<or> (sg \<noteq> - 1 \<and> \<not> known ksgid)) \<and> \<not> ie_setgid env
        then (- EPERM, t)
      else if \<not> ie_prepare env then (- ENOMEM, t)
      else let new = (if rg \<noteq> - 1 then old\<lparr>gid := krgid\<rparr> else old);
               new = (if eg \<noteq> - 1 then new\<lparr>egid := kegid\<rparr> else new);
               new = (if sg \<noteq> - 1 then new\<lparr>sgid := ksgid\<rparr> else new);
               new = new\<lparr>fsgid := egid new\<rparr>;
               (retval, new) = ie_fix_setgid env new old LSM_SETID_RES
           in if retval < 0 then (retval, t) else commit_creds env new t)"

definition sys_setfsgid :: "id_env \<Rightarrow> u32 \<Rightarrow> user_namespace \<Rightarrow> u32 \<Rightarrow> cred_task \<Rightarrow> u32 \<times> cred_task" where
  "sys_setfsgid env overflowgid ns g t =
     (let old = t_cred t; old_fsgid = from_kgid_munged overflowgid ns (fsgid old); kgid = make_kgid ns g in
      if \<not> gid_valid kgid \<or> \<not> ie_prepare env then (old_fsgid, t)
      else if (kgid = gid old \<or> kgid = egid old \<or> kgid = sgid old \<or> kgid = fsgid old \<or> ie_setgid env) \<and> kgid \<noteq> fsgid old
      then (let (r, new) = ie_fix_setgid env (old\<lparr>fsgid := kgid\<rparr>) old LSM_SETID_FS in
            if r = 0 then (old_fsgid, snd (commit_creds env new t)) else (old_fsgid, t))
      else (old_fsgid, t))"

section \<open>Changing the user ids\<close>

text \<open>What the calls share after the new ids are chosen: the security module, the accounting, the commit.\<close>

definition finish_setuid :: "id_env \<Rightarrow> lsm_setid \<Rightarrow> cred \<Rightarrow> cred \<Rightarrow> cred_task \<Rightarrow> int \<times> cred_task" where
  "finish_setuid env how new old t =
     (let (retval, new) = ie_fix_setuid env new old how in
      if retval < 0 then (retval, t)
      else if ie_ucounts env < 0 then (ie_ucounts env, t)
      else commit_creds env new (flag_nproc_exceeded env new t))"

definition sys_setreuid :: "id_env \<Rightarrow> user_namespace \<Rightarrow> u32 \<Rightarrow> u32 \<Rightarrow> cred_task \<Rightarrow> int \<times> cred_task" where
  "sys_setreuid env ns ru eu t =
     (let kruid = make_kuid ns ru; keuid = make_kuid ns eu; old = t_cred t in
      if ru \<noteq> - 1 \<and> \<not> uid_valid kruid then (- EINVAL, t)
      else if eu \<noteq> - 1 \<and> \<not> uid_valid keuid then (- EINVAL, t)
      else if \<not> ie_prepare env then (- ENOMEM, t)
      else if ru \<noteq> - 1 \<and> uid old \<noteq> kruid \<and> euid old \<noteq> kruid \<and> \<not> ie_setuid env then (- EPERM, t)
      else if eu \<noteq> - 1 \<and> uid old \<noteq> keuid \<and> euid old \<noteq> keuid \<and> suid old \<noteq> keuid \<and> \<not> ie_setuid env then (- EPERM, t)
      else let new = (if ru \<noteq> - 1 then old\<lparr>uid := kruid\<rparr> else old);
               new = (if eu \<noteq> - 1 then new\<lparr>euid := keuid\<rparr> else new);
               (retval, new) = (if uid new \<noteq> uid old then set_user env new else (0, new))
           in if retval < 0 then (retval, t)
              else let new = (if ru \<noteq> - 1 \<or> (eu \<noteq> - 1 \<and> keuid \<noteq> uid old) then new\<lparr>suid := euid new\<rparr> else new);
                       new = new\<lparr>fsuid := euid new\<rparr>
                   in finish_setuid env LSM_SETID_RE new old t)"

definition sys_setuid :: "id_env \<Rightarrow> user_namespace \<Rightarrow> u32 \<Rightarrow> cred_task \<Rightarrow> int \<times> cred_task" where
  "sys_setuid env ns u t =
     (let kuid = make_kuid ns u; old = t_cred t in
      if \<not> uid_valid kuid then (- EINVAL, t)
      else if \<not> ie_prepare env then (- ENOMEM, t)
      else if \<not> ie_setuid env \<and> kuid \<noteq> uid old \<and> kuid \<noteq> suid old then (- EPERM, t)
      else let (retval, new) =
                 (if ie_setuid env
                  then (let new = old\<lparr>suid := kuid, uid := kuid\<rparr> in if kuid \<noteq> uid old then set_user env new else (0, new))
                  else (0, old))
           in if retval < 0 then (retval, t)
              else finish_setuid env LSM_SETID_ID (new\<lparr>fsuid := kuid, euid := kuid\<rparr>) old t)"

definition sys_setresuid :: "id_env \<Rightarrow> user_namespace \<Rightarrow> u32 \<Rightarrow> u32 \<Rightarrow> u32 \<Rightarrow> cred_task \<Rightarrow> int \<times> cred_task" where
  "sys_setresuid env ns ru eu su t =
     (let kruid = make_kuid ns ru; keuid = make_kuid ns eu; ksuid = make_kuid ns su; old = t_cred t;
          known = (\<lambda>k. k = uid old \<or> k = euid old \<or> k = suid old) in
      if ru \<noteq> - 1 \<and> \<not> uid_valid kruid then (- EINVAL, t)
      else if eu \<noteq> - 1 \<and> \<not> uid_valid keuid then (- EINVAL, t)
      else if su \<noteq> - 1 \<and> \<not> uid_valid ksuid then (- EINVAL, t)
      else if (ru = - 1 \<or> kruid = uid old) \<and> (eu = - 1 \<or> (keuid = euid old \<and> keuid = fsuid old)) \<and> (su = - 1 \<or> ksuid = suid old)
        then (0, t)
      else if ((ru \<noteq> - 1 \<and> \<not> known kruid) \<or> (eu \<noteq> - 1 \<and> \<not> known keuid) \<or> (su \<noteq> - 1 \<and> \<not> known ksuid)) \<and> \<not> ie_setuid env
        then (- EPERM, t)
      else if \<not> ie_prepare env then (- ENOMEM, t)
      else let (retval, new) =
                 (if ru \<noteq> - 1
                  then (let new = old\<lparr>uid := kruid\<rparr> in if kruid \<noteq> uid old then set_user env new else (0, new))
                  else (0, old))
           in if retval < 0 then (retval, t)
              else let new = (if eu \<noteq> - 1 then new\<lparr>euid := keuid\<rparr> else new);
                       new = (if su \<noteq> - 1 then new\<lparr>suid := ksuid\<rparr> else new);
                       new = new\<lparr>fsuid := euid new\<rparr>
                   in finish_setuid env LSM_SETID_RES new old t)"

definition sys_setfsuid :: "id_env \<Rightarrow> u32 \<Rightarrow> user_namespace \<Rightarrow> u32 \<Rightarrow> cred_task \<Rightarrow> u32 \<times> cred_task" where
  "sys_setfsuid env overflowuid ns u t =
     (let old = t_cred t; old_fsuid = from_kuid_munged overflowuid ns (fsuid old); kuid = make_kuid ns u in
      if \<not> uid_valid kuid \<or> \<not> ie_prepare env then (old_fsuid, t)
      else if (kuid = uid old \<or> kuid = euid old \<or> kuid = suid old \<or> kuid = fsuid old \<or> ie_setuid env) \<and> kuid \<noteq> fsuid old
      then (let (r, new) = ie_fix_setuid env (old\<lparr>fsuid := kuid\<rparr>) old LSM_SETID_FS in
            if r = 0 then (old_fsuid, snd (commit_creds env new t)) else (old_fsuid, t))
      else (old_fsuid, t))"

section \<open>Reading the ids\<close>

definition sys_getuid where "sys_getuid overflowuid ns t = from_kuid_munged overflowuid ns (uid (t_cred t))"
definition sys_geteuid where "sys_geteuid overflowuid ns t = from_kuid_munged overflowuid ns (euid (t_cred t))"
definition sys_getgid where "sys_getgid overflowgid ns t = from_kgid_munged overflowgid ns (gid (t_cred t))"
definition sys_getegid where "sys_getegid overflowgid ns t = from_kgid_munged overflowgid ns (egid (t_cred t))"

text \<open>\<open>getresuid\<close>: three stores to the user, the first failing one ends the call.\<close>

definition put3 :: "('v \<Rightarrow> int) \<Rightarrow> ('v \<Rightarrow> int) \<Rightarrow> ('v \<Rightarrow> int) \<Rightarrow> 'v \<Rightarrow> 'v \<Rightarrow> 'v \<Rightarrow> int" where
  "put3 p1 p2 p3 a b c = (if p1 a \<noteq> 0 then p1 a else if p2 b \<noteq> 0 then p2 b else p3 c)"

definition sys_getresuid where
  "sys_getresuid overflowuid ns p1 p2 p3 t =
     (let f = from_kuid_munged overflowuid ns; c = t_cred t in put3 p1 p2 p3 (f (uid c)) (f (euid c)) (f (suid c)))"

definition sys_getresgid where
  "sys_getresgid overflowgid ns p1 p2 p3 t =
     (let f = from_kgid_munged overflowgid ns; c = t_cred t in put3 p1 p2 p3 (f (gid c)) (f (egid c)) (f (sgid c)))"

section \<open>Supplementary groups\<close>

definition NGROUPS_MAX :: nat where "NGROUPS_MAX = 65536"

definition gid_cmp :: "u32 \<Rightarrow> u32 \<Rightarrow> int" where
  "gid_cmp a b = (if a > b then 1 else 0) - (if a < b then 1 else 0)"

text \<open>The user's array: reading an element gives its value or faults.\<close>

fun groups_from_user :: "user_namespace \<Rightarrow> (nat \<Rightarrow> u32 option) \<Rightarrow> nat \<Rightarrow> nat \<Rightarrow> int + u32 list" where
  "groups_from_user ns user i 0 = Inr []"
| "groups_from_user ns user i (Suc n) =
     (case user i of None \<Rightarrow> Inl (- EFAULT)
      | Some g \<Rightarrow>
          let kgid = make_kgid ns g in
          if \<not> gid_valid kgid then Inl (- EINVAL)
          else (case groups_from_user ns user (Suc i) n of Inl e \<Rightarrow> Inl e | Inr gs \<Rightarrow> Inr (kgid # gs)))"

text \<open>Writing the groups back: the values stored before a fault, and whether all were stored.\<close>

fun groups_to_user :: "u32 \<Rightarrow> user_namespace \<Rightarrow> (nat \<Rightarrow> bool) \<Rightarrow> nat \<Rightarrow> u32 list \<Rightarrow> int \<times> u32 list" where
  "groups_to_user overflowgid ns ok i [] = (0, [])"
| "groups_to_user overflowgid ns ok i (k # ks) =
     (if \<not> ok i then (- EFAULT, [])
      else let (r, gs) = groups_to_user overflowgid ns ok (Suc i) ks in (r, from_kgid_munged overflowgid ns k # gs))"

definition groups_sort :: "((u32 \<Rightarrow> u32 \<Rightarrow> int) \<Rightarrow> u32 list \<Rightarrow> u32 list) \<Rightarrow> u32 list \<Rightarrow> u32 list" where
  "groups_sort srt gs = srt gid_cmp gs"

function groups_search_loop :: "u32 list \<Rightarrow> u32 \<Rightarrow> nat \<Rightarrow> nat \<Rightarrow> bool" where
  "groups_search_loop gs grp left right =
     (if left < right
      then let mid = (left + right) div 2 in
        if grp > gs ! mid then groups_search_loop gs grp (mid + 1) right
        else if grp < gs ! mid then groups_search_loop gs grp left mid
        else True
      else False)"
  by pat_completeness auto
termination
  by (relation "measure (\<lambda>(gs, grp, left, right). right - left)") auto

declare groups_search_loop.simps [simp del]

definition groups_search :: "u32 list \<Rightarrow> u32 \<Rightarrow> bool" where
  "groups_search gs grp = groups_search_loop gs grp 0 (length gs)"

definition set_groups :: "cred \<Rightarrow> u32 list \<Rightarrow> cred" where
  "set_groups new gs = new\<lparr>group_info := gs\<rparr>"

definition set_current_groups :: "id_env \<Rightarrow> u32 list \<Rightarrow> cred_task \<Rightarrow> int \<times> cred_task" where
  "set_current_groups env gs t =
     (if \<not> ie_prepare env then (- ENOMEM, t)
      else let old = t_cred t; (retval, new) = ie_fix_setgroups env (set_groups old gs) old in
        if retval < 0 then (retval, t) else commit_creds env new t)"

definition sys_getgroups :: "u32 \<Rightarrow> user_namespace \<Rightarrow> (nat \<Rightarrow> bool) \<Rightarrow> int \<Rightarrow> cred_task \<Rightarrow> int" where
  "sys_getgroups overflowgid ns ok gidsetsize t =
     (if gidsetsize < 0 then - EINVAL
      else let i = int (length (group_info (t_cred t))) in
        if gidsetsize \<noteq> 0
        then if i > gidsetsize then - EINVAL
             else if fst (groups_to_user overflowgid ns ok 0 (group_info (t_cred t))) \<noteq> 0 then - EFAULT else i
        else i)"

definition may_setgroups :: "id_env \<Rightarrow> user_namespace \<Rightarrow> bool" where
  "may_setgroups env ns \<longleftrightarrow> ie_setgid env \<and> userns_may_setgroups ns"

definition sys_setgroups ::
  "id_env \<Rightarrow> ((u32 \<Rightarrow> u32 \<Rightarrow> int) \<Rightarrow> u32 list \<Rightarrow> u32 list) \<Rightarrow> bool \<Rightarrow> user_namespace \<Rightarrow> u32 \<Rightarrow> (nat \<Rightarrow> u32 option) \<Rightarrow>
   cred_task \<Rightarrow> int \<times> cred_task" where
  "sys_setgroups env srt alloc_ok ns gidsetsize user t =
     (if \<not> may_setgroups env ns then (- EPERM, t)
      else if unat gidsetsize > NGROUPS_MAX then (- EINVAL, t)
      else if \<not> alloc_ok then (- ENOMEM, t)
      else case groups_from_user ns user 0 (unat gidsetsize) of Inl e \<Rightarrow> (e, t)
      | Inr gs \<Rightarrow> set_current_groups env (groups_sort srt gs) t)"

definition in_group_p :: "cred_task \<Rightarrow> u32 \<Rightarrow> bool" where
  "in_group_p t grp = (if grp \<noteq> fsgid (t_cred t) then groups_search (group_info (t_cred t)) grp else True)"

definition in_egroup_p :: "cred_task \<Rightarrow> u32 \<Rightarrow> bool" where
  "in_egroup_p t grp = (if grp \<noteq> egid (t_cred t) then groups_search (group_info (t_cred t)) grp else True)"

section \<open>16-bit ids\<close>

definition high2low :: "u32 \<Rightarrow> u32 \<Rightarrow> u16" where
  "high2low overflow i = (if i AND NOT 0xFFFF \<noteq> 0 then ucast overflow else ucast i)"

definition low2high :: "u16 \<Rightarrow> u32" where
  "low2high i = (if i = - 1 then - 1 else ucast i)"

definition setregid16 where "setregid16 env ns r e t = sys_setregid env ns (low2high r) (low2high e) t"
definition setgid16 where "setgid16 env ns g t = sys_setgid env ns (low2high g) t"
definition setreuid16 where "setreuid16 env ns r e t = sys_setreuid env ns (low2high r) (low2high e) t"
definition setuid16 where "setuid16 env ns u t = sys_setuid env ns (low2high u) t"
definition setresuid16 where "setresuid16 env ns r e s t = sys_setresuid env ns (low2high r) (low2high e) (low2high s) t"
definition setresgid16 where "setresgid16 env ns r e s t = sys_setresgid env ns (low2high r) (low2high e) (low2high s) t"
definition setfsuid16 where "setfsuid16 env ov ns u t = sys_setfsuid env ov ns (low2high u) t"
definition setfsgid16 where "setfsgid16 env ov ns g t = sys_setfsgid env ov ns (low2high g) t"

definition getresuid16 where
  "getresuid16 overflowuid ns p1 p2 p3 t =
     (let f = (\<lambda>k. high2low overflowuid (from_kuid_munged overflowuid ns k)); c = t_cred t
      in put3 p1 p2 p3 (f (uid c)) (f (euid c)) (f (suid c)))"

definition getresgid16 where
  "getresgid16 overflowgid ns p1 p2 p3 t =
     (let f = (\<lambda>k. high2low overflowgid (from_kgid_munged overflowgid ns k)); c = t_cred t
      in put3 p1 p2 p3 (f (gid c)) (f (egid c)) (f (sgid c)))"

definition getuid16 where "getuid16 ov ns t = high2low ov (from_kuid_munged ov ns (uid (t_cred t)))"
definition geteuid16 where "geteuid16 ov ns t = high2low ov (from_kuid_munged ov ns (euid (t_cred t)))"
definition getgid16 where "getgid16 ov ns t = high2low ov (from_kgid_munged ov ns (gid (t_cred t)))"
definition getegid16 where "getegid16 ov ns t = high2low ov (from_kgid_munged ov ns (egid (t_cred t)))"

fun groups16_from_user :: "user_namespace \<Rightarrow> (nat \<Rightarrow> u16 option) \<Rightarrow> nat \<Rightarrow> nat \<Rightarrow> int + u32 list" where
  "groups16_from_user ns user i 0 = Inr []"
| "groups16_from_user ns user i (Suc n) =
     (case user i of None \<Rightarrow> Inl (- EFAULT)
      | Some g \<Rightarrow>
          let kgid = make_kgid ns (low2high g) in
          if \<not> gid_valid kgid then Inl (- EINVAL)
          else (case groups16_from_user ns user (Suc i) n of Inl e \<Rightarrow> Inl e | Inr gs \<Rightarrow> Inr (kgid # gs)))"

fun groups16_to_user :: "u32 \<Rightarrow> user_namespace \<Rightarrow> (nat \<Rightarrow> bool) \<Rightarrow> nat \<Rightarrow> u32 list \<Rightarrow> int \<times> u16 list" where
  "groups16_to_user overflowgid ns ok i [] = (0, [])"
| "groups16_to_user overflowgid ns ok i (k # ks) =
     (if \<not> ok i then (- EFAULT, [])
      else let (r, gs) = groups16_to_user overflowgid ns ok (Suc i) ks
           in (r, high2low overflowgid (from_kgid_munged overflowgid ns k) # gs))"

definition getgroups16 :: "u32 \<Rightarrow> user_namespace \<Rightarrow> (nat \<Rightarrow> bool) \<Rightarrow> int \<Rightarrow> cred_task \<Rightarrow> int" where
  "getgroups16 overflowgid ns ok gidsetsize t =
     (if gidsetsize < 0 then - EINVAL
      else let i = int (length (group_info (t_cred t))) in
        if gidsetsize \<noteq> 0
        then if i > gidsetsize then - EINVAL
             else if fst (groups16_to_user overflowgid ns ok 0 (group_info (t_cred t))) \<noteq> 0 then - EFAULT else i
        else i)"

definition setgroups16 ::
  "id_env \<Rightarrow> ((u32 \<Rightarrow> u32 \<Rightarrow> int) \<Rightarrow> u32 list \<Rightarrow> u32 list) \<Rightarrow> bool \<Rightarrow> user_namespace \<Rightarrow> u32 \<Rightarrow> (nat \<Rightarrow> u16 option) \<Rightarrow>
   cred_task \<Rightarrow> int \<times> cred_task" where
  "setgroups16 env srt alloc_ok ns gidsetsize user t =
     (if \<not> may_setgroups env ns then (- EPERM, t)
      else if unat gidsetsize > NGROUPS_MAX then (- EINVAL, t)
      else if \<not> alloc_ok then (- ENOMEM, t)
      else case groups16_from_user ns user 0 (unat gidsetsize) of Inl e \<Rightarrow> (e, t)
      | Inr gs \<Rightarrow> set_current_groups env (groups_sort srt gs) t)"

section \<open>Calls in sequence\<close>

datatype setid_call =
    Setreuid u32 u32 | Setuid u32 | Setresuid u32 u32 u32 | Setfsuid u32
  | Setregid u32 u32 | Setgid u32 | Setresgid u32 u32 u32 | Setfsgid u32

definition do_setid :: "user_namespace \<Rightarrow> id_env \<times> setid_call \<Rightarrow> cred_task \<Rightarrow> cred_task" where
  "do_setid ns ec t = (case ec of (env, call) \<Rightarrow> (case call of
     Setreuid r e \<Rightarrow> snd (sys_setreuid env ns r e t) | Setuid u \<Rightarrow> snd (sys_setuid env ns u t)
   | Setresuid r e s \<Rightarrow> snd (sys_setresuid env ns r e s t) | Setfsuid u \<Rightarrow> snd (sys_setfsuid env 65534 ns u t)
   | Setregid r e \<Rightarrow> snd (sys_setregid env ns r e t) | Setgid g \<Rightarrow> snd (sys_setgid env ns g t)
   | Setresgid r e s \<Rightarrow> snd (sys_setresgid env ns r e s t) | Setfsgid g \<Rightarrow> snd (sys_setfsgid env 65534 ns g t)))"

definition ids :: "cred \<Rightarrow> u32 list" where
  "ids c = [uid c, euid c, suid c, fsuid c, gid c, egid c, sgid c, fsgid c]"

text \<open>What is documented of the security hooks: they may refuse or change capabilities, not the ids.\<close>

definition lsm_keeps_ids :: "id_env \<Rightarrow> bool" where
  "lsm_keeps_ids env \<longleftrightarrow>
     (\<forall>new old how. ids (snd (ie_fix_setuid env new old how)) = ids new \<and> ids (snd (ie_fix_setgid env new old how)) = ids new) \<and>
     (\<forall>new old. ids (snd (ie_fix_setgroups env new old)) = ids new \<and>
        group_info (snd (ie_fix_setgroups env new old)) = group_info new)"

definition unprivileged :: "id_env \<Rightarrow> bool" where
  "unprivileged env \<longleftrightarrow> \<not> ie_setuid env \<and> \<not> ie_setgid env \<and> lsm_keeps_ids env"

text \<open>The ids of the second credentials are among those of the first.\<close>

definition uid_set :: "cred \<Rightarrow> u32 set" where "uid_set c = {uid c, euid c, suid c}"
definition gid_set :: "cred \<Rightarrow> u32 set" where "gid_set c = {gid c, egid c, sgid c}"

definition ids_within :: "cred \<Rightarrow> cred \<Rightarrow> bool" where
  "ids_within old c \<longleftrightarrow>
     uid_set c \<subseteq> uid_set old \<and> fsuid c \<in> insert (fsuid old) (uid_set old) \<and>
     gid_set c \<subseteq> gid_set old \<and> fsgid c \<in> insert (fsgid old) (gid_set old)"

lemma ids_within_refl [simp]: "ids_within c c"
  by (simp add: ids_within_def)

lemma ids_within_trans: "ids_within a b \<Longrightarrow> ids_within b c \<Longrightarrow> ids_within a c"
  unfolding ids_within_def by (auto dest: subsetD)

lemmas ids_within_simps = ids_within_def uid_set_def gid_set_def

lemma ids_within_cong: "ids c = ids c' \<Longrightarrow> ids_within a c = ids_within a c'"
  by (simp add: ids_def ids_within_simps)

lemma commit_cred [simp]: "t_cred (snd (commit_creds env new t)) = new" "fst (commit_creds env new t) = 0"
  by (simp_all add: commit_creds_def Let_def)

lemma finish_setuid_cred:
  assumes "lsm_keeps_ids env"
  shows "ids (t_cred (snd (finish_setuid env how new old t))) \<in> {ids (t_cred t), ids new}"
    and "fst (finish_setuid env how new old t) < 0 \<or> fst (finish_setuid env how new old t) = 0 \<and> ids (t_cred (snd (finish_setuid env how new old t))) = ids new"
    and "fst (finish_setuid env how new old t) < 0 \<Longrightarrow> snd (finish_setuid env how new old t) = t"
proof -
  obtain r n where f: "ie_fix_setuid env new old how = (r, n)" by (rule prod.exhaust)
  then have n: "ids n = ids new" using assms unfolding lsm_keeps_ids_def by (metis snd_conv)
  show "ids (t_cred (snd (finish_setuid env how new old t))) \<in> {ids (t_cred t), ids new}"
    "fst (finish_setuid env how new old t) < 0 \<or> fst (finish_setuid env how new old t) = 0 \<and> ids (t_cred (snd (finish_setuid env how new old t))) = ids new"
    "fst (finish_setuid env how new old t) < 0 \<Longrightarrow> snd (finish_setuid env how new old t) = t"
    using n by (auto simp: finish_setuid_def f split: if_splits)
qed

lemma finish_within:
  assumes "lsm_keeps_ids env" "ids_within (t_cred t) new"
  shows "ids_within (t_cred t) (t_cred (snd (finish_setuid env how new old t)))"
  using finish_setuid_cred(1) [OF assms(1), of how new old t] assms(2)
  by (metis empty_iff ids_within_cong ids_within_refl insert_iff)

lemma fix_within:
  assumes "lsm_keeps_ids env" "ids_within old new"
  shows "ids_within old (snd (ie_fix_setgid env new old how))" "ids_within old (snd (ie_fix_setuid env new old how))"
  using assms ids_within_cong [of "snd (ie_fix_setgid env new old how)" new old]
    ids_within_cong [of "snd (ie_fix_setuid env new old how)" new old] by (simp_all add: lsm_keeps_ids_def)

lemma set_user_cases: "set_user env c = (r, n) \<Longrightarrow> ids n = ids c"
  by (auto simp: set_user_def ids_def split: if_splits)

text \<open>The calls are chains of conditions that end in an error, which changes nothing, or in a commit.\<close>

definition call_within :: "cred_task \<Rightarrow> 'r \<times> cred_task \<Rightarrow> bool" where
  "call_within t res \<longleftrightarrow> ids_within (t_cred t) (t_cred (snd res))"

lemma call_within_if: "(b \<Longrightarrow> call_within t x) \<Longrightarrow> (\<not> b \<Longrightarrow> call_within t y) \<Longrightarrow> call_within t (if b then x else y)"
  by simp

lemma call_within_same: "call_within t (r, t)"
  by (simp add: call_within_def)

lemma call_within_gid:
  assumes "lsm_keeps_ids env" "ids_within (t_cred t) new"
  shows "call_within t (case ie_fix_setgid env new (t_cred t) how of (r, n) \<Rightarrow> if r < 0 then (r, t) else commit_creds env n t)"
    and "call_within t (case ie_fix_setgid env new (t_cred t) how of (r, n) \<Rightarrow> if r = 0 then (x, snd (commit_creds env n t)) else (x, t))"
    and "call_within t (case ie_fix_setuid env new (t_cred t) how of (r, n) \<Rightarrow> if r = 0 then (x, snd (commit_creds env n t)) else (x, t))"
  using fix_within [OF assms, of how] by (auto simp: call_within_def split: prod.splits)

lemma call_within_finish:
  "lsm_keeps_ids env \<Longrightarrow> ids_within (t_cred t) new \<Longrightarrow> call_within t (finish_setuid env how new (t_cred t) t)"
  using finish_within by (simp add: call_within_def)

lemma setgid_calls_within:
  assumes "unprivileged env"
  shows "call_within t (sys_setregid env ns r e t)" and "call_within t (sys_setgid env ns r t)"
    and "call_within t (sys_setresgid env ns r e s t)" and "call_within t (sys_setfsgid env ov ns r t)"
proof -
  have l: "lsm_keeps_ids env" and c: "\<not> ie_setgid env" using assms by (simp_all add: unprivileged_def)
  show "call_within t (sys_setregid env ns r e t)"
    apply (cases "r = - 1"; cases "e = - 1"; simp add: sys_setregid_def Let_def c)
       apply (intro conjI impI call_within_same call_within_gid(1) [OF l]; auto simp: ids_within_simps)+
    done
  show "call_within t (sys_setgid env ns r t)"
    unfolding sys_setgid_def Let_def
    by (intro call_within_if call_within_same call_within_gid(1) [OF l]) (use c in \<open>auto simp: ids_within_simps\<close>)
  show "call_within t (sys_setresgid env ns r e s t)"
    apply (cases "r = - 1"; cases "e = - 1"; cases "s = - 1"; simp add: sys_setresgid_def Let_def c call_within_same)
          apply (intro conjI impI call_within_same call_within_gid(1) [OF l]; auto simp: ids_within_simps)+
    done
  show "call_within t (sys_setfsgid env ov ns r t)"
    unfolding sys_setfsgid_def Let_def
    by (intro call_within_if call_within_same call_within_gid(2) [OF l]) (use c in \<open>auto simp: ids_within_simps\<close>)
qed

lemma call_within_set_user:
  assumes "\<And>n. ids n = ids new \<Longrightarrow> call_within t (f n)"
  shows "call_within t (case set_user env new of (r, n) \<Rightarrow> if r < 0 then (r, t) else f n)"
  using assms set_user_cases [of env new] call_within_same by (auto split: prod.splits)

lemma setuid_calls_within:
  assumes "unprivileged env"
  shows "call_within t (sys_setreuid env ns r e t)" and "call_within t (sys_setuid env ns r t)"
    and "call_within t (sys_setresuid env ns r e s t)" and "call_within t (sys_setfsuid env ov ns r t)"
proof -
  have l: "lsm_keeps_ids env" and c: "\<not> ie_setuid env" using assms by (simp_all add: unprivileged_def)
  show "call_within t (sys_setreuid env ns r e t)"
    apply (cases "r = - 1"; cases "e = - 1"; simp add: sys_setreuid_def Let_def c)
       apply (intro conjI impI call_within_same call_within_set_user call_within_finish [OF l]; auto simp: ids_within_simps ids_def)+
    done
  show "call_within t (sys_setuid env ns r t)"
    apply (simp add: sys_setuid_def Let_def c)
    apply (intro conjI impI call_within_same call_within_finish [OF l]; auto simp: ids_within_simps)
    done
  show "call_within t (sys_setresuid env ns r e s t)"
    apply (cases "r = - 1"; cases "e = - 1"; cases "s = - 1"; simp add: sys_setresuid_def Let_def c call_within_same)
          apply (intro conjI impI call_within_same call_within_set_user call_within_finish [OF l]; auto simp: ids_within_simps ids_def)+
    done
  show "call_within t (sys_setfsuid env ov ns r t)"
    unfolding sys_setfsuid_def Let_def
    by (intro call_within_if call_within_same call_within_gid(3) [OF l]) (use c in \<open>auto simp: ids_within_simps\<close>)
qed

lemma do_setid_within: "unprivileged env \<Longrightarrow> ids_within (t_cred t) (t_cred (do_setid ns (env, call) t))"
  using setuid_calls_within [of env t] setgid_calls_within [of env t]
  by (cases call) (simp_all add: do_setid_def call_within_def)

lemma do_setids_within:
  "list_all (\<lambda>ec. unprivileged (fst ec)) calls \<Longrightarrow> ids_within (t_cred t) (t_cred (fold (do_setid ns) calls t))"
proof (induction calls arbitrary: t)
  case (Cons ec calls)
  obtain env call where ec: "ec = (env, call)" by (rule prod.exhaust)
  have "ids_within (t_cred t) (t_cred (do_setid ns ec t))" using do_setid_within Cons.prems by (simp add: ec)
  moreover have "ids_within (t_cred (do_setid ns ec t)) (t_cred (fold (do_setid ns) calls (do_setid ns ec t)))"
    using Cons by simp
  ultimately show ?case using ids_within_trans by simp
qed simp

section \<open>Properties\<close>

text \<open>C10: without CAP_SETUID and CAP_SETGID no sequence of the set*id calls gives a task an id it did not
  have: its real, effective and saved uids stay among the three it had, its filesystem uid among
  those and the one it had, and likewise for the gids.\<close>

theorem unprivileged_ids_never_grow:
  assumes "list_all (\<lambda>ec. unprivileged (fst ec)) calls" "t' = fold (do_setid ns) calls t"
  shows "{uid (t_cred t'), euid (t_cred t'), suid (t_cred t')} \<subseteq> {uid (t_cred t), euid (t_cred t), suid (t_cred t)} \<and>
    fsuid (t_cred t') \<in> {uid (t_cred t), euid (t_cred t), suid (t_cred t), fsuid (t_cred t)} \<and>
    {gid (t_cred t'), egid (t_cred t'), sgid (t_cred t')} \<subseteq> {gid (t_cred t), egid (t_cred t), sgid (t_cred t)} \<and>
    fsgid (t_cred t') \<in> {gid (t_cred t), egid (t_cred t), sgid (t_cred t), fsgid (t_cred t)}"
  using do_setids_within [OF assms(1), of t ns] unfolding assms(2) ids_within_simps by (simp add: insert_commute)

definition plain_env :: "bool \<Rightarrow> id_env" where
  "plain_env cap = \<lparr>ie_prepare = True, ie_setuid = cap, ie_setgid = cap, ie_alloc_uid = True,
     ie_fix_setuid = (\<lambda>new old how. (0, new)), ie_fix_setgid = (\<lambda>new old how. (0, new)), ie_fix_setgroups = (\<lambda>new old. (0, new)),
     ie_ucounts = 0, ie_same_ucounts = True, ie_overlimit = False, ie_has_mm = True, ie_suid_dumpable = 0\<rparr>"

lemma plain_lsm: "lsm_keeps_ids (plain_env cap)"
  by (simp add: lsm_keeps_ids_def plain_env_def)

definition root_task :: cred_task where
  "root_task = \<lparr>t_cred = \<lparr>uid = 1000, gid = 1000, suid = 0, sgid = 1000, euid = 0, egid = 1000, fsuid = 0, fsgid = 1000,
     cap_permitted = 0, cr_user = 1000, group_info = []\<rparr>, t_dumpable = 1, pdeath_signal = 9, nproc_exceeded = False\<rparr>"

theorem unprivileged_ids_never_grow_witness:
  "uid (t_cred (fold (do_setid init_user_ns) [(plain_env False, Setreuid (- 1) 1000), (plain_env False, Setuid 0)] root_task)) \<in> {1000, 0}"
  using unprivileged_ids_never_grow [of "[(plain_env False, Setreuid (- 1) 1000), (plain_env False, Setuid 0)]" _ init_user_ns root_task, OF _ refl]
  by (simp add: unprivileged_def plain_lsm) (simp add: plain_env_def root_task_def)

lemma setuid_privileged:
  assumes "lsm_keeps_ids env" "ie_setuid env" "sys_setuid env ns u t = (0, t')"
  shows "uid (t_cred t') = make_kuid ns u \<and> euid (t_cred t') = make_kuid ns u \<and> suid (t_cred t') = make_kuid ns u \<and>
    fsuid (t_cred t') = make_kuid ns u \<and> gid (t_cred t') = gid (t_cred t) \<and> egid (t_cred t') = egid (t_cred t) \<and>
    sgid (t_cred t') = sgid (t_cred t) \<and> fsgid (t_cred t') = fsgid (t_cred t)"
proof -
  let ?k = "make_kuid ns u"
  obtain n where n: "ids n = ids ((t_cred t)\<lparr>suid := ?k, uid := ?k\<rparr>)"
    and f: "finish_setuid env LSM_SETID_ID (n\<lparr>fsuid := ?k, euid := ?k\<rparr>) (t_cred t) t = (0, t')"
    using assms(2,3) set_user_cases [of env "(t_cred t)\<lparr>suid := ?k, uid := ?k\<rparr>"]
    by (auto simp: sys_setuid_def Let_def errno_defs split: if_splits prod.splits)
  have "ids (t_cred t') = ids (n\<lparr>fsuid := ?k, euid := ?k\<rparr>)" using finish_setuid_cred(2) [OF assms(1), of LSM_SETID_ID _ "t_cred t" t] f
    by (metis fst_conv less_irrefl snd_conv)
  then show ?thesis using n by (simp add: ids_def)
qed

text \<open>C11: a privileged setuid drops the old identity for good: all four uids become the requested one, and
  no sequence of later calls without the capabilities changes any of them.\<close>

theorem setuid_drops_for_good:
  assumes "lsm_keeps_ids env" "ie_setuid env" "sys_setuid env ns u t = (0, t')"
    and "list_all (\<lambda>ec. unprivileged (fst ec)) calls" "t'' = fold (do_setid ns) calls t'"
  shows "uid (t_cred t'') = make_kuid ns u \<and> euid (t_cred t'') = make_kuid ns u \<and>
    suid (t_cred t'') = make_kuid ns u \<and> fsuid (t_cred t'') = make_kuid ns u"
  using do_setids_within [OF assms(4), of t' ns] setuid_privileged [OF assms(1-3)]
  unfolding assms(5) ids_within_simps by simp

theorem setuid_drops_for_good_witness:
  "suid (t_cred (fold (do_setid init_user_ns) [(plain_env False, Setresuid 0 0 0)] (snd (sys_setuid (plain_env True) init_user_ns 1000 root_task)))) = 1000"
proof -
  have k: "make_kuid init_user_ns 1000 = 1000"
    by (simp add: make_kuid_def init_user_ns_def full_map_def map_id_down_def map_id_range_down_def map_id_range_down_base_def UID_GID_MAP_MAX_BASE_EXTENTS_def)
  have f: "fst (sys_setuid (plain_env True) init_user_ns 1000 root_task) = 0"
    by (simp add: sys_setuid_def Let_def k plain_env_def uid_valid_def root_task_def finish_setuid_def set_user_def)
  show ?thesis
    using setuid_drops_for_good [of "plain_env True" init_user_ns 1000 root_task "snd (sys_setuid (plain_env True) init_user_ns 1000 root_task)"
        "[(plain_env False, Setresuid 0 0 0)]", OF plain_lsm _ _ _ refl] f k
    by (simp add: unprivileged_def plain_lsm prod_eq_iff) (simp add: plain_env_def)
qed

lemma search_loop_iff:
  "sorted gs \<Longrightarrow> right \<le> length gs \<Longrightarrow>
   groups_search_loop gs grp left right \<longleftrightarrow> (\<exists>i. left \<le> i \<and> i < right \<and> gs ! i = grp)"
proof (induction gs grp left right rule: groups_search_loop.induct)
  case (1 gs grp left right)
  show ?case
  proof (cases "left < right")
    case True
    let ?m = "(left + right) div 2"
    have m: "left \<le> ?m" "?m < right" using True by auto
    consider "grp > gs ! ?m" | "grp < gs ! ?m" | "grp = gs ! ?m" by (rule linorder_cases)
    then show ?thesis
    proof cases
      case 1
      have gt: "i > ?m" if "i < right" "gs ! i = grp" for i
        using 1 that "1.prems" m sorted_nth_mono [of gs i ?m] by (cases "i \<le> ?m") auto
      have eq: "left \<le> i \<and> i < right \<and> gs ! i = grp \<longleftrightarrow> ?m + 1 \<le> i \<and> i < right \<and> gs ! i = grp" for i
        using gt [of i] m by auto
      have "groups_search_loop gs grp left right = groups_search_loop gs grp (?m + 1) right"
        using True 1 by (subst groups_search_loop.simps) (simp add: Let_def)
      then show ?thesis using "1.IH"(1) [OF True refl 1 "1.prems"] by (simp only: eq)
    next
      case 2
      have lt: "i < ?m" if "i < right" "gs ! i = grp" for i
        using 2 that "1.prems" m sorted_nth_mono [of gs ?m i] by (cases "i < ?m") auto
      have eq: "left \<le> i \<and> i < right \<and> gs ! i = grp \<longleftrightarrow> left \<le> i \<and> i < ?m \<and> gs ! i = grp" for i
        using lt [of i] m by auto
      have ng: "\<not> gs ! ?m < grp" and le: "?m \<le> length gs" using 2 m "1.prems"(2) by auto
      have "groups_search_loop gs grp left right = groups_search_loop gs grp left ?m"
        using True 2 ng by (subst groups_search_loop.simps) (simp add: Let_def)
      then show ?thesis using "1.IH"(2) [OF True refl ng 2 "1.prems"(1) le] by (simp only: eq)
    next
      case 3
      then show ?thesis using True m by (subst groups_search_loop.simps) auto
    qed
  qed (simp add: groups_search_loop.simps)
qed

lemma groups_search_iff: "sorted gs \<Longrightarrow> groups_search gs grp \<longleftrightarrow> grp \<in> set gs"
  by (simp add: groups_search_def search_loop_iff in_set_conv_nth)

lemma groups_from_user_set:
  "groups_from_user ns user i n = Inr gs \<Longrightarrow>
     set gs = {k. \<exists>j g. (i \<le> j \<and> j < i + n) \<and> user j = Some g \<and> make_kgid ns g = k}"
proof (induction n arbitrary: i gs)
  case (Suc n)
  then obtain g gs' where g: "user i = Some g" "groups_from_user ns user (Suc i) n = Inr gs'" "gs = make_kgid ns g # gs'"
    by (auto simp: Let_def split: option.splits if_splits sum.splits)
  have j: "(i \<le> j \<and> j < i + Suc n) \<longleftrightarrow> j = i \<or> (Suc i \<le> j \<and> j < Suc i + n)" for j by auto
  show ?case unfolding g(3) list.set Suc.IH [OF g(2)] j using g(1) by (auto simp del: add_Suc)
qed simp

lemma groups_from_user_error: "groups_from_user ns user i n = Inl e \<Longrightarrow> e < 0"
  by (induction n arbitrary: i) (auto simp: Let_def errno_defs split: option.splits if_splits sum.splits)

text \<open>What is documented of \<open>sort\<close>, for the groups.\<close>

definition gsort_ok :: "((u32 \<Rightarrow> u32 \<Rightarrow> int) \<Rightarrow> u32 list \<Rightarrow> u32 list) \<Rightarrow> bool" where
  "gsort_ok srt \<longleftrightarrow> (\<forall>xs. mset (srt gid_cmp xs) = mset xs \<and> sorted_wrt (\<lambda>a b. gid_cmp a b \<le> 0) (srt gid_cmp xs))"

lemma gid_cmp_le: "gid_cmp a b \<le> 0 \<longleftrightarrow> a \<le> b"
  by (auto simp: gid_cmp_def)

lemma gid_cmp_less: "gid_cmp a b < 0 \<longleftrightarrow> a < b"
  by (auto simp: gid_cmp_def)

text \<open>After a successful setgroups, permission checks see exactly the groups of the user's array: a kernel
  gid passes in_group_p exactly when it is the filesystem gid or the image of an array element,
  found by binary search of the sorted copy.\<close>

theorem setgroups_membership:
  assumes "lsm_keeps_ids env" "gsort_ok srt" "sys_setgroups env srt alloc_ok ns n user t = (0, t')"
  shows "in_group_p t' k \<longleftrightarrow> k = fsgid (t_cred t) \<or> (\<exists>j g. j < unat n \<and> user j = Some g \<and> make_kgid ns g = k)"
proof -
  from assms(3) obtain gs where gs: "groups_from_user ns user 0 (unat n) = Inr gs"
    and sc: "set_current_groups env (groups_sort srt gs) t = (0, t')"
    using groups_from_user_error [of ns user 0 "unat n" 0]
    by (cases "groups_from_user ns user 0 (unat n)") (auto simp: sys_setgroups_def errno_defs split: if_splits)
  from sc have "t_cred t' = snd (ie_fix_setgroups env (set_groups (t_cred t) (groups_sort srt gs)) (t_cred t))"
    by (auto simp: set_current_groups_def commit_creds_def Let_def errno_defs split: if_splits prod.splits)
  then have c: "group_info (t_cred t') = groups_sort srt gs" "fsgid (t_cred t') = fsgid (t_cred t)"
    using assms(1) by (simp_all add: lsm_keeps_ids_def set_groups_def ids_def)
  have "sorted (groups_sort srt gs)" "set (groups_sort srt gs) = set gs"
    using assms(2) mset_eq_setD [of "srt gid_cmp gs" gs] by (simp_all add: gsort_ok_def groups_sort_def gid_cmp_le)
  then show ?thesis using groups_from_user_set [OF gs] by (simp add: in_group_p_def c groups_search_iff)
qed

definition gid_sort :: "(u32 \<Rightarrow> u32 \<Rightarrow> int) \<Rightarrow> u32 list \<Rightarrow> u32 list" where
  "gid_sort cmp xs = foldr (insort_cmp cmp) xs []"

lemma gid_sort_ok: "gsort_ok gid_sort"
proof -
  have "mset (gid_sort gid_cmp xs) = mset xs" for xs
    by (induction xs) (simp_all add: gid_sort_def insort_cmp_mset)
  moreover have "sorted_wrt (\<lambda>a b. gid_cmp a b \<le> 0) (gid_sort gid_cmp xs)" for xs
    by (induction xs) (simp_all add: gid_sort_def insort_cmp_sorted [where f = "\<lambda>g. g", OF gid_cmp_le gid_cmp_less])
  ultimately show ?thesis by (simp add: gsort_ok_def)
qed

theorem setgroups_membership_witness:
  "in_group_p (snd (sys_setgroups (plain_env True) gid_sort True init_user_ns 2 (\<lambda>j. Some (if j = 0 then 30 else 20)) root_task)) 20"
proof -
  let ?u = "\<lambda>j. Some (if j = 0 then 30 else 20) :: u32 option"
  have k: "make_kgid init_user_ns 20 = 20" "make_kgid init_user_ns 30 = 30"
    by (simp_all add: make_kgid_def init_user_ns_def full_map_def map_id_down_def map_id_range_down_def map_id_range_down_base_def UID_GID_MAP_MAX_BASE_EXTENTS_def)
  have u: "unat (2 :: u32) = Suc (Suc 0)" by simp
  have m: "may_setgroups (plain_env True) init_user_ns"
    by (simp add: may_setgroups_def userns_may_setgroups_def plain_env_def init_user_ns_def full_map_def USERNS_SETGROUPS_ALLOWED_def)
  have "groups_from_user init_user_ns ?u 0 (unat (2 :: u32)) = Inr [30, 20]"
    unfolding u by (simp add: k gid_valid_def)
  moreover have "\<not> unat (2 :: u32) > NGROUPS_MAX" by (simp add: NGROUPS_MAX_def)
  ultimately have f: "fst (sys_setgroups (plain_env True) gid_sort True init_user_ns 2 ?u root_task) = 0"
    unfolding sys_setgroups_def using m by (simp only: if_True if_False not_True_eq_False not_False_eq_True sum.case)
      (simp add: set_current_groups_def plain_env_def)
  show ?thesis
    using setgroups_membership [OF plain_lsm gid_sort_ok, of True True init_user_ns 2 ?u root_task
        "snd (sys_setgroups (plain_env True) gid_sort True init_user_ns 2 ?u root_task)" 20] f k(1)
    by (auto simp: prod_eq_iff dest: spec [of _ 1])
qed

text \<open>A refused call changes nothing: every set*id call and setgroups that returns an error leaves the
  credentials, the dumpable flag, the parent death signal and the process limit flag as they were.\<close>

theorem refused_calls_change_nothing:
  "(fst (sys_setreuid env ns r e t) < 0 \<longrightarrow> snd (sys_setreuid env ns r e t) = t) \<and>
   (fst (sys_setuid env ns r t) < 0 \<longrightarrow> snd (sys_setuid env ns r t) = t) \<and>
   (fst (sys_setresuid env ns r e s t) < 0 \<longrightarrow> snd (sys_setresuid env ns r e s t) = t) \<and>
   (fst (sys_setregid env ns r e t) < 0 \<longrightarrow> snd (sys_setregid env ns r e t) = t) \<and>
   (fst (sys_setgid env ns r t) < 0 \<longrightarrow> snd (sys_setgid env ns r t) = t) \<and>
   (fst (sys_setresgid env ns r e s t) < 0 \<longrightarrow> snd (sys_setresgid env ns r e s t) = t) \<and>
   (fst (sys_setgroups env srt ok ns n user t) < 0 \<longrightarrow> snd (sys_setgroups env srt ok ns n user t) = t)"
proof -
  define same where "same x \<longleftrightarrow> (fst x < (0 :: int) \<longrightarrow> snd x = t)" for x
  have i: "same (if b then x else y)" if "b \<Longrightarrow> same x" "\<not> b \<Longrightarrow> same y" for b x y using that by simp
  have e: "same (r, t)" for r by (simp add: same_def)
  have c: "same (case p of (r, n) \<Rightarrow> if r < 0 then (r, t) else commit_creds env n (h n))" for p h
    by (simp add: same_def commit_creds_def Let_def split: prod.splits)
  have f: "same (finish_setuid env how new old t)" for how new old
    by (simp add: same_def finish_setuid_def commit_creds_def Let_def split: prod.splits)
  have p: "same (case q of (r, n) \<Rightarrow> if r < 0 then (r, t) else finish_setuid env how (h n) old t)" for q how h old
    using f e by (simp split: prod.splits)
  have "same (sys_setreuid env ns r e t)" unfolding sys_setreuid_def Let_def by (intro i e p)
  moreover have "same (sys_setuid env ns r t)" unfolding sys_setuid_def Let_def by (intro i e p)
  moreover have "same (sys_setresuid env ns r e s t)" unfolding sys_setresuid_def Let_def by (intro i e p)
  moreover have "same (sys_setregid env ns r e t)" unfolding sys_setregid_def Let_def by (intro i e c [where h = "\<lambda>n. t"])
  moreover have "same (sys_setgid env ns r t)" unfolding sys_setgid_def Let_def by (intro i e c [where h = "\<lambda>n. t"])
  moreover have "same (sys_setresgid env ns r e s t)" unfolding sys_setresgid_def Let_def by (intro i e c [where h = "\<lambda>n. t"])
  moreover have "same (set_current_groups env gs t)" for gs
    unfolding set_current_groups_def Let_def by (intro i e c [where h = "\<lambda>n. t"])
  then have "same (sys_setgroups env srt ok ns n user t)"
    unfolding sys_setgroups_def using e by (auto split: sum.splits)
  ultimately show ?thesis by (simp add: same_def)
qed

theorem refused_calls_change_nothing_witness:
  "fst (sys_setuid (plain_env False) init_user_ns (- 1) root_task) < 0 \<and> snd (sys_setuid (plain_env False) init_user_ns (- 1) root_task) = root_task"
proof -
  have k: "make_kuid init_user_ns (- 1) = - 1" using down_invalid [OF full_map_wf] by (simp add: make_kuid_def init_user_ns_def)
  have "fst (sys_setuid (plain_env False) init_user_ns (- 1) root_task) < 0"
    by (simp add: sys_setuid_def k uid_valid_def errno_defs)
  then show ?thesis using refused_calls_change_nothing [of "plain_env False" init_user_ns "- 1" _ root_task] by blast
qed

end
