(* ===== verification/Ranges.thy ===== *)
theory Ranges
  imports Prelude "HOL-Library.Multiset"
begin

text \<open>
  Arrays of address ranges (kernel/range.c): adding a range, adding it merged with those it
  touches, and taking a range away. A slot whose end is 0 is free. What an array means is the set
  of addresses it covers, and each operation is shown to be the set operation.
\<close>

section \<open>Ranges and operations\<close>

record range =
  rstart :: u64
  rend :: u64

definition free_slot :: range where "free_slot = \<lparr>rstart = 0, rend = 0\<rparr>"

definition add_range :: "nat \<Rightarrow> nat \<Rightarrow> u64 \<Rightarrow> u64 \<Rightarrow> range list \<Rightarrow> nat \<times> range list" where
  "add_range az nr_range st en rs =
     (if st \<ge> en then (nr_range, rs)
      else if nr_range \<ge> az then (nr_range, rs)
      else (nr_range + 1, rs[nr_range := \<lparr>rstart = st, rend = en\<rparr>]))"

text \<open>\<open>memmove\<close> of the slots after i down by one, and the last slot in use cleared.\<close>

definition drop_slot :: "nat \<Rightarrow> nat \<Rightarrow> range list \<Rightarrow> range list" where
  "drop_slot nr i rs = take i rs @ take (nr - (i + 1)) (drop (i + 1) rs) @ free_slot # drop nr rs"

function merge_loop :: "nat \<Rightarrow> nat \<Rightarrow> u64 \<Rightarrow> u64 \<Rightarrow> range list \<Rightarrow> nat \<times> u64 \<times> u64 \<times> range list" where
  "merge_loop i nr st en rs =
     (if i < nr then
        let r = rs ! i in
        if rend r = 0 then merge_loop (i + 1) nr st en rs
        else if max (rstart r) st > min (rend r) en then merge_loop (i + 1) nr st en rs
        else merge_loop i (nr - 1) (min (rstart r) st) (max (rend r) en) (drop_slot nr i rs)
      else (nr, st, en, rs))"
  by pat_completeness auto
termination by (relation "measure (\<lambda>(i, nr, st, en, rs). nr - i)") auto

declare merge_loop.simps [simp del]

definition add_range_with_merge :: "nat \<Rightarrow> nat \<Rightarrow> u64 \<Rightarrow> u64 \<Rightarrow> range list \<Rightarrow> nat \<times> range list" where
  "add_range_with_merge az nr_range st en rs =
     (if st \<ge> en then (nr_range, rs)
      else case merge_loop 0 nr_range st en rs of (nr, st', en', rs') \<Rightarrow> add_range az nr st' en' rs')"

text \<open>The first free slot, or the length of the array.\<close>

definition find_spare :: "range list \<Rightarrow> nat" where
  "find_spare rs = length (takeWhile (\<lambda>r. rend r \<noteq> 0) rs)"

text \<open>One turn of the loop of \<open>subtract_range\<close>; the flag is whether a message was printed.\<close>

definition subtract_one :: "nat \<Rightarrow> u64 \<Rightarrow> u64 \<Rightarrow> bool \<times> range list \<Rightarrow> bool \<times> range list" where
  "subtract_one j st en s = (case s of (err, rs) \<Rightarrow>
     let r = rs ! j in
     if rend r = 0 then (err, rs)
     else if st \<le> rstart r \<and> en \<ge> rend r then (err, rs[j := free_slot])
     else if st \<le> rstart r \<and> en < rend r \<and> rstart r < en then (err, rs[j := r\<lparr>rstart := en\<rparr>])
     else if st > rstart r \<and> en \<ge> rend r \<and> rend r > st then (err, rs[j := r\<lparr>rend := st\<rparr>])
     else if st > rstart r \<and> en < rend r then
       (let i = find_spare rs in
        if i < length rs
        then (err, (rs[i := \<lparr>rstart = en, rend = rend r\<rparr>])[j := r\<lparr>rend := st\<rparr>])
        else (True, rs[j := r\<lparr>rend := st\<rparr>]))
     else (err, rs))"

definition subtract_range :: "u64 \<Rightarrow> u64 \<Rightarrow> range list \<Rightarrow> bool \<times> range list" where
  "subtract_range st en rs =
     (if st \<ge> en then (False, rs) else fold (\<lambda>j. subtract_one j st en) [0..<length rs] (False, rs))"

definition cmp_range :: "range \<Rightarrow> range \<Rightarrow> int" where
  "cmp_range r1 r2 = (if rstart r1 < rstart r2 then -1 else if rstart r1 > rstart r2 then 1 else 0)"

text \<open>\<open>clean_sort_range\<close>: fill free slots from the back, count, sort the slots in use.\<close>

fun last_used :: "range list \<Rightarrow> nat \<Rightarrow> nat \<Rightarrow> nat option" where
  "last_used rs i j = (if j > i then if rend (rs ! j) \<noteq> 0 then Some j else last_used rs i (j - 1) else None)"

declare last_used.simps [simp del]

function fill_loop :: "nat \<Rightarrow> nat \<Rightarrow> range list \<Rightarrow> range list" where
  "fill_loop i k rs =
     (if i < k then
        if rend (rs ! i) \<noteq> 0 then fill_loop (i + 1) k rs
        else (case last_used rs i k of None \<Rightarrow> rs
              | Some j \<Rightarrow> fill_loop (i + 1) (j - 1) ((rs[i := rs ! j])[j := free_slot]))
      else rs)"
  by pat_completeness auto

lemma last_usedD: "last_used rs i j = Some k \<Longrightarrow> i < k \<and> k \<le> j \<and> rend (rs ! k) \<noteq> 0 \<and> (\<forall>m. k < m \<and> m \<le> j \<longrightarrow> rend (rs ! m) = 0)"
proof (induction rs i j rule: last_used.induct)
  case (1 rs i j)
  show ?case
  proof (cases "j > i \<and> rend (rs ! j) = 0")
    case True
    then have "last_used rs i (j - 1) = Some k" using 1 by (subst (asm) last_used.simps) simp
    then have h: "i < k \<and> k \<le> j - 1 \<and> rend (rs ! k) \<noteq> 0 \<and> (\<forall>m. k < m \<and> m \<le> j - 1 \<longrightarrow> rend (rs ! m) = 0)"
      using 1 True by blast
    have "rend (rs ! m) = 0" if "k < m" "m \<le> j" for m using that h True by (cases "m = j") auto
    then show ?thesis using h by auto
  next
    case False
    then show ?thesis using 1 by (subst (asm) last_used.simps) (auto split: if_splits)
  qed
qed

lemma last_used_None: "last_used rs i j = None \<Longrightarrow> i < m \<Longrightarrow> m \<le> j \<Longrightarrow> rend (rs ! m) = 0"
proof (induction rs i j rule: last_used.induct)
  case (1 rs i j)
  then have j: "j > i" "rend (rs ! j) = 0" "last_used rs i (j - 1) = None"
    by (auto simp: last_used.simps [of rs i j] split: if_splits)
  then show ?case using 1 by (cases "m = j") auto
qed

termination fill_loop
  by (relation "measure (\<lambda>(i, k, rs). k - i)") (auto dest!: last_usedD)

declare fill_loop.simps [simp del]

definition clean_sort_range :: "((range \<Rightarrow> range \<Rightarrow> int) \<Rightarrow> range list \<Rightarrow> range list) \<Rightarrow> range list \<Rightarrow> nat \<times> range list" where
  "clean_sort_range srt rs =
     (let rs1 = fill_loop 0 (length rs - 1) rs; nr = find_spare rs1
      in (nr, srt cmp_range (take nr rs1) @ drop nr rs1))"

definition sort_range :: "((range \<Rightarrow> range \<Rightarrow> int) \<Rightarrow> range list \<Rightarrow> range list) \<Rightarrow> nat \<Rightarrow> range list \<Rightarrow> range list" where
  "sort_range srt nr_range rs = srt cmp_range (take nr_range rs) @ drop nr_range rs"

section \<open>What an array covers\<close>

definition addrs :: "range \<Rightarrow> nat set" where
  "addrs r = (if rend r = 0 then {} else {unat (rstart r) ..< unat (rend r)})"

definition cover :: "range list \<Rightarrow> nat set" where
  "cover rs = (\<Union>r \<in> set rs. addrs r)"

lemma cover_nth: "cover rs = (\<Union>i \<in> {..<length rs}. addrs (rs ! i))"
  by (auto simp: cover_def set_conv_nth)

lemma cover_append [simp]: "cover (xs @ ys) = cover xs \<union> cover ys"
  by (auto simp: cover_def)

lemma cover_Cons [simp]: "cover (x # xs) = addrs x \<union> cover xs" and cover_Nil [simp]: "cover [] = {}"
  by (auto simp: cover_def)

lemma addrs_free [simp]: "addrs free_slot = {}"
  by (simp add: addrs_def free_slot_def)

lemma addrs_interval [simp]: "addrs \<lparr>rstart = a, rend = b\<rparr> = {unat a ..< unat b}"
  by (auto simp: addrs_def)

definition others :: "range list \<Rightarrow> nat \<Rightarrow> nat set" where
  "others rs j = (\<Union>i \<in> {..<length rs} - {j}. addrs (rs ! i))"

lemma cover_split: "j < length rs \<Longrightarrow> cover rs = addrs (rs ! j) \<union> others rs j"
  by (auto simp: cover_nth others_def)

lemma others_update [simp]: "others (rs[j := x]) j = others rs j"
  by (auto simp: others_def)

lemma cover_update: "j < length rs \<Longrightarrow> cover (rs[j := x]) = addrs x \<union> others rs j"
  using cover_split [of j "rs[j := x]"] by simp

lemma others_fill:
  assumes "i < length rs" "i \<noteq> j" "addrs (rs ! i) = {}"
  shows "others (rs[i := y]) j = addrs y \<union> others rs j"
proof
  show "others (rs[i := y]) j \<subseteq> addrs y \<union> others rs j"
  proof
    fix x assume "x \<in> others (rs[i := y]) j"
    then obtain k where k: "k < length rs" "k \<noteq> j" "x \<in> addrs (rs[i := y] ! k)" by (auto simp: others_def)
    then show "x \<in> addrs y \<union> others rs j" using assms(1) by (cases "k = i") (auto simp: others_def)
  qed
  have "addrs y \<subseteq> others (rs[i := y]) j" using assms(1,2) by (force simp: others_def)
  moreover have "x \<in> others (rs[i := y]) j" if "x \<in> others rs j" for x
  proof -
    from that obtain k where k: "k < length rs" "k \<noteq> j" "x \<in> addrs (rs ! k)" by (auto simp: others_def)
    then have "k \<noteq> i" using assms(3) by auto
    then show ?thesis using k by (force simp: others_def)
  qed
  ultimately show "addrs y \<union> others rs j \<subseteq> others (rs[i := y]) j" by blast
qed

lemma find_spare_free: "find_spare rs < length rs \<Longrightarrow> rend (rs ! find_spare rs) = 0"
  using nth_length_takeWhile [of "\<lambda>r. rend r \<noteq> 0" rs] by (simp add: find_spare_def)

text \<open>The five cases of one turn.\<close>

definition hole :: "u64 \<Rightarrow> u64 \<Rightarrow> nat set" where "hole st en = {unat st ..< unat en}"

lemma subtract_cases:
  assumes "j < length rs" "st < en" "subtract_one j st en (err, rs) = (err', rs')"
  obtains (slot) x where "rs' = rs[j := x]" "addrs x = addrs (rs ! j) - hole st en" "err' = err"
  | (split) i x y where "rs' = (rs[i := y])[j := x]" "i < length rs" "i \<noteq> j" "addrs (rs ! i) = {}"
      "addrs x \<union> addrs y = addrs (rs ! j) - hole st en" "err' = err"
  | (full) x where "rs' = rs[j := x]" "addrs x \<subseteq> addrs (rs ! j) - hole st en" "err'"
proof -
  let ?r = "rs ! j"
  note d = assms(3) [unfolded subtract_one_def prod.case Let_def]
  note w = word_le_nat_alt word_less_nat_alt hole_def addrs_def
  have keep: thesis if "rs' = rs" "err' = err" "addrs ?r = addrs ?r - hole st en"
    using slot [of ?r] that assms(1) by simp
  consider "rend ?r = 0" | "rend ?r \<noteq> 0" "st \<le> rstart ?r" "en \<ge> rend ?r"
    | "rend ?r \<noteq> 0" "st \<le> rstart ?r" "en < rend ?r" "rstart ?r < en"
    | "rend ?r \<noteq> 0" "st > rstart ?r" "en \<ge> rend ?r" "rend ?r > st"
    | "rend ?r \<noteq> 0" "st > rstart ?r" "en < rend ?r"
    | "rend ?r \<noteq> 0" "\<not> (st \<le> rstart ?r \<and> en \<ge> rend ?r)" "en < rend ?r \<and> en \<le> rstart ?r \<or> rend ?r \<le> st"
    by fastforce
  then show thesis
  proof cases
    case 1
    then show thesis using d by (intro keep) (auto simp: addrs_def)
  next
    case 2
    then show thesis using d by (intro slot [of free_slot]) (auto simp: w free_slot_def)
  next
    case 3
    then show thesis using d by (intro slot [of "?r\<lparr>rstart := en\<rparr>"]) (auto simp: w)
  next
    case 4
    then show thesis using d by (intro slot [of "?r\<lparr>rend := st\<rparr>"]) (auto simp: w)
  next
    case 5
    then have n: "\<not> st \<le> rstart ?r" "\<not> en \<ge> rend ?r" by auto
    show thesis
    proof (cases "find_spare rs < length rs")
      case True
      note sp = find_spare_free [OF True]
      then have "find_spare rs \<noteq> j" using 5 by auto
      then show thesis using d 5 n True sp assms(2)
        by (intro split [of "find_spare rs" "\<lparr>rstart = en, rend = rend ?r\<rparr>" "?r\<lparr>rend := st\<rparr>"]) (auto simp: w)
    next
      case False
      then show thesis using d 5 n assms(2) by (intro full [of "?r\<lparr>rend := st\<rparr>"]) (auto simp: w)
    qed
  next
    case 6
    then show thesis using d assms(2) by (intro keep) (auto simp: w split: if_splits)
  qed
qed

lemma subtract_turn:
  assumes j: "j < length rs" and lt: "st < en" and s: "subtract_one j st en (err, rs) = (err', rs')"
  shows "length rs' = length rs" "addrs (rs' ! j) \<inter> hole st en = {}"
    "\<And>i. i < length rs \<Longrightarrow> addrs (rs ! i) \<inter> hole st en = {} \<Longrightarrow> addrs (rs' ! i) \<inter> hole st en = {}"
    "cover rs' \<subseteq> cover rs" "\<not> err' \<Longrightarrow> \<not> err \<and> cover rs - hole st en \<subseteq> cover rs'"
proof -
  have "length rs' = length rs \<and> addrs (rs' ! j) \<inter> hole st en = {} \<and>
    (\<forall>i < length rs. addrs (rs ! i) \<inter> hole st en = {} \<longrightarrow> addrs (rs' ! i) \<inter> hole st en = {}) \<and>
    cover rs' \<subseteq> cover rs \<and> (\<not> err' \<longrightarrow> \<not> err \<and> cover rs - hole st en \<subseteq> cover rs')"
    using assms
  proof (cases rule: subtract_cases)
    case (slot x)
    have c: "cover rs' = addrs x \<union> others rs j" using slot(1) cover_update [OF j, of x] by simp
    have n: "rs' ! i = (if i = j then x else rs ! i)" if "i < length rs" for i using that slot(1) by simp
    have k: "\<forall>i < length rs. addrs (rs ! i) \<inter> hole st en = {} \<longrightarrow> addrs (rs' ! i) \<inter> hole st en = {}"
      using slot(2) by (intro allI impI) (subst n, auto)
    have l: "length rs' = length rs" "addrs (rs' ! j) \<inter> hole st en = {}" using slot(1,2) n [OF j] by auto
    show ?thesis unfolding c cover_split [OF j] using slot(2,3) k l by blast
  next
    case (split i x y)
    have ji: "j < length (rs[i := y])" using j by simp
    have c: "cover rs' = addrs x \<union> addrs y \<union> others rs j"
      using cover_update [OF ji, of x] others_fill [OF split(2,3,4), of y] split(1) by auto
    have n: "rs' ! k = (if k = j then x else if k = i then y else rs ! k)" if "k < length rs" for k using that split(1,3) by simp
    have "addrs x \<inter> hole st en = {}" "addrs y \<inter> hole st en = {}" using split(5) by blast+
    then have k: "\<forall>k < length rs. addrs (rs ! k) \<inter> hole st en = {} \<longrightarrow> addrs (rs' ! k) \<inter> hole st en = {}"
      by (intro allI impI) (subst n, auto)
    have l: "length rs' = length rs" "addrs (rs' ! j) \<inter> hole st en = {}" using split(1,5) n [OF j] by auto
    show ?thesis unfolding c cover_split [OF j] using split(5,6) k l by blast
  next
    case (full x)
    have c: "cover rs' = addrs x \<union> others rs j" using full(1) cover_update [OF j, of x] by simp
    have n: "rs' ! i = (if i = j then x else rs ! i)" if "i < length rs" for i using that full(1) by simp
    have k: "\<forall>i < length rs. addrs (rs ! i) \<inter> hole st en = {} \<longrightarrow> addrs (rs' ! i) \<inter> hole st en = {}"
      using full(2) by (intro allI impI) (subst n, auto)
    have l: "length rs' = length rs" "addrs (rs' ! j) \<inter> hole st en = {}" using full(1,2) n [OF j] by auto
    show ?thesis unfolding c cover_split [OF j] using full(2,3) k l by blast
  qed
  then show "length rs' = length rs" "addrs (rs' ! j) \<inter> hole st en = {}"
    "\<And>i. i < length rs \<Longrightarrow> addrs (rs ! i) \<inter> hole st en = {} \<Longrightarrow> addrs (rs' ! i) \<inter> hole st en = {}"
    "cover rs' \<subseteq> cover rs" "\<not> err' \<Longrightarrow> \<not> err \<and> cover rs - hole st en \<subseteq> cover rs'" by blast+
qed

lemma subtract_fold:
  assumes "st < en" "n \<le> length rs" "fold (\<lambda>j. subtract_one j st en) [0..<n] (False, rs) = (err, rs')"
  shows "length rs' = length rs \<and> (\<forall>i < n. addrs (rs' ! i) \<inter> hole st en = {}) \<and> cover rs' \<subseteq> cover rs \<and>
    (\<not> err \<longrightarrow> cover rs - hole st en \<subseteq> cover rs')"
  using assms(2,3)
proof (induction n arbitrary: err rs')
  case (Suc n)
  obtain e1 r1 where f: "fold (\<lambda>j. subtract_one j st en) [0..<n] (False, rs) = (e1, r1)" by (rule prod.exhaust)
  have ih: "length r1 = length rs" "\<forall>i < n. addrs (r1 ! i) \<inter> hole st en = {}" "cover r1 \<subseteq> cover rs"
    "\<not> e1 \<longrightarrow> cover rs - hole st en \<subseteq> cover r1" using Suc.IH [OF _ f] Suc.prems(1) by auto
  have s: "subtract_one n st en (e1, r1) = (err, rs')" using Suc.prems(2) f by simp
  have n: "n < length r1" using Suc.prems(1) ih(1) by simp
  note t = subtract_turn [OF n assms(1) s]
  have "addrs (rs' ! i) \<inter> hole st en = {}" if "i < Suc n" for i
    using that t(2) t(3) [of i] ih(2) n by (cases "i = n") auto
  moreover have "cover rs - hole st en \<subseteq> cover rs'" if "\<not> err"
  proof -
    from t(5) [OF that] have "\<not> e1" "cover r1 - hole st en \<subseteq> cover rs'" by simp_all
    moreover from this ih(4) have "cover rs - hole st en \<subseteq> cover r1" by simp
    ultimately show ?thesis by blast
  qed
  moreover have "length rs' = length rs" "cover rs' \<subseteq> cover rs" using t(1,4) ih(1,3) by simp_all
  ultimately show ?case by simp
qed simp

section \<open>Properties\<close>

text \<open>C39: subtract_range takes away exactly the given addresses: the array then covers what it covered
  without them, unless the message that it ran out of slots was printed, in which case it covers
  no address it should not but may have lost some.\<close>

theorem subtract_range_correct:
  assumes "subtract_range st en rs = (err, rs')"
  shows "length rs' = length rs \<and> cover rs' \<subseteq> cover rs - {unat st ..< unat en} \<and>
    (err \<or> cover rs' = cover rs - {unat st ..< unat en})"
proof (cases "st < en")
  case True
  then have f: "fold (\<lambda>j. subtract_one j st en) [0..<length rs] (False, rs) = (err, rs')"
    using assms by (simp add: subtract_range_def not_le [symmetric])
  note sf = subtract_fold [OF True le_refl f]
  then have "cover rs' \<inter> hole st en = {}" by (auto simp: cover_nth)
  then show ?thesis using sf unfolding hole_def [symmetric] by blast
next
  case False
  then have le: "en \<le> st" by simp
  then have "err = False" "rs' = rs" using assms by (simp_all add: subtract_range_def)
  moreover have "{unat st ..< unat en} = {}" using le by (simp add: word_le_nat_alt)
  ultimately show ?thesis by simp
qed

theorem subtract_range_correct_witness:
  "cover (snd (subtract_range 3 5 [\<lparr>rstart = 1, rend = 9\<rparr>, free_slot])) = {1, 2} \<union> {5, 6, 7, 8}"
proof -
  have "subtract_range 3 5 [\<lparr>rstart = 1, rend = 9\<rparr>, free_slot] = (False, [\<lparr>rstart = 1, rend = 3\<rparr>, \<lparr>rstart = 5, rend = 9\<rparr>])"
    by (simp add: subtract_range_def subtract_one_def Let_def find_spare_def free_slot_def upt_rec word_le_nat_alt word_less_nat_alt)
  from subtract_range_correct [OF this] this show ?thesis by auto
qed

section \<open>Merging\<close>

text \<open>
  The slots in use are free or proper ranges; two ranges are separate when neither touches the
  other, the condition under which the loop leaves them unmerged.
\<close>

definition slot_ok :: "range \<Rightarrow> bool" where "slot_ok r \<longleftrightarrow> rend r = 0 \<or> rstart r < rend r"

definition apart :: "range \<Rightarrow> range \<Rightarrow> bool" where
  "apart a b \<longleftrightarrow> rend a = 0 \<or> rend b = 0 \<or> rend a < rstart b \<or> rend b < rstart a"

definition in_use :: "nat \<Rightarrow> range list \<Rightarrow> bool" where
  "in_use nr rs \<longleftrightarrow> nr \<le> length rs \<and> list_all slot_ok (take nr rs) \<and> sorted_wrt apart (take nr rs)"

lemma take_drop_slot:
  assumes "i < nr" "nr \<le> length rs"
  shows "take (nr - 1) (drop_slot nr i rs) = take i rs @ drop (Suc i) (take nr rs)" "length (drop_slot nr i rs) = length rs"
proof -
  have "nr - 1 = i + (nr - Suc i)" using assms(1) by simp
  then show "take (nr - 1) (drop_slot nr i rs) = take i rs @ drop (Suc i) (take nr rs)"
    using assms by (simp add: drop_slot_def drop_take)
  show "length (drop_slot nr i rs) = length rs" using assms by (simp add: drop_slot_def)
qed

lemma take_split_nth: "i < nr \<Longrightarrow> nr \<le> length rs \<Longrightarrow> take nr rs = take i rs @ rs ! i # drop (Suc i) (take nr rs)"
  using id_take_nth_drop [of i "take nr rs"] by (simp add: min_def)

lemma drop_slot_in_use:
  assumes "in_use nr rs" "i < nr"
  shows "in_use (nr - 1) (drop_slot nr i rs)"
    "cover (take nr rs) = addrs (rs ! i) \<union> cover (take (nr - 1) (drop_slot nr i rs))"
    "list_all (apart (rs ! i)) (take i rs)" "slot_ok (rs ! i)"
proof -
  have l: "nr \<le> length rs" using assms(1) by (simp add: in_use_def)
  note t = take_drop_slot [OF assms(2) l] and sp = take_split_nth [OF assms(2) l]
  have ok: "list_all slot_ok (take i rs @ rs ! i # drop (Suc i) (take nr rs))"
    "sorted_wrt apart (take i rs @ rs ! i # drop (Suc i) (take nr rs))"
    using assms(1) sp by (simp_all add: in_use_def)
  then show "in_use (nr - 1) (drop_slot nr i rs)" using t l by (auto simp: in_use_def sorted_wrt_append)
  show "slot_ok (rs ! i)" using ok(1) by simp
  show "list_all (apart (rs ! i)) (take i rs)" using ok(2) by (auto simp: sorted_wrt_append list_all_iff apart_def)
  show "cover (take nr rs) = addrs (rs ! i) \<union> cover (take (nr - 1) (drop_slot nr i rs))"
    unfolding t(1) by (subst sp) auto
qed

text \<open>Two touching ranges and their hull.\<close>

lemma merge_two:
  assumes "rend r \<noteq> 0" "rstart r < rend r" "st < en" "\<not> max (rstart r) st > min (rend r) en"
  shows "{unat (min (rstart r) st) ..< unat (max (rend r) en)} = addrs r \<union> {unat st ..< unat en}"
    "min (rstart r) st < max (rend r) en"
  using assms by (auto simp: addrs_def min_def max_def word_le_nat_alt word_less_nat_alt not_less)

lemma apart_hull:
  assumes "rend r \<noteq> 0" "apart r x" "apart \<lparr>rstart = st, rend = en\<rparr> x" "st < en" "rstart r < rend r" "slot_ok x"
    and "\<not> max (rstart r) st > min (rend r) en"
  shows "apart \<lparr>rstart = min (rstart r) st, rend = max (rend r) en\<rparr> x"
  using assms by (auto simp: apart_def slot_ok_def min_def max_def split: if_splits)

lemma merge_loop_correct:
  assumes "merge_loop i nr st en rs = (nr', st', en', rs')" "in_use nr rs" "st < en" "i \<le> nr"
    and "list_all (apart \<lparr>rstart = st, rend = en\<rparr>) (take i rs)"
  shows "nr' \<le> nr \<and> in_use nr' rs' \<and> length rs' = length rs \<and> st' < en' \<and>
    list_all (apart \<lparr>rstart = st', rend = en'\<rparr>) (take nr' rs') \<and>
    cover (take nr' rs') \<union> {unat st' ..< unat en'} = cover (take nr rs) \<union> {unat st ..< unat en}"
  using assms
proof (induction i nr st en rs rule: merge_loop.induct)
  case (1 i nr st en rs)
  show ?case
  proof (cases "i < nr")
    case False
    then have "merge_loop i nr st en rs = (nr, st, en, rs)" by (subst merge_loop.simps) simp
    moreover have "i = nr" using False "1.prems"(4) by simp
    ultimately show ?thesis using "1.prems" by simp
  next
    case True
    let ?r = "rs ! i"
    have l: "i < length rs" using True "1.prems"(2) by (simp add: in_use_def)
    show ?thesis
    proof (cases "rend ?r = 0 \<or> max (rstart ?r) st > min (rend ?r) en")
      case keep: True
      have ok: "slot_ok ?r" using drop_slot_in_use(4) [OF "1.prems"(2) True] .
      have a: "apart \<lparr>rstart = st, rend = en\<rparr> ?r"
        using keep ok "1.prems"(3) by (auto simp: apart_def slot_ok_def min_less_iff_disj less_max_iff_disj dest: less_asym)
      have t: "list_all (apart \<lparr>rstart = st, rend = en\<rparr>) (take (i + 1) rs)"
        using "1.prems"(5) a l by (simp add: take_Suc_conv_app_nth)
      have m: "merge_loop (i + 1) nr st en rs = (nr', st', en', rs')"
        using "1.prems"(1) True keep unfolding merge_loop.simps [of i nr] Let_def by (simp split: if_splits)
      show ?thesis
      proof (cases "rend ?r = 0")
        case z: True
        show ?thesis by (rule "1.IH"(1) [OF True refl z m "1.prems"(2,3) _ t]) (use True in simp)
      next
        case z: False
        then have g: "max (rstart ?r) st > min (rend ?r) en" using keep by simp
        show ?thesis by (rule "1.IH"(2) [OF True refl z g m "1.prems"(2,3) _ t]) (use True in simp)
      qed
    next
      case False
      then have z: "rend ?r \<noteq> 0" and g: "\<not> max (rstart ?r) st > min (rend ?r) en" by auto
      note ds = drop_slot_in_use [OF "1.prems"(2) True]
      have rs: "rstart ?r < rend ?r" using ds(4) z by (simp add: slot_ok_def)
      note m2 = merge_two [OF z rs "1.prems"(3) g]
      have ti: "take i (drop_slot nr i rs) = take i rs" using l by (simp add: drop_slot_def)
      have "slot_ok x" if "x \<in> set (take i rs)" for x
        using that "1.prems"(2) True set_take_subset_set_take [of i nr rs] by (auto simp: in_use_def list_all_iff)
      then have t: "list_all (apart \<lparr>rstart = min (rstart ?r) st, rend = max (rend ?r) en\<rparr>) (take i (drop_slot nr i rs))"
        unfolding ti using ds(3) "1.prems"(5) apart_hull [OF z _ _ "1.prems"(3) rs _ g] by (simp add: list_all_iff)
      have m: "merge_loop i (nr - 1) (min (rstart ?r) st) (max (rend ?r) en) (drop_slot nr i rs) = (nr', st', en', rs')"
        using "1.prems"(1) True z g unfolding merge_loop.simps [of i nr] Let_def by simp
      have le: "i \<le> nr - 1" using True by simp
      have len: "length (drop_slot nr i rs) = length rs" using take_drop_slot(2) [OF True] "1.prems"(2) by (simp add: in_use_def)
      from "1.IH"(3) [OF True refl z g m ds(1) m2(2) le t] show ?thesis
        unfolding m2(1) ds(2) len by auto
    qed
  qed
qed

text \<open>C38: adding a range with merging makes the slots in use cover the old addresses and the new ones, and
  leaves the ranges pairwise separate, not even adjacent, when they were so before and a slot is
  left.\<close>

theorem add_range_with_merge_correct:
  assumes "in_use nr rs" "nr < length rs" "st < en" "add_range_with_merge (length rs) nr st en rs = (nr', rs')"
  shows "in_use nr' rs' \<and> length rs' = length rs \<and> cover (take nr' rs') = cover (take nr rs) \<union> {unat st ..< unat en}"
proof -
  obtain n s e ls where m: "merge_loop 0 nr st en rs = (n, s, e, ls)" by (metis prod_cases4)
  note c = merge_loop_correct [OF m assms(1,3) le0, simplified]
  have n: "n < length ls" using c assms(2) by simp
  have r: "nr' = Suc n" "rs' = ls[n := \<lparr>rstart = s, rend = e\<rparr>]"
    using assms(3,4) m c n by (auto simp: add_range_with_merge_def add_range_def not_le [symmetric])
  have t: "take nr' rs' = take n ls @ [\<lparr>rstart = s, rend = e\<rparr>]" using n by (simp add: r take_Suc_conv_app_nth)
  have "list_all (\<lambda>x. apart x \<lparr>rstart = s, rend = e\<rparr>) (take n ls)"
    using c by (auto simp: list_all_iff apart_def)
  then have "in_use nr' rs'" using c n t by (auto simp: in_use_def sorted_wrt_append slot_ok_def list_all_iff r)
  moreover have "cover (take nr' rs') = cover (take nr rs) \<union> {unat st ..< unat en}" using c by (simp add: t)
  ultimately show ?thesis using c by (simp add: r)
qed

theorem add_range_with_merge_correct_witness:
  "in_use 2 [\<lparr>rstart = 10, rend = 20\<rparr>, \<lparr>rstart = 30, rend = 40\<rparr>, free_slot] \<and>
   cover (take 1 (snd (add_range_with_merge 3 2 20 30 [\<lparr>rstart = 10, rend = 20\<rparr>, \<lparr>rstart = 30, rend = 40\<rparr>, free_slot]))) =
     {10 ..< 40}"
proof -
  let ?rs = "[\<lparr>rstart = 10, rend = 20\<rparr>, \<lparr>rstart = 30, rend = 40\<rparr>, free_slot]"
  have u: "in_use 2 ?rs" by (simp add: in_use_def slot_ok_def apart_def)
  have a: "add_range_with_merge 3 2 20 30 ?rs = (1, [\<lparr>rstart = 10, rend = 40\<rparr>, free_slot, free_slot])"
    by (simp add: add_range_with_merge_def merge_loop.simps drop_slot_def free_slot_def add_range_def)
  have "(2 :: nat) < length ?rs" "(20 :: u64) < 30" by simp_all
  from add_range_with_merge_correct [OF u this] a u show ?thesis by auto
qed

section \<open>Compaction\<close>

definition used :: "range list \<Rightarrow> range list" where "used rs = filter (\<lambda>r. rend r \<noteq> 0) rs"

lemma mset_used_move:
  assumes "i < length rs" "j < length rs" "i \<noteq> j" "rend (rs ! i) = 0"
  shows "mset (used ((rs[i := rs ! j])[j := free_slot])) = mset (used rs)"
proof -
  let ?f = "\<lambda>r. rend r \<noteq> 0"
  have "mset ((rs[i := rs ! j])[j := free_slot]) + {#rs ! i#} = mset rs + {#free_slot#}"
    using assms(1-3) by (simp add: mset_update)
  then have "filter_mset ?f (mset ((rs[i := rs ! j])[j := free_slot]) + {#rs ! i#}) = filter_mset ?f (mset rs + {#free_slot#})"
    by (rule arg_cong [where f = "filter_mset ?f"])
  then show ?thesis using assms(4) by (simp add: used_def free_slot_def)
qed

lemma fill_loop_correct:
  "length rs = Suc m \<Longrightarrow> k \<le> m \<Longrightarrow> i \<le> Suc k \<Longrightarrow> \<forall>n < i. rend (rs ! n) \<noteq> 0 \<Longrightarrow> \<forall>n. k < n \<and> n \<le> m \<longrightarrow> rend (rs ! n) = 0 \<Longrightarrow>
   length (fill_loop i k rs) = Suc m \<and> mset (used (fill_loop i k rs)) = mset (used rs) \<and>
   (\<exists>e \<le> Suc m. (\<forall>n < e. rend (fill_loop i k rs ! n) \<noteq> 0) \<and> (\<forall>n. e \<le> n \<and> n \<le> m \<longrightarrow> rend (fill_loop i k rs ! n) = 0))"
proof (induction i k rs rule: fill_loop.induct)
  case (1 i k rs)
  consider (stop) "\<not> i < k" | (step) "i < k" "rend (rs ! i) \<noteq> 0" | (none) "i < k" "rend (rs ! i) = 0" "last_used rs i k = None"
    | (move) j where "i < k" "rend (rs ! i) = 0" "last_used rs i k = Some j" by (cases "last_used rs i k") auto
  then show ?case
  proof cases
    case stop
    have f: "fill_loop i k rs = rs" using stop by (subst fill_loop.simps) simp
    have "i = k \<or> i = Suc k" using stop "1.prems"(3) by auto
    then have "\<exists>e \<le> Suc m. (\<forall>n < e. rend (rs ! n) \<noteq> 0) \<and> (\<forall>n. e \<le> n \<and> n \<le> m \<longrightarrow> rend (rs ! n) = 0)"
    proof
      assume "i = k"
      then show ?thesis using "1.prems" less_antisym [of _ k]
        by (intro exI [of _ "if rend (rs ! k) = 0 then k else Suc k"]) (auto simp: le_eq_less_or_eq Suc_le_eq less_Suc_eq)
    next
      assume "i = Suc k"
      then show ?thesis using "1.prems" by (intro exI [of _ "Suc k"]) (auto simp: Suc_le_eq)
    qed
    then show ?thesis using "1.prems"(1) by (simp add: f)
  next
    case step
    have f: "fill_loop i k rs = fill_loop (i + 1) k rs" using step by (subst fill_loop.simps) simp
    show ?thesis unfolding f using "1.prems" step by (intro "1.IH"(1)) (auto simp: less_Suc_eq)
  next
    case none
    have f: "fill_loop i k rs = rs" using none by (subst fill_loop.simps) simp
    have "rend (rs ! n) = 0" if "i \<le> n" "n \<le> m" for n
      using that none last_used_None [OF none(3), of n] "1.prems"(5) by (cases "n = i"; cases "n \<le> k") auto
    then show ?thesis using "1.prems" none by (auto simp: f intro!: exI [of _ i])
  next
    case (move j)
    let ?rs = "(rs[i := rs ! j])[j := free_slot]"
    note j = last_usedD [OF move(3)]
    have f: "fill_loop i k rs = fill_loop (i + 1) (j - 1) ?rs" using move by (subst fill_loop.simps) simp
    have len: "i < length rs" "j < length rs" "i \<noteq> j" using j "1.prems"(1,2) by auto
    have "rend (?rs ! n) = 0" if "j - 1 < n" "n \<le> m" for n
      using that j "1.prems" len by (cases "n = j"; cases "n \<le> k") (auto simp: free_slot_def)
    moreover have "rend (?rs ! n) \<noteq> 0" if "n < i + 1" for n using that j "1.prems"(4) len by (cases "n = i") auto
    ultimately have "length (fill_loop (i + 1) (j - 1) ?rs) = Suc m \<and> mset (used (fill_loop (i + 1) (j - 1) ?rs)) = mset (used ?rs) \<and>
      (\<exists>e \<le> Suc m. (\<forall>n < e. rend (fill_loop (i + 1) (j - 1) ?rs ! n) \<noteq> 0) \<and>
        (\<forall>n. e \<le> n \<and> n \<le> m \<longrightarrow> rend (fill_loop (i + 1) (j - 1) ?rs ! n) = 0))"
      using "1.prems" j by (intro "1.IH"(2) [OF move(1) _ move(3)]) (auto simp: move(2))
    then show ?thesis unfolding f using mset_used_move [OF len move(2)] by simp
  qed
qed

text \<open>What is documented of \<open>sort\<close>, for the comparison of this file.\<close>

definition rsort_ok :: "((range \<Rightarrow> range \<Rightarrow> int) \<Rightarrow> range list \<Rightarrow> range list) \<Rightarrow> bool" where
  "rsort_ok srt \<longleftrightarrow> (\<forall>xs. mset (srt cmp_range xs) = mset xs \<and> sorted_wrt (\<lambda>a b. cmp_range a b \<le> 0) (srt cmp_range xs))"

lemma cmp_range_le: "cmp_range a b \<le> 0 \<longleftrightarrow> rstart a \<le> rstart b"
  by (auto simp: cmp_range_def)

lemma fill_result:
  obtains e where "e \<le> length rs" "length (fill_loop 0 (length rs - 1) rs) = length rs"
    "mset (used (fill_loop 0 (length rs - 1) rs)) = mset (used rs)"
    "\<forall>n < e. rend (fill_loop 0 (length rs - 1) rs ! n) \<noteq> 0"
    "\<forall>n. e \<le> n \<and> n < length rs \<longrightarrow> rend (fill_loop 0 (length rs - 1) rs ! n) = 0"
proof (cases rs)
  case Nil
  have "fill_loop 0 (length rs - 1) rs = rs" by (subst fill_loop.simps) (simp add: Nil)
  then show ?thesis using that [of 0] Nil by simp
next
  case (Cons r rest)
  then have l: "length rs = Suc (length rest)" by simp
  have "\<forall>n. length rest < n \<and> n \<le> length rest \<longrightarrow> rend (rs ! n) = 0" by auto
  with fill_loop_correct [OF l, of "length rest" 0] obtain e where
    e: "length (fill_loop 0 (length rest) rs) = Suc (length rest)" "mset (used (fill_loop 0 (length rest) rs)) = mset (used rs)"
      "e \<le> Suc (length rest)" "\<forall>n < e. rend (fill_loop 0 (length rest) rs ! n) \<noteq> 0"
      "\<forall>n. e \<le> n \<and> n \<le> length rest \<longrightarrow> rend (fill_loop 0 (length rest) rs ! n) = 0" by auto
  have k: "length rs - 1 = length rest" using l by simp
  show ?thesis by (rule that [of e]) (use e l in \<open>simp_all add: k less_Suc_eq_le\<close>)
qed

text \<open>Clean_sort_range moves every range in use to the front, sorted by start, loses none and counts them:
  the returned number is the number of ranges in use and the slots behind it are free.\<close>

theorem clean_sort_range_correct:
  assumes "rsort_ok srt" "clean_sort_range srt rs = (nr, rs')"
  shows "nr = length (used rs) \<and> length rs' = length rs \<and> mset (take nr rs') = mset (used rs) \<and>
    sorted_wrt (\<lambda>a b. rstart a \<le> rstart b) (take nr rs') \<and> list_all (\<lambda>r. rend r = 0) (drop nr rs')"
proof -
  let ?f = "fill_loop 0 (length rs - 1) rs"
  obtain e where e: "e \<le> length rs" "length ?f = length rs" "mset (used ?f) = mset (used rs)"
    "\<forall>n < e. rend (?f ! n) \<noteq> 0" "\<forall>n. e \<le> n \<and> n < length rs \<longrightarrow> rend (?f ! n) = 0" by (rule fill_result)
  have "takeWhile (\<lambda>r. rend r \<noteq> 0) ?f = take e ?f" using e by (intro takeWhile_eq_take_P_nth) auto
  then have nr: "nr = e" and rs': "rs' = srt cmp_range (take e ?f) @ drop e ?f"
    using assms(2) e(1,2) by (auto simp: clean_sort_range_def find_spare_def Let_def)
  have "list_all (\<lambda>r. rend r \<noteq> 0) (take e ?f)" and z: "list_all (\<lambda>r. rend r = 0) (drop e ?f)"
    using e(1,2,4,5) by (simp_all add: list_all_length)
  then have "used (take e ?f) = take e ?f" "used (drop e ?f) = []"
    by (auto simp: used_def list_all_iff filter_id_conv filter_empty_conv)
  then have u: "used ?f = take e ?f" by (metis append_Nil2 append_take_drop_id filter_append used_def)
  have s: "mset (srt cmp_range (take e ?f)) = mset (take e ?f)" "sorted_wrt (\<lambda>a b. rstart a \<le> rstart b) (srt cmp_range (take e ?f))"
    using assms(1) by (simp_all add: rsort_ok_def cmp_range_le)
  have l: "length (srt cmp_range (take e ?f)) = e" using mset_eq_length [OF s(1)] e(1,2) by simp
  have "length (used rs) = e" using mset_eq_length [OF e(3)] u e(1,2) by simp
  then show ?thesis using s l e z u by (simp add: nr rs')
qed

theorem clean_sort_range_correct_witness:
  "fst (clean_sort_range (\<lambda>cmp xs. sort_key rstart xs) [free_slot, \<lparr>rstart = 5, rend = 6\<rparr>, free_slot, \<lparr>rstart = 1, rend = 2\<rparr>]) = 2"
proof -
  have "sorted_wrt (\<lambda>a b. rstart a \<le> rstart b) (sort_key rstart xs)" for xs :: "range list"
    using sorted_sort_key [of rstart xs] by (simp add: sorted_map)
  then have "rsort_ok (\<lambda>cmp xs. sort_key rstart xs)" by (simp add: rsort_ok_def cmp_range_le)
  from clean_sort_range_correct [OF this, of "[free_slot, \<lparr>rstart = 5, rend = 6\<rparr>, free_slot, \<lparr>rstart = 1, rend = 2\<rparr>]"]
  show ?thesis by (auto simp: used_def free_slot_def prod_eq_iff)
qed

end
