(* ===== verification/Timespec.thy ===== *)
theory Timespec
  imports Prelude
begin

text \<open>
  Seconds and nanoseconds (kernel/time/time.c, include/linux/time64.h): normal form, comparison,
  addition with saturation and conversion from and to a count of nanoseconds. A signed 64-bit
  value is an integer in its range and each addition that may leave the range wraps by \<open>s64\<close>.
\<close>

section \<open>Operations\<close>

definition s64 :: "int \<Rightarrow> int" where "s64 x = (x + 2 ^ 63) mod 2 ^ 64 - 2 ^ 63"

record timespec64 =
  tv_sec :: int
  tv_nsec :: int

definition NSEC_PER_SEC :: int where "NSEC_PER_SEC = 1000000000"
definition TIME64_MAX :: int where "TIME64_MAX = 2 ^ 63 - 1"
definition KTIME_MAX :: int where "KTIME_MAX = 2 ^ 63 - 1"
definition KTIME_MIN :: int where "KTIME_MIN = - KTIME_MAX - 1"
definition KTIME_SEC_MAX :: int where "KTIME_SEC_MAX = KTIME_MAX div NSEC_PER_SEC"
definition KTIME_SEC_MIN :: int where "KTIME_SEC_MIN = - ((- KTIME_MIN) div NSEC_PER_SEC)"
definition TIME_UPTIME_SEC_MAX :: int where "TIME_UPTIME_SEC_MAX = 30 * 365 * 24 * 3600"
definition TIME_SETTOD_SEC_MAX :: int where "TIME_SETTOD_SEC_MAX = KTIME_SEC_MAX - TIME_UPTIME_SEC_MAX"

text \<open>The two loops of \<open>set_normalized_timespec64\<close>.\<close>

function norm_down :: "int \<Rightarrow> int \<Rightarrow> int \<times> int" where
  "norm_down sec nsec = (if nsec \<ge> NSEC_PER_SEC then norm_down (s64 (sec + 1)) (nsec - NSEC_PER_SEC) else (sec, nsec))"
  by pat_completeness auto
termination by (relation "measure (\<lambda>(sec, nsec). nat nsec)") (auto simp: NSEC_PER_SEC_def)

function norm_up :: "int \<Rightarrow> int \<Rightarrow> int \<times> int" where
  "norm_up sec nsec = (if nsec < 0 then norm_up (s64 (sec - 1)) (nsec + NSEC_PER_SEC) else (sec, nsec))"
  by pat_completeness auto
termination by (relation "measure (\<lambda>(sec, nsec). nat (- nsec))") (auto simp: NSEC_PER_SEC_def)

declare norm_down.simps [simp del] norm_up.simps [simp del]

definition set_normalized_timespec64 :: "int \<Rightarrow> int \<Rightarrow> timespec64" where
  "set_normalized_timespec64 sec nsec =
     (let (sec, nsec) = norm_down sec nsec; (sec, nsec) = norm_up sec nsec in \<lparr>tv_sec = sec, tv_nsec = nsec\<rparr>)"

definition u64_of :: "int \<Rightarrow> int" where "u64_of x = x mod 2 ^ 64"

definition ns_to_timespec64 :: "int \<Rightarrow> timespec64" where
  "ns_to_timespec64 nsec =
     (if nsec > 0 then \<lparr>tv_sec = u64_of nsec div NSEC_PER_SEC, tv_nsec = u64_of nsec mod NSEC_PER_SEC\<rparr>
      else if nsec < 0 then
        (let n = u64_of (s64 (s64 (- nsec) - 1)) in
         \<lparr>tv_sec = s64 (s64 (- (n div NSEC_PER_SEC)) - 1), tv_nsec = NSEC_PER_SEC - n mod NSEC_PER_SEC - 1\<rparr>)
      else \<lparr>tv_sec = 0, tv_nsec = 0\<rparr>)"

definition timespec64_to_ns :: "timespec64 \<Rightarrow> int" where
  "timespec64_to_ns ts =
     (if tv_sec ts \<ge> KTIME_SEC_MAX then KTIME_MAX
      else if tv_sec ts \<le> KTIME_SEC_MIN then KTIME_MIN
      else s64 (s64 (tv_sec ts * NSEC_PER_SEC) + tv_nsec ts))"

definition timespec64_equal :: "timespec64 \<Rightarrow> timespec64 \<Rightarrow> bool" where
  "timespec64_equal a b \<longleftrightarrow> tv_sec a = tv_sec b \<and> tv_nsec a = tv_nsec b"

text \<open>The result is an \<open>int\<close>; the difference of two nanosecond parts below one second fits.\<close>

definition timespec64_compare :: "timespec64 \<Rightarrow> timespec64 \<Rightarrow> int" where
  "timespec64_compare lhs rhs =
     (if tv_sec lhs < tv_sec rhs then -1 else if tv_sec lhs > tv_sec rhs then 1
      else (tv_nsec lhs - tv_nsec rhs + 2 ^ 31) mod 2 ^ 32 - 2 ^ 31)"

definition timespec64_add :: "timespec64 \<Rightarrow> timespec64 \<Rightarrow> timespec64" where
  "timespec64_add lhs rhs = set_normalized_timespec64 (s64 (tv_sec lhs + tv_sec rhs)) (s64 (tv_nsec lhs + tv_nsec rhs))"

definition timespec64_sub :: "timespec64 \<Rightarrow> timespec64 \<Rightarrow> timespec64" where
  "timespec64_sub lhs rhs = set_normalized_timespec64 (s64 (tv_sec lhs - tv_sec rhs)) (s64 (tv_nsec lhs - tv_nsec rhs))"

definition timespec64_valid :: "timespec64 \<Rightarrow> bool" where
  "timespec64_valid ts =
     (if tv_sec ts < 0 then False else if u64_of (tv_nsec ts) \<ge> NSEC_PER_SEC then False else True)"

definition timespec64_valid_strict :: "timespec64 \<Rightarrow> bool" where
  "timespec64_valid_strict ts =
     (if \<not> timespec64_valid ts then False else if u64_of (tv_sec ts) \<ge> KTIME_SEC_MAX then False else True)"

definition timespec64_valid_settod :: "timespec64 \<Rightarrow> bool" where
  "timespec64_valid_settod ts =
     (if \<not> timespec64_valid ts then False else if u64_of (tv_sec ts) \<ge> TIME_SETTOD_SEC_MAX then False else True)"

definition timespec64_add_safe :: "timespec64 \<Rightarrow> timespec64 \<Rightarrow> timespec64" where
  "timespec64_add_safe lhs rhs =
     (let res = set_normalized_timespec64 (s64 (tv_sec lhs + tv_sec rhs)) (s64 (tv_nsec lhs + tv_nsec rhs)) in
      if tv_sec res < tv_sec lhs \<or> tv_sec res < tv_sec rhs then \<lparr>tv_sec = TIME64_MAX, tv_nsec = 0\<rparr> else res)"

section \<open>Values and normal forms\<close>

definition in_s64 :: "int \<Rightarrow> bool" where "in_s64 x \<longleftrightarrow> - (2 ^ 63) \<le> x \<and> x < 2 ^ 63"

definition normal :: "timespec64 \<Rightarrow> bool" where
  "normal ts \<longleftrightarrow> in_s64 (tv_sec ts) \<and> 0 \<le> tv_nsec ts \<and> tv_nsec ts < NSEC_PER_SEC"

text \<open>The nanoseconds a value stands for, as an unbounded integer.\<close>

definition total_ns :: "timespec64 \<Rightarrow> int" where
  "total_ns ts = tv_sec ts * NSEC_PER_SEC + tv_nsec ts"

lemma s64_id: "in_s64 x \<Longrightarrow> s64 x = x"
  by (simp add: s64_def in_s64_def)

lemma in_s64_s64: "in_s64 (s64 x)"
  by (simp add: s64_def in_s64_def)

lemma s64_add: "s64 (s64 x + y) = s64 (x + y)" and s64_diff: "s64 (s64 x - y) = s64 (x - y)"
  by (simp_all add: s64_def algebra_simps mod_simps)

lemma norm_down_spec:
  "nsec < 0 \<or> norm_down (s64 sec) nsec = (s64 (sec + nsec div NSEC_PER_SEC), nsec mod NSEC_PER_SEC)"
proof (induction "nat nsec" arbitrary: sec nsec rule: less_induct)
  case less
  show ?case
  proof (cases "nsec \<ge> NSEC_PER_SEC")
    case True
    let ?n = "nsec - NSEC_PER_SEC"
    have "norm_down (s64 (sec + 1)) ?n = (s64 (sec + 1 + ?n div NSEC_PER_SEC), ?n mod NSEC_PER_SEC)"
      using less [of ?n "sec + 1"] True by (auto simp: NSEC_PER_SEC_def)
    moreover have "?n div NSEC_PER_SEC = nsec div NSEC_PER_SEC - 1" "?n mod NSEC_PER_SEC = nsec mod NSEC_PER_SEC"
      by (simp_all add: NSEC_PER_SEC_def)
    ultimately show ?thesis using True by (subst norm_down.simps) (simp add: s64_add)
  next
    case False
    then show ?thesis by (subst norm_down.simps) (auto simp: NSEC_PER_SEC_def)
  qed
qed

lemma norm_up_spec:
  "nsec < NSEC_PER_SEC \<Longrightarrow> norm_up (s64 sec) nsec = (s64 (sec + nsec div NSEC_PER_SEC), nsec mod NSEC_PER_SEC)"
proof (induction "nat (- nsec)" arbitrary: sec nsec rule: less_induct)
  case less
  show ?case
  proof (cases "nsec < 0")
    case True
    let ?n = "nsec + NSEC_PER_SEC"
    have "norm_up (s64 (sec - 1)) ?n = (s64 (sec - 1 + ?n div NSEC_PER_SEC), ?n mod NSEC_PER_SEC)"
      using less(1) [of ?n "sec - 1"] True by (auto simp: NSEC_PER_SEC_def)
    moreover have "?n div NSEC_PER_SEC = nsec div NSEC_PER_SEC + 1" "?n mod NSEC_PER_SEC = nsec mod NSEC_PER_SEC"
      by (simp_all add: NSEC_PER_SEC_def)
    ultimately show ?thesis using True by (subst norm_up.simps) (simp add: s64_diff)
  next
    case False
    then show ?thesis using less(2) by (subst norm_up.simps) (auto simp: NSEC_PER_SEC_def)
  qed
qed

lemma set_normalized_spec:
  "set_normalized_timespec64 (s64 sec) nsec = \<lparr>tv_sec = s64 (sec + nsec div NSEC_PER_SEC), tv_nsec = nsec mod NSEC_PER_SEC\<rparr>"
proof (cases "nsec < 0")
  case True
  then have "norm_down (s64 sec) nsec = (s64 sec, nsec)" by (subst norm_down.simps) (simp add: NSEC_PER_SEC_def)
  then show ?thesis using True norm_up_spec [of nsec sec] by (simp add: set_normalized_timespec64_def NSEC_PER_SEC_def)
next
  case False
  then have d: "norm_down (s64 sec) nsec = (s64 (sec + nsec div NSEC_PER_SEC), nsec mod NSEC_PER_SEC)"
    using norm_down_spec by blast
  have "0 \<le> nsec mod NSEC_PER_SEC" by (simp add: NSEC_PER_SEC_def)
  then show ?thesis by (simp add: set_normalized_timespec64_def d norm_up.simps)
qed

section \<open>Properties\<close>

lemma normal_sum:
  assumes "normal a" "normal b"
  shows "s64 (tv_nsec a + tv_nsec b) = tv_nsec a + tv_nsec b" "s64 (tv_nsec a - tv_nsec b) = tv_nsec a - tv_nsec b"
  using assms by (auto intro!: s64_id simp: normal_def in_s64_def NSEC_PER_SEC_def)

lemma add_spec:
  assumes "normal a" "normal b"
  shows "timespec64_add a b = \<lparr>tv_sec = s64 ((total_ns a + total_ns b) div NSEC_PER_SEC), tv_nsec = (total_ns a + total_ns b) mod NSEC_PER_SEC\<rparr>"
    "timespec64_sub a b = \<lparr>tv_sec = s64 ((total_ns a - total_ns b) div NSEC_PER_SEC), tv_nsec = (total_ns a - total_ns b) mod NSEC_PER_SEC\<rparr>"
proof -
  have p: "total_ns a + total_ns b = (tv_nsec a + tv_nsec b) + (tv_sec a + tv_sec b) * NSEC_PER_SEC"
    and m: "total_ns a - total_ns b = (tv_nsec a - tv_nsec b) + (tv_sec a - tv_sec b) * NSEC_PER_SEC"
    by (simp_all add: total_ns_def algebra_simps)
  have nz: "NSEC_PER_SEC \<noteq> 0" by (simp add: NSEC_PER_SEC_def)
  show "timespec64_add a b = \<lparr>tv_sec = s64 ((total_ns a + total_ns b) div NSEC_PER_SEC), tv_nsec = (total_ns a + total_ns b) mod NSEC_PER_SEC\<rparr>"
    "timespec64_sub a b = \<lparr>tv_sec = s64 ((total_ns a - total_ns b) div NSEC_PER_SEC), tv_nsec = (total_ns a - total_ns b) mod NSEC_PER_SEC\<rparr>"
    using nz by (simp_all add: timespec64_add_def timespec64_sub_def set_normalized_spec normal_sum [OF assms] p m add.commute)
qed

lemma exact_result:
  assumes "in_s64 (t div NSEC_PER_SEC)" "ts = \<lparr>tv_sec = s64 (t div NSEC_PER_SEC), tv_nsec = t mod NSEC_PER_SEC\<rparr>"
  shows "normal ts \<and> total_ns ts = t"
  using assms by (simp add: s64_id normal_def total_ns_def) (simp add: NSEC_PER_SEC_def)

lemma sec_of_total: "normal ts \<Longrightarrow> total_ns ts div NSEC_PER_SEC = tv_sec ts"
  by (simp add: normal_def total_ns_def NSEC_PER_SEC_def)

lemma add_safe_spec:
  assumes n: "normal a" "normal b" and p: "0 \<le> tv_sec a" "0 \<le> tv_sec b"
  shows "timespec64_add_safe a b =
      (if (total_ns a + total_ns b) div NSEC_PER_SEC \<le> TIME64_MAX then timespec64_add a b
       else \<lparr>tv_sec = TIME64_MAX, tv_nsec = 0\<rparr>)"
proof -
  let ?t = "(total_ns a + total_ns b) div NSEC_PER_SEC"
  have r: "timespec64_add_safe a b = (if s64 ?t < tv_sec a \<or> s64 ?t < tv_sec b then \<lparr>tv_sec = TIME64_MAX, tv_nsec = 0\<rparr> else timespec64_add a b)"
    using add_spec(1) [OF n] by (simp add: timespec64_add_safe_def timespec64_add_def Let_def)
  have b: "tv_sec a + tv_sec b \<le> ?t" "?t \<le> tv_sec a + tv_sec b + 1"
    using n by (auto simp: normal_def total_ns_def NSEC_PER_SEC_def)
  have m: "tv_sec a < 2 ^ 63" "tv_sec b < 2 ^ 63" using n by (simp_all add: normal_def in_s64_def)
  show ?thesis
  proof (cases "?t \<le> TIME64_MAX")
    case True
    then have "s64 ?t = ?t" using b p by (intro s64_id) (simp add: in_s64_def TIME64_MAX_def)
    then show ?thesis using True b p by (simp add: r)
  next
    case False
    have "?t + 2 ^ 63 = (?t - 2 ^ 63) + 2 ^ 64" by simp
    moreover have "0 \<le> ?t - 2 ^ 63" "?t - 2 ^ 63 < 2 ^ 64" using False b m by (simp_all add: TIME64_MAX_def)
    ultimately have "(?t + 2 ^ 63) mod 2 ^ 64 = ?t - 2 ^ 63" by (metis mod_add_self2 mod_pos_pos_trivial)
    then have "s64 ?t = ?t - 2 ^ 64" by (simp add: s64_def)
    then have "s64 ?t < tv_sec a" using b m by simp
    then show ?thesis using False by (simp add: r)
  qed
qed

lemma compare_sign:
  assumes "normal a" "normal b"
  shows "sgn (timespec64_compare a b) = sgn (total_ns a - total_ns b)"
proof -
  have n: "0 \<le> tv_nsec a" "tv_nsec a < 1000000000" "0 \<le> tv_nsec b" "tv_nsec b < 1000000000"
    using assms by (simp_all add: normal_def NSEC_PER_SEC_def)
  consider "tv_sec a < tv_sec b" | "tv_sec a > tv_sec b" | "tv_sec a = tv_sec b" by linarith
  then show ?thesis
  proof cases
    case 1
    then have "total_ns a < total_ns b" using n by (simp add: total_ns_def NSEC_PER_SEC_def)
    then show ?thesis using 1 by (simp add: timespec64_compare_def)
  next
    case 2
    then have "total_ns a > total_ns b" using n by (simp add: total_ns_def NSEC_PER_SEC_def)
    then show ?thesis using 2 by (simp add: timespec64_compare_def)
  next
    case 3
    then have "timespec64_compare a b = tv_nsec a - tv_nsec b" using n by (simp add: timespec64_compare_def)
    then show ?thesis using 3 by (simp add: total_ns_def)
  qed
qed

text \<open>C40: arithmetic on normalized times is arithmetic on nanoseconds: sum and difference are normalized and
  exact as long as the seconds fit in 64 bits; the safe sum of two valid times is exact when it
  fits and the largest time otherwise; and comparison has the sign of the difference.\<close>

theorem timespec64_arithmetic:
  assumes "normal a" "normal b"
  shows "(in_s64 ((total_ns a + total_ns b) div NSEC_PER_SEC) \<longrightarrow>
      normal (timespec64_add a b) \<and> total_ns (timespec64_add a b) = total_ns a + total_ns b) \<and>
    (in_s64 ((total_ns a - total_ns b) div NSEC_PER_SEC) \<longrightarrow>
      normal (timespec64_sub a b) \<and> total_ns (timespec64_sub a b) = total_ns a - total_ns b) \<and>
    (0 \<le> tv_sec a \<and> 0 \<le> tv_sec b \<longrightarrow> timespec64_add_safe a b =
      (if (total_ns a + total_ns b) div NSEC_PER_SEC \<le> TIME64_MAX then timespec64_add a b
       else \<lparr>tv_sec = TIME64_MAX, tv_nsec = 0\<rparr>)) \<and>
    sgn (timespec64_compare a b) = sgn (total_ns a - total_ns b)"
  using exact_result [OF _ add_spec(1) [OF assms]] exact_result [OF _ add_spec(2) [OF assms]]
    add_safe_spec [OF assms] compare_sign [OF assms] by blast

theorem timespec64_arithmetic_witness:
  "total_ns (timespec64_sub \<lparr>tv_sec = 5, tv_nsec = 1\<rparr> \<lparr>tv_sec = 2, tv_nsec = 3\<rparr>) = 2999999998"
  using timespec64_arithmetic [of "\<lparr>tv_sec = 5, tv_nsec = 1\<rparr>" "\<lparr>tv_sec = 2, tv_nsec = 3\<rparr>"]
  by (simp add: normal_def in_s64_def total_ns_def NSEC_PER_SEC_def)

lemma ns_parts:
  "ns = NSEC_PER_SEC * (ns div NSEC_PER_SEC) + ns mod NSEC_PER_SEC" "0 \<le> ns mod NSEC_PER_SEC" "ns mod NSEC_PER_SEC < NSEC_PER_SEC"
  by (simp_all add: NSEC_PER_SEC_def)

lemma ns_parts_compl:
  "(- ns - 1) div NSEC_PER_SEC = - (ns div NSEC_PER_SEC) - 1" "(- ns - 1) mod NSEC_PER_SEC = NSEC_PER_SEC - ns mod NSEC_PER_SEC - 1"
proof -
  have e: "- ns - 1 = NSEC_PER_SEC * (- (ns div NSEC_PER_SEC) - 1) + (NSEC_PER_SEC - ns mod NSEC_PER_SEC - 1)"
    using ns_parts(1) [of ns] by (simp add: algebra_simps)
  show "(- ns - 1) div NSEC_PER_SEC = - (ns div NSEC_PER_SEC) - 1"
    by (rule int_div_pos_eq [OF e]) (use ns_parts(2,3) [of ns] in auto)
  show "(- ns - 1) mod NSEC_PER_SEC = NSEC_PER_SEC - ns mod NSEC_PER_SEC - 1"
    by (rule int_mod_pos_eq [OF e]) (use ns_parts(2,3) [of ns] in auto)
qed

lemma sec_in_s64: "in_s64 ns \<Longrightarrow> in_s64 (ns div NSEC_PER_SEC)"
  using ns_parts [of ns] by (auto simp: in_s64_def NSEC_PER_SEC_def)

lemma ns_to_timespec_spec:
  assumes "in_s64 ns"
  shows "ns_to_timespec64 ns = \<lparr>tv_sec = ns div NSEC_PER_SEC, tv_nsec = ns mod NSEC_PER_SEC\<rparr>"
proof -
  consider "ns > 0" | "ns = 0" | "ns < 0" by linarith
  then show ?thesis
  proof cases
    case 1
    then have "u64_of ns = ns" using assms by (simp add: u64_of_def in_s64_def)
    then show ?thesis using 1 by (simp add: ns_to_timespec64_def)
  next
    case 2
    then show ?thesis by (simp add: ns_to_timespec64_def NSEC_PER_SEC_def)
  next
    case 3
    let ?n = "- ns - 1"
    have "in_s64 ?n" "0 \<le> ?n" using 3 assms by (simp_all add: in_s64_def)
    then have u: "u64_of (s64 (s64 (- ns) - 1)) = ?n" by (simp add: s64_diff s64_id u64_of_def in_s64_def)
    have d: "s64 (s64 (- (?n div NSEC_PER_SEC)) - 1) = ns div NSEC_PER_SEC" "NSEC_PER_SEC - ?n mod NSEC_PER_SEC - 1 = ns mod NSEC_PER_SEC"
      unfolding ns_parts_compl s64_diff using s64_id [OF sec_in_s64 [OF assms]] by simp_all
    show ?thesis using 3 unfolding ns_to_timespec64_def u Let_def d by simp
  qed
qed

lemma valid_iff: "in_s64 (tv_sec ts) \<Longrightarrow> in_s64 (tv_nsec ts) \<Longrightarrow> timespec64_valid ts \<longleftrightarrow> normal ts \<and> 0 \<le> tv_sec ts"
proof -
  assume a: "in_s64 (tv_sec ts)" "in_s64 (tv_nsec ts)"
  have "u64_of (tv_nsec ts) = (if tv_nsec ts < 0 then tv_nsec ts + 2 ^ 64 else tv_nsec ts)"
  proof (cases "tv_nsec ts < 0")
    case True
    have "(tv_nsec ts + 2 ^ 64) mod 2 ^ 64 = tv_nsec ts + 2 ^ 64" using a(2) True by (intro mod_pos_pos_trivial) (simp_all add: in_s64_def)
    then show ?thesis using True by (simp add: u64_of_def)
  next
    case False
    then show ?thesis using a(2) by (simp add: u64_of_def in_s64_def)
  qed
  then show ?thesis using a by (auto simp: timespec64_valid_def normal_def in_s64_def NSEC_PER_SEC_def)
qed

text \<open>A strictly valid time converts to nanoseconds without saturation, and what may be set as the
  time of day is strictly valid.\<close>

lemma valid_strict_exact:
  assumes "in_s64 (tv_sec ts)" "in_s64 (tv_nsec ts)" "timespec64_valid_strict ts"
  shows "timespec64_to_ns ts = total_ns ts"
proof -
  have v: "timespec64_valid ts" using assms(3) by (simp add: timespec64_valid_strict_def split: if_splits)
  then have n: "normal ts" "0 \<le> tv_sec ts" using valid_iff [OF assms(1,2)] by simp_all
  then have "u64_of (tv_sec ts) = tv_sec ts" by (simp add: u64_of_def normal_def in_s64_def)
  then have k: "tv_sec ts < KTIME_SEC_MAX" using assms(3) by (simp add: timespec64_valid_strict_def split: if_splits)
  then have m: "tv_sec ts < 9223372036" by (simp add: KTIME_SEC_MAX_def KTIME_MAX_def NSEC_PER_SEC_def)
  have neg: "\<not> tv_sec ts \<le> KTIME_SEC_MIN" using n(2) by (simp add: KTIME_SEC_MIN_def KTIME_MIN_def KTIME_MAX_def NSEC_PER_SEC_def)
  have "in_s64 (total_ns ts)" using n m by (simp add: in_s64_def total_ns_def normal_def NSEC_PER_SEC_def)
  then show ?thesis using k neg by (simp add: timespec64_to_ns_def s64_add s64_id total_ns_def)
qed

lemma valid_settod_strict: "timespec64_valid_settod ts \<Longrightarrow> timespec64_valid_strict ts"
  by (auto simp: timespec64_valid_settod_def timespec64_valid_strict_def TIME_SETTOD_SEC_MAX_def TIME_UPTIME_SEC_MAX_def split: if_splits)

text \<open>A count of nanoseconds converted to seconds and nanoseconds is normalized and stands for the same
  time, for every signed 64-bit count, the most negative included; and converting back gives the
  count, except within the outermost seconds of the range, where the largest or the smallest count
  is returned.\<close>

theorem ns_timespec_roundtrip:
  assumes "- (2 ^ 63) \<le> ns" "ns < 2 ^ 63"
  shows "normal (ns_to_timespec64 ns) \<and> total_ns (ns_to_timespec64 ns) = ns \<and>
    timespec64_to_ns (ns_to_timespec64 ns) =
      (if ns \<ge> 9223372036000000000 then KTIME_MAX else if ns < - 9223372035000000000 then KTIME_MIN else ns)"
proof -
  have i: "in_s64 ns" using assms by (simp add: in_s64_def)
  have s: "in_s64 (ns div NSEC_PER_SEC)" using sec_in_s64 [OF i] .
  have k: "KTIME_SEC_MAX = 9223372036" "KTIME_SEC_MIN = - 9223372036"
    by (simp_all add: KTIME_SEC_MAX_def KTIME_SEC_MIN_def KTIME_MIN_def KTIME_MAX_def NSEC_PER_SEC_def)
  have "s64 (s64 (ns div NSEC_PER_SEC * NSEC_PER_SEC) + ns mod NSEC_PER_SEC) = ns"
    using s64_id [OF i] by (simp add: s64_add)
  moreover have "ns div NSEC_PER_SEC \<ge> 9223372036 \<longleftrightarrow> ns \<ge> 9223372036000000000"
    "ns div NSEC_PER_SEC \<le> - 9223372036 \<longleftrightarrow> ns < - 9223372035000000000"
    using ns_parts [of ns] unfolding NSEC_PER_SEC_def by linarith+
  moreover have "normal (ns_to_timespec64 ns) \<and> total_ns (ns_to_timespec64 ns) = ns"
    by (rule exact_result [OF s]) (simp add: ns_to_timespec_spec [OF i] s64_id [OF s])
  ultimately show ?thesis by (simp add: timespec64_to_ns_def ns_to_timespec_spec [OF i] k)
qed

theorem ns_timespec_roundtrip_witness:
  "normal (ns_to_timespec64 (- 1)) \<and> timespec64_to_ns (ns_to_timespec64 (- 1)) = - 1"
  using ns_timespec_roundtrip [of "- 1"] by simp

end
