(* ===== verification/Timeconv.thy ===== *)
theory Timeconv
  imports Timespec "HOL-Library.Signed_Division"
begin

text \<open>
  Calendar dates: time64_to_tm (kernel/time/timeconv.c), mktime64 (kernel/time/time.c) and the
  reference calendar of their test (kernel/time/time_test.c). C's signed division is \<open>sdiv\<close> and
  \<open>smod\<close>; each value is reduced to the width of its C type.
\<close>

section \<open>Operations\<close>

definition s32 :: "int \<Rightarrow> int" where "s32 x = (x + 2 ^ 31) mod 2 ^ 32 - 2 ^ 31"
definition u32_of :: "int \<Rightarrow> int" where "u32_of x = x mod 2 ^ 32"
definition u16_of :: "int \<Rightarrow> int" where "u16_of x = x mod 2 ^ 16"

definition upper_32_bits :: "int \<Rightarrow> int" where "upper_32_bits n = u32_of ((n div 2 ^ 16) div 2 ^ 16)"
definition lower_32_bits :: "int \<Rightarrow> int" where "lower_32_bits n = u32_of n"

definition SECS_PER_HOUR :: int where "SECS_PER_HOUR = 60 * 60"
definition SECS_PER_DAY :: int where "SECS_PER_DAY = SECS_PER_HOUR * 24"

record tm =
  tm_sec :: int
  tm_min :: int
  tm_hour :: int
  tm_mday :: int
  tm_mon :: int
  tm_year :: int
  tm_wday :: int
  tm_yday :: int

text \<open>The two loops that bring the seconds of the day into range. The seconds move towards zero, so
  that they never leave the range of a long; the days wrap.\<close>

function rem_up :: "int \<Rightarrow> int \<Rightarrow> int \<times> int" where
  "rem_up days rm = (if rm < 0 then rem_up (s64 (days - 1)) (rm + SECS_PER_DAY) else (days, rm))"
  by pat_completeness auto
termination by (relation "measure (\<lambda>(days, rm). nat (- rm))") (auto simp: SECS_PER_DAY_def SECS_PER_HOUR_def)

function rem_down :: "int \<Rightarrow> int \<Rightarrow> int \<times> int" where
  "rem_down days rm = (if rm \<ge> SECS_PER_DAY then rem_down (s64 (days + 1)) (rm - SECS_PER_DAY) else (days, rm))"
  by pat_completeness auto
termination by (relation "measure (\<lambda>(days, rm). nat rm)") (auto simp: SECS_PER_DAY_def SECS_PER_HOUR_def)

declare rem_up.simps [simp del] rem_down.simps [simp del]

text \<open>The date part of the function, from the number of days since 1970-01-01: year, month, day of the
  month and day of the year as they are stored.\<close>

definition days_to_date :: "int \<Rightarrow> int \<times> int \<times> int \<times> int" where
  "days_to_date days =
    (let udays = u64_of (u64_of days + 2305843009213814918);
         u64tmp = u64_of (4 * udays + 3);
         century = u64tmp div 146097;
         u64tmp = u64tmp mod 146097;
         day_of_century = u32_of (u64tmp div 4);
         u32tmp = u32_of (4 * day_of_century + 3);
         u64tmp = u64_of (2939745 * u32tmp);
         year_of_century = upper_32_bits u64tmp;
         day_of_year = lower_32_bits u64tmp div 2939745 div 4;
         year = u64_of (100 * century + year_of_century);
         is_leap_year = (if year_of_century \<noteq> 0 then year_of_century mod 4 = 0 else century mod 4 = 0);
         u32tmp = u32_of (2141 * day_of_year + 132377);
         month = u32tmp div 2 ^ 16;
         day = u16_of u32tmp div 2141;
         is_Jan_or_Feb = day_of_year \<ge> 306;
         year = u64_of (year + of_bool is_Jan_or_Feb - 6313183731940000);
         month = (if is_Jan_or_Feb then u32_of (month - 12) else month);
         day = u32_of (day + 1);
         day_of_year = u32_of (day_of_year + (if is_Jan_or_Feb then - 306 else 31 + 28 + of_bool is_leap_year))
     in (s64 (u64_of (year - 1900)), s32 month, s32 day, s32 day_of_year))"

definition time64_to_tm :: "int \<Rightarrow> int \<Rightarrow> tm" where
  "time64_to_tm totalsecs offset =
    (let days = totalsecs sdiv SECS_PER_DAY;
         rm = totalsecs smod SECS_PER_DAY + offset;
         (days, rm) = rem_up days rm;
         (days, rm) = rem_down days rm;
         hour = rm sdiv SECS_PER_HOUR;
         rm = rm smod SECS_PER_HOUR;
         wday = s64 (4 + days) smod 7;
         (year, mon, mday, yday) = days_to_date days
     in \<lparr>tm_sec = s32 (rm smod 60), tm_min = s32 (rm sdiv 60), tm_hour = s32 hour, tm_mday = mday, tm_mon = mon,
         tm_year = year, tm_wday = (if wday < 0 then wday + 7 else wday), tm_yday = yday\<rparr>)"

definition mktime64 :: "int \<Rightarrow> int \<Rightarrow> int \<Rightarrow> int \<Rightarrow> int \<Rightarrow> int \<Rightarrow> int" where
  "mktime64 year0 mon0 day hour mi sec =
    (let mon = u32_of (mon0 - 2);
         (mon, year) = (if 0 \<ge> s32 mon then (u32_of (mon + 12), u32_of (year0 - 1)) else (mon, year0));
         d = u32_of (year div 4 - year div 100 + year div 400 + u32_of (367 * mon) div 12 + day);
         d = s64 (d + u32_of (year * 365) - 719499);
         h = s64 (d * 24 + hour);
         m = s64 (h * 60 + mi)
     in s64 (m * 60 + sec))"

section \<open>The reference calendar (time_test.c)\<close>

definition is_leap :: "int \<Rightarrow> bool" where
  "is_leap year \<longleftrightarrow> year smod 4 = 0 \<and> (year smod 100 \<noteq> 0 \<or> year smod 400 = 0)"

definition last_day_of_month :: "int \<Rightarrow> int \<Rightarrow> int" where
  "last_day_of_month year month =
     (if month = 2 then 28 + of_bool (is_leap year)
      else if month = 4 \<or> month = 6 \<or> month = 9 \<or> month = 11 then 30 else 31)"

fun advance_date :: "int \<times> int \<times> int \<times> int \<Rightarrow> int \<times> int \<times> int \<times> int" where
  "advance_date (year, month, mday, yday) =
     (if mday \<noteq> last_day_of_month year month then (year, month, mday + 1, yday + 1)
      else if month \<noteq> 12 then (year, month + 1, 1, yday + 1)
      else (year + 1, 1, 1, 0))"

text \<open>The test: from the date 80000 years before 1970, compare and advance day by day; the value is whether
  every comparison succeeds. The argument counts the rounds left.\<close>

definition total_secs :: int where "total_secs = 80000 div 400 * 146097 * 86400"

fun test_rounds :: "nat \<Rightarrow> int \<Rightarrow> int \<times> int \<times> int \<times> int \<Rightarrow> bool" where
  "test_rounds 0 secs d = True"
| "test_rounds (Suc n) secs (year, month, mdday, yday) =
     (let result = time64_to_tm secs 0 in
      year - 1900 = tm_year result \<and> month - 1 = tm_mon result \<and> mdday = tm_mday result \<and>
      yday = tm_yday result \<and> test_rounds n (secs + 86400) (advance_date (year, month, mdday, yday)))"

definition time64_to_tm_test_date_range :: bool where
  "time64_to_tm_test_date_range =
     test_rounds (nat (2 * total_secs div 86400) + 1) (- total_secs) (1970 - 80000, 1, 1, 0)"

section \<open>Dates\<close>

definition tm_date :: "tm \<Rightarrow> int \<times> int \<times> int \<times> int" where
  "tm_date r = (tm_year r + 1900, tm_mon r + 1, tm_mday r, tm_yday r)"

fun valid_date :: "int \<times> int \<times> int \<times> int \<Rightarrow> bool" where
  "valid_date (year, month, mday, yday) \<longleftrightarrow>
     1 \<le> month \<and> month \<le> 12 \<and> 1 \<le> mday \<and> mday \<le> last_day_of_month year month \<and>
     0 \<le> yday \<and> yday < 365 + of_bool (is_leap year)"

section \<open>The calendar that starts in March\<close>

text \<open>Days before the first of March of year \<open>y\<close>, counted from the first of March of year 0.\<close>

definition year_start :: "int \<Rightarrow> int" where
  "year_start y = 365 * y + y div 4 - y div 100 + y div 400"

definition march_month :: "int \<Rightarrow> int" where "march_month doy = (2141 * doy + 132377) div 65536"
definition march_day :: "int \<Rightarrow> int" where "march_day doy = (2141 * doy + 132377) mod 65536 div 2141"

text \<open>A year and a day of that calendar as a date of the usual one.\<close>

definition gregorian :: "int \<Rightarrow> int \<Rightarrow> int \<times> int \<times> int \<times> int" where
  "gregorian y doy =
     (if doy \<ge> 306 then (y + 1, march_month doy - 12 + 1, march_day doy + 1, doy - 306)
      else (y, march_month doy + 1, march_day doy + 1, doy + 59 + of_bool (is_leap y)))"

lemma smod_zero: "x smod k = 0 \<longleftrightarrow> k dvd x" for x k :: int
  by (auto simp: signed_modulo_int_def sgn_if dvd_eq_mod_eq_0 [symmetric])

lemma is_leap_iff: "is_leap y \<longleftrightarrow> 4 dvd y \<and> (\<not> 100 dvd y \<or> 400 dvd y)"
  by (simp add: is_leap_def smod_zero)

lemma div_succ:
  fixes y k :: int
  assumes "k > 1"
  shows "(y + 1) div k = y div k + of_bool (k dvd y + 1)"
proof -
  define q r where "q = (y + 1) div k" and "r = (y + 1) mod k"
  have e: "y = k * q + (r - 1)" and r: "0 \<le> r" "r < k" and z: "k dvd y + 1 \<longleftrightarrow> r = 0"
    using assms div_mult_mod_eq [of "y + 1" k] by (simp_all add: q_def r_def dvd_eq_mod_eq_0 algebra_simps)
  have e': "y = k * (q - 1) + (r - 1 + k)" using e by (simp add: algebra_simps)
  show ?thesis
  proof (cases "r = 0")
    case True
    then have "y div k = q - 1" using assms by (intro int_div_pos_eq [OF e']) auto
    then show ?thesis using True z by (simp add: q_def)
  next
    case False
    then have "y div k = q" using r by (intro int_div_pos_eq [OF e]) auto
    then show ?thesis using False z by (simp add: q_def)
  qed
qed

lemma year_length: "year_start (y + 1) = year_start y + 365 + of_bool (is_leap (y + 1))"
proof -
  have "of_bool (a \<and> (\<not> b \<or> c)) = of_bool a - of_bool b + (of_bool c :: int)" if "b \<Longrightarrow> a" "c \<Longrightarrow> b" for a b c
    using that by (cases a; cases b; cases c) simp_all
  from this [of "100 dvd y + 1" "4 dvd y + 1" "400 dvd y + 1"]
  have "of_bool (is_leap (y + 1)) = of_bool (4 dvd y + 1) - of_bool (100 dvd y + 1) + (of_bool (400 dvd y + 1) :: int)"
    unfolding is_leap_iff using dvd_trans [of "4 :: int" 100 "y + 1"] dvd_trans [of "100 :: int" 400 "y + 1"] by simp
  moreover have "(y + 1) div 4 = y div 4 + of_bool (4 dvd y + 1)" "(y + 1) div 100 = y div 100 + of_bool (100 dvd y + 1)"
    "(y + 1) div 400 = y div 400 + of_bool (400 dvd y + 1)" by (rule div_succ, simp)+
  ultimately show ?thesis unfolding year_start_def by (simp only: algebra_simps)
qed

lemma year_start_add: "year_start (y + 400 * k) = year_start y + 146097 * k"
proof -
  have "(y + 4 * (100 * k)) div 4 = 100 * k + y div 4" "(y + 100 * (4 * k)) div 100 = 4 * k + y div 100"
    "(y + 400 * k) div 400 = k + y div 400" by (rule div_mult_self2, simp)+
  then show ?thesis by (simp add: year_start_def)
qed

lemma is_leap_add: "is_leap (y + 400 * k) = is_leap y"
proof -
  have "a dvd 400 \<Longrightarrow> a dvd y + 400 * k \<longleftrightarrow> a dvd y" for a :: int by (simp add: dvd_add_left_iff)
  then show ?thesis by (simp add: is_leap_iff)
qed

lemma year_start_mono: "y \<le> z \<Longrightarrow> year_start y + 365 * (z - y) \<le> year_start z"
proof (induction z rule: int_ge_induct)
  case (step z)
  then show ?case using year_length [of z] by simp
qed simp

text \<open>A day is a year and a day of the year in one way only.\<close>

definition day_in_year :: "int \<Rightarrow> int \<Rightarrow> int \<Rightarrow> bool" where
  "day_in_year n y doy \<longleftrightarrow> n = year_start y + doy \<and> 0 \<le> doy \<and> n < year_start (y + 1)"

lemma day_in_year_unique:
  assumes "day_in_year n y d" "day_in_year n y' d'"
  shows "y = y' \<and> d = d'"
proof -
  have "\<not> y < y'" "\<not> y' < y"
    using assms year_start_mono [of "y + 1" y'] year_start_mono [of "y' + 1" y] by (auto simp: day_in_year_def)
  then show ?thesis using assms by (auto simp: day_in_year_def)
qed

lemma day_in_year_bound: "day_in_year n y d \<Longrightarrow> d < 365 + of_bool (is_leap (y + 1))"
  by (simp add: day_in_year_def year_length)

lemma day_in_year_succ:
  assumes "day_in_year n y d"
  shows "if d < 364 + of_bool (is_leap (y + 1)) then day_in_year (n + 1) y (d + 1) else day_in_year (n + 1) (y + 1) 0"
  using assms day_in_year_bound [OF assms] year_length [of "y + 1"] by (auto simp: day_in_year_def year_length)

section \<open>The arithmetic of the conversion\<close>

lemma int_divmod:
  fixes n k :: int
  assumes "0 < k"
  obtains q r where "n = k * q + r" "0 \<le> r" "r < k" "n div k = q" "n mod k = r"
  using assms that [of "n div k" "n mod k"] by simp

text \<open>Multiplication by 2939745 and a shift by 32 bits divide by 1461.\<close>

lemma fast_div_1461:
  fixes u :: int
  assumes "0 \<le> u" "u < 146100"
  shows "2939745 * u div 2 ^ 32 = u div 1461 \<and> 2939745 * u mod 2 ^ 32 div 2939745 = u mod 1461"
proof -
  obtain q r where u: "u = 1461 * q + r" and b: "0 \<le> r" "r < 1461" and d: "u div 1461 = q" "u mod 1461 = r"
    by (rule int_divmod [of 1461 u]) simp_all
  have q: "0 \<le> q" "q < 100" using assms u b by linarith+
  have p: "(2 :: int) ^ 32 = 4294967296" by simp
  have e: "2939745 * u = 4294967296 * q + (149 * q + 2939745 * r)" using u by linarith
  have l: "0 \<le> 149 * q + 2939745 * r" "149 * q + 2939745 * r < 4294967296" using q b by linarith+
  have e': "149 * q + 2939745 * r = 2939745 * r + 149 * q" and l': "0 \<le> 149 * q" "149 * q < 2939745" using q by linarith+
  show ?thesis
    unfolding p int_div_pos_eq [OF e l] int_mod_pos_eq [OF e l] int_div_pos_eq [OF e' l'] d by (rule conjI [OF refl refl])
qed

text \<open>Century, day of the century, year of the century and day of the year of a day.\<close>

definition cent :: "int \<Rightarrow> int" where "cent n = (4 * n + 3) div 146097"
definition doc :: "int \<Rightarrow> int" where "doc n = (4 * n + 3) mod 146097 div 4"
definition yoc :: "int \<Rightarrow> int" where "yoc n = (4 * doc n + 3) div 1461"
definition doy :: "int \<Rightarrow> int" where "doy n = (4 * doc n + 3) mod 1461 div 4"

lemma doc_split:
  obtains cq cr a where "cent n = 4 * cq + cr" "0 \<le> cr" "cr < 4" "4 * doc n = a - 3 + cr" "a < 146097"
    "n = 36524 * cent n + cq + doc n" "0 \<le> doc n"
proof -
  obtain a where a: "4 * n + 3 = 146097 * cent n + a" "0 \<le> a" "a < 146097" "(4 * n + 3) mod 146097 = a"
    by (rule int_divmod [of 146097 "4 * n + 3"]) (simp_all add: cent_def)
  obtain b where b: "a = 4 * doc n + b" "0 \<le> b" "b < 4"
    by (rule int_divmod [of 4 a]) (simp_all add: doc_def a(4))
  obtain cq cr where c: "cent n = 4 * cq + cr" "0 \<le> cr" "cr < 4"
    by (rule int_divmod [of 4 "cent n"]) simp_all
  have n: "n = 36524 * cent n + cq + doc n" using a(1) b c by linarith
  then have "b = 3 - cr" using a(1) b c by linarith
  then show ?thesis using that [OF c _ a(3) n] a(2) b by linarith
qed

lemma yoc_split:
  obtains yq yr where "yoc n = 4 * yq + yr" "0 \<le> yr" "yr < 4" "doc n = 365 * yoc n + yq + doy n" "0 \<le> doy n"
    "0 \<le> yoc n" "yoc n < 100" "doy n \<le> 365" "doy n = 365 \<longrightarrow> yr = 3"
proof -
  obtain cq cr a where d: "0 \<le> doc n" "4 * doc n = a - 3 + cr" "a < 146097" "cr < 4" by (rule doc_split [of n])
  obtain e where e: "4 * doc n + 3 = 1461 * yoc n + e" "0 \<le> e" "e < 1461" "(4 * doc n + 3) mod 1461 = e"
    by (rule int_divmod [of 1461 "4 * doc n + 3"]) (simp_all add: yoc_def)
  obtain f where f: "e = 4 * doy n + f" "0 \<le> f" "f < 4"
    by (rule int_divmod [of 4 e]) (simp_all add: doy_def e(4))
  obtain yq yr where y: "yoc n = 4 * yq + yr" "0 \<le> yr" "yr < 4"
    by (rule int_divmod [of 4 "yoc n"]) simp_all
  have n: "doc n = 365 * yoc n + yq + doy n" using e(1) f y by linarith
  have b: "0 \<le> doy n" "0 \<le> yoc n" "yoc n < 100" "doy n \<le> 365" "doy n = 365 \<longrightarrow> yr = 3"
    using d e f y n by linarith+
  show ?thesis using that [OF y n] b by blast
qed

lemma leap_of_century:
  assumes "0 \<le> y" "y < 100"
  shows "is_leap (100 * c + y) \<longleftrightarrow> (if y \<noteq> 0 then y mod 4 = 0 else c mod 4 = 0)"
proof -
  have "(4 :: int) dvd 100 * c" using dvd_mult2 [of 4 "100 :: int" c] by simp
  then have a: "4 dvd 100 * c + y \<longleftrightarrow> y mod 4 = 0" by (metis dvd_add_right_iff dvd_eq_mod_eq_0)
  have "100 dvd 100 * c + y \<longleftrightarrow> 100 dvd y" by (simp add: dvd_add_right_iff)
  then have b: "100 dvd 100 * c + y \<longleftrightarrow> y = 0" using assms zdvd_not_zless [of y 100] by auto
  have "100 * 4 dvd 100 * c \<longleftrightarrow> 4 dvd c" by (rule dvd_times_left_cancel_iff) simp
  then have d: "400 dvd 100 * c \<longleftrightarrow> c mod 4 = 0" by (simp add: dvd_eq_mod_eq_0)
  show ?thesis using a b d by (auto simp: is_leap_iff)
qed

lemma march_date: "day_in_year n (100 * cent n + yoc n) (doy n)"
proof -
  obtain cq cr a where c: "cent n = 4 * cq + cr" "0 \<le> cr" "cr < 4" "4 * doc n = a - 3 + cr" "a < 146097"
    "n = 36524 * cent n + cq + doc n" by (rule doc_split [of n])
  obtain yq yr where y: "yoc n = 4 * yq + yr" "0 \<le> yr" "yr < 4" "doc n = 365 * yoc n + yq + doy n" "0 \<le> doy n"
    "0 \<le> yoc n" "yoc n < 100" "doy n \<le> 365" "doy n = 365 \<longrightarrow> yr = 3" by (rule yoc_split [of n])
  let ?y = "100 * cent n + yoc n"
  have e: "?y = 4 * (25 * cent n + yq) + yr" "?y = 400 * cq + (100 * cr + yoc n)" using c(1) y(1) by simp_all
  have l: "0 \<le> 100 * cr + yoc n" "100 * cr + yoc n < 400" using c(2,3) y(6,7) by linarith+
  have "year_start ?y = 365 * ?y + (25 * cent n + yq) - cent n + cq"
    unfolding year_start_def int_div_pos_eq [OF e(1) y(2,3)] int_div_pos_eq [OF e(2) l] int_div_pos_eq [OF refl y(6,7)] by (rule refl)
  then have n: "n = year_start ?y + doy n" using c(6) y(4) by simp
  have "is_leap (?y + 1)" if "doy n = 365"
  proof (cases "yoc n = 99")
    case True
    then have "cr = 3" using c y that by linarith
    then have "is_leap (100 * (cent n + 1) + 0)" using c by (subst leap_of_century) auto
    then show ?thesis using True by (simp add: algebra_simps)
  next
    case False
    have "yoc n + 1 = 4 * (yq + 1)" using y that by simp
    then have "(yoc n + 1) mod 4 = 0" by simp
    then have "is_leap (100 * cent n + (yoc n + 1))" using False y by (subst leap_of_century) auto
    then show ?thesis by (simp add: add.assoc)
  qed
  then have "doy n < 365 + of_bool (is_leap (?y + 1))" using y(8) by (cases "doy n = 365") auto
  then show ?thesis using n y(5) by (simp add: day_in_year_def year_length)
qed

text \<open>Months and days of the calendar that starts in March.\<close>

lemma march_row:
  assumes "0 \<le> 132377 + 2141 * s - 65536 * m" "132377 + 2141 * s - 65536 * m < 2141" "s \<le> d"
    "2141 * (d - s) + (132377 + 2141 * s - 65536 * m) < 65536"
  shows "march_month d = m \<and> march_day d = d - s"
proof -
  define c where "c = 132377 + 2141 * s - 65536 * m"
  have e: "2141 * d + 132377 = 65536 * m + (2141 * (d - s) + c)" by (simp add: c_def)
  have l: "0 \<le> 2141 * (d - s) + c" "2141 * (d - s) + c < 65536" and c: "0 \<le> c" "c < 2141"
    using assms by (simp_all add: c_def)
  show ?thesis
    unfolding march_month_def march_day_def int_div_pos_eq [OF e l] int_mod_pos_eq [OF e l] int_div_pos_eq [OF refl c] by simp
qed

lemma march_rows:
  "0 \<le> d \<Longrightarrow> d < 31 \<Longrightarrow> march_month d = 2 \<and> march_day d = d - 0"
  "31 \<le> d \<Longrightarrow> d < 61 \<Longrightarrow> march_month d = 3 \<and> march_day d = d - 31"
  "61 \<le> d \<Longrightarrow> d < 92 \<Longrightarrow> march_month d = 4 \<and> march_day d = d - 61"
  "92 \<le> d \<Longrightarrow> d < 122 \<Longrightarrow> march_month d = 5 \<and> march_day d = d - 92"
  "122 \<le> d \<Longrightarrow> d < 153 \<Longrightarrow> march_month d = 6 \<and> march_day d = d - 122"
  "153 \<le> d \<Longrightarrow> d < 184 \<Longrightarrow> march_month d = 7 \<and> march_day d = d - 153"
  "184 \<le> d \<Longrightarrow> d < 214 \<Longrightarrow> march_month d = 8 \<and> march_day d = d - 184"
  "214 \<le> d \<Longrightarrow> d < 245 \<Longrightarrow> march_month d = 9 \<and> march_day d = d - 214"
  "245 \<le> d \<Longrightarrow> d < 275 \<Longrightarrow> march_month d = 10 \<and> march_day d = d - 245"
  "275 \<le> d \<Longrightarrow> d < 306 \<Longrightarrow> march_month d = 11 \<and> march_day d = d - 275"
  "306 \<le> d \<Longrightarrow> d < 337 \<Longrightarrow> march_month d = 12 \<and> march_day d = d - 306"
  "337 \<le> d \<Longrightarrow> d < 366 \<Longrightarrow> march_month d = 13 \<and> march_day d = d - 337"
  by (rule march_row; simp)+

lemma month_cases:
  fixes d :: int
  assumes "0 \<le> d" "d \<le> 365"
  obtains "0 \<le> d" "d < 31" | "31 \<le> d" "d < 61" | "61 \<le> d" "d < 92" | "92 \<le> d" "d < 122" | "122 \<le> d" "d < 153" | "153 \<le> d" "d < 184"
    | "184 \<le> d" "d < 214" | "214 \<le> d" "d < 245" | "245 \<le> d" "d < 275" | "275 \<le> d" "d < 306" | "306 \<le> d" "d < 337" | "337 \<le> d" "d < 366"
  using assms by atomize_elim presburger

lemma march_bounds:
  assumes "0 \<le> d" "d \<le> 365"
  shows "2 \<le> march_month d \<and> march_month d \<le> 13 \<and> (306 \<le> d \<longleftrightarrow> 12 \<le> march_month d) \<and> 0 \<le> march_day d \<and> march_day d < 31 \<and>
    367 * (march_month d - 1) div 12 + march_day d - 30 = d"
  by (rule month_cases [OF assms]) (simp_all add: march_rows)

lemma advance_in_year:
  assumes "0 \<le> d" "d < 364 + of_bool (is_leap (y + 1))"
  shows "advance_date (gregorian y d) = gregorian y (d + 1)"
proof -
  have "d < 365" using assms(2) by (cases "is_leap (y + 1)") simp_all
  then have "d \<le> 365" by simp
  with assms(1) show ?thesis
  apply (rule month_cases)
  subgoal by (cases "d = 30") (simp_all add: gregorian_def march_rows last_day_of_month_def)
  subgoal by (cases "d = 60") (simp_all add: gregorian_def march_rows last_day_of_month_def)
  subgoal by (cases "d = 91") (simp_all add: gregorian_def march_rows last_day_of_month_def)
  subgoal by (cases "d = 121") (simp_all add: gregorian_def march_rows last_day_of_month_def)
  subgoal by (cases "d = 152") (simp_all add: gregorian_def march_rows last_day_of_month_def)
  subgoal by (cases "d = 183") (simp_all add: gregorian_def march_rows last_day_of_month_def)
  subgoal by (cases "d = 213") (simp_all add: gregorian_def march_rows last_day_of_month_def)
  subgoal by (cases "d = 244") (simp_all add: gregorian_def march_rows last_day_of_month_def)
  subgoal by (cases "d = 274") (simp_all add: gregorian_def march_rows last_day_of_month_def)
  subgoal by (cases "d = 305") (simp_all add: gregorian_def march_rows last_day_of_month_def)
  subgoal by (cases "d = 336") (simp_all add: gregorian_def march_rows last_day_of_month_def)
  subgoal using assms(2) \<open>d < 365\<close> by (simp add: gregorian_def march_rows last_day_of_month_def)
  done
qed

lemma advance_to_next_year: "advance_date (gregorian y (364 + of_bool (is_leap (y + 1)))) = gregorian (y + 1) 0"
  by (simp add: gregorian_def march_rows last_day_of_month_def)

lemma gregorian_succ:
  assumes "day_in_year n y d" "day_in_year (n + 1) y' d'"
  shows "gregorian y' d' = advance_date (gregorian y d)"
proof (cases "d < 364 + of_bool (is_leap (y + 1))")
  case True
  then have "y' = y \<and> d' = d + 1" using day_in_year_succ [OF assms(1)] day_in_year_unique [OF assms(2)] by simp
  then show ?thesis using True advance_in_year assms(1) by (simp add: day_in_year_def)
next
  case False
  then have "y' = y + 1 \<and> d' = 0" using day_in_year_succ [OF assms(1)] day_in_year_unique [OF assms(2)] by simp
  moreover have "d = 364 + of_bool (is_leap (y + 1))" using False day_in_year_bound [OF assms(1)] by simp
  ultimately show ?thesis using advance_to_next_year by simp
qed

section \<open>The conversion computes the calendar\<close>

lemma u64_id: "0 \<le> x \<Longrightarrow> x < 2 ^ 64 \<Longrightarrow> u64_of x = x"
  by (simp add: u64_of_def)

lemma u32_id: "0 \<le> x \<Longrightarrow> x < 2 ^ 32 \<Longrightarrow> u32_of x = x"
  by (simp add: u32_of_def)

lemma s32_id: "- (2 ^ 31) \<le> x \<Longrightarrow> x < 2 ^ 31 \<Longrightarrow> s32 x = x"
  by (simp add: s32_def)

lemma s64_u64: "s64 (u64_of x) = s64 x"
  by (simp add: s64_def u64_of_def mod_simps)

text \<open>The last part of the conversion, from a year and a day of the calendar that starts in March.\<close>

lemma march_to_stored:
  assumes "0 \<le> d" "d \<le> 365" "in_s64 (y - 1900)" "in_s64 (y - 1899)"
  shows "let t = u32_of (2141 * d + 132377); jf = d \<ge> 306 in
    (s64 (u64_of (u64_of (y + 6313183731940000 + of_bool jf - 6313183731940000) - 1900)),
     s32 (if jf then u32_of (t div 2 ^ 16 - 12) else t div 2 ^ 16), s32 (u32_of (u16_of t div 2141 + 1)),
     s32 (u32_of (d + (if jf then - 306 else 31 + 28 + of_bool (is_leap y))))) =
    (case gregorian y d of (ye, mo, md, yd) \<Rightarrow> (ye - 1900, mo - 1, md, yd))"
proof -
  have b: "2 \<le> march_month d" "march_month d \<le> 13" "306 \<le> d \<longleftrightarrow> 12 \<le> march_month d" "0 \<le> march_day d" "march_day d < 31"
    using march_bounds [OF assms(1,2)] by simp_all
  have t: "u32_of (2141 * d + 132377) = 2141 * d + 132377" using assms(1,2) by (intro u32_id) simp_all
  have "s64 (u64_of (u64_of (y + of_bool (306 \<le> d)) - 1900)) = y + of_bool (306 \<le> d) - 1900"
  proof -
    have "s64 (u64_of (u64_of z - 1900)) = s64 (z - 1900)" for z
      by (simp add: s64_def u64_of_def mod_simps)
    moreover have "in_s64 (y + of_bool (306 \<le> d) - 1900)" using assms(3,4) by (cases "306 \<le> d") simp_all
    ultimately show ?thesis by (simp add: s64_id)
  qed
  then show ?thesis using b assms(1,2)
    by (cases "306 \<le> d") (simp_all add: Let_def t gregorian_def march_month_def [symmetric] march_day_def [symmetric] u16_of_def u32_id s32_id)
qed

lemma day_in_year_shift: "day_in_year (n + 146097 * k) (y + 400 * k) d \<longleftrightarrow> day_in_year n y d"
proof -
  have "y + 400 * k + 1 = y + 1 + 400 * k" by simp
  then show ?thesis unfolding day_in_year_def by (simp only: year_start_add) simp
qed

lemma century_steps:
  assumes "0 \<le> n" "n < 2 ^ 62"
  shows "u64_of (4 * n + 3) = 4 * n + 3" "u32_of ((4 * n + 3) mod 146097 div 4) = doc n"
    "u32_of (4 * doc n + 3) = 4 * doc n + 3"
    "upper_32_bits (u64_of (2939745 * (4 * doc n + 3))) = yoc n"
    "lower_32_bits (u64_of (2939745 * (4 * doc n + 3))) div 2939745 div 4 = doy n"
    "u64_of (100 * cent n + yoc n) = 100 * cent n + yoc n" "0 \<le> cent n" "cent n < 2 ^ 50"
proof -
  obtain cq cr a where c: "0 \<le> doc n" "4 * doc n = a - 3 + cr" "a < 146097" "cr < 4" by (rule doc_split [of n])
  have d: "0 \<le> doc n" "doc n < 36525" using c by linarith+
  show "u64_of (4 * n + 3) = 4 * n + 3" using assms by (intro u64_id) simp_all
  show "u32_of ((4 * n + 3) mod 146097 div 4) = doc n" using u32_id [of "doc n"] d by (simp add: doc_def)
  show "u32_of (4 * doc n + 3) = 4 * doc n + 3" using d by (intro u32_id) simp_all
  have m: "u64_of (2939745 * (4 * doc n + 3)) = 2939745 * (4 * doc n + 3)" using d by (intro u64_id) simp_all
  have f: "2939745 * (4 * doc n + 3) div 2 ^ 32 = yoc n" "2939745 * (4 * doc n + 3) mod 2 ^ 32 div 2939745 = (4 * doc n + 3) mod 1461"
    using fast_div_1461 [of "4 * doc n + 3"] d unfolding yoc_def by simp_all
  have y: "0 \<le> yoc n" "yoc n < 100" by (rule yoc_split [of n], assumption)+
  have "2939745 * (4 * doc n + 3) div 2 ^ 16 div 2 ^ 16 = yoc n" unfolding f(1) [symmetric] by (simp add: div_mult2_eq' flip: zdiv_zmult2_eq)
  then show "upper_32_bits (u64_of (2939745 * (4 * doc n + 3))) = yoc n"
    unfolding upper_32_bits_def m using y by (simp only:) (intro u32_id, simp_all)
  show "lower_32_bits (u64_of (2939745 * (4 * doc n + 3))) div 2939745 div 4 = doy n"
    unfolding lower_32_bits_def u32_of_def m f(2) doy_def by (rule refl)
  obtain r where e: "4 * n + 3 = 146097 * cent n + r" "0 \<le> r" "r < 146097"
    by (rule int_divmod [of 146097 "4 * n + 3"]) (simp_all add: cent_def)
  have p: "(2 :: int) ^ 62 = 4611686018427387904" "(2 :: int) ^ 50 = 1125899906842624" "(2 :: int) ^ 64 = 18446744073709551616" by simp_all
  show b: "0 \<le> cent n" "cent n < 2 ^ 50" using e assms unfolding p by linarith+
  show "u64_of (100 * cent n + yoc n) = 100 * cent n + yoc n" using b y unfolding p by (intro u64_id) (simp_all add: p)
qed

lemma days_to_date_spec:
  assumes "- (2 ^ 60) \<le> days" "days \<le> 2 ^ 60"
  obtains y d where "day_in_year (days + 719468) y d" "0 \<le> d" "d \<le> 365"
    "days_to_date days = (case gregorian y d of (ye, mo, md, yd) \<Rightarrow> (ye - 1900, mo - 1, md, yd))"
proof -
  define n where "n = days + 2305843009213814918"
  define y where "y = 100 * cent n + yoc n - 6313183731940000"
  have n: "0 \<le> n" "n < 2 ^ 62" using assms by (simp_all add: n_def)
  note st = century_steps [OF n]
  have u: "u64_of (u64_of days + 2305843009213814918) = n"
    using n u64_id [of n] by (simp add: n_def u64_of_def mod_simps)
  have d: "0 \<le> doy n" "doy n \<le> 365" and c: "0 \<le> yoc n" "yoc n < 100" by (rule yoc_split [of n], assumption)+
  have "day_in_year (days + 719468 + 146097 * 15782959329850) (y + 400 * 15782959329850) (doy n)"
    using march_date [of n] by (simp add: n_def y_def add.commute)
  then have dy: "day_in_year (days + 719468) y (doy n)" by (simp only: day_in_year_shift)
  have l: "(if yoc n \<noteq> 0 then yoc n mod 4 = 0 else cent n mod 4 = 0) = is_leap y"
    using leap_of_century [OF c, of "cent n"] is_leap_add [of y 15782959329850] by (simp add: y_def)
  have y: "100 * cent n + yoc n = y + 6313183731940000" by (simp add: y_def)
  have "in_s64 (y - 1900)" "in_s64 (y - 1899)" using st(7,8) c by (simp_all add: in_s64_def y_def)
  note march_to_stored [OF d this]
  then have "days_to_date days = (case gregorian y (doy n) of (ye, mo, md, yd) \<Rightarrow> (ye - 1900, mo - 1, md, yd))"
    unfolding days_to_date_def Let_def u st(1) cent_def [symmetric] st(2-5) l y st(6) [unfolded y] .
  then show ?thesis using that [OF dy d] by blast
qed

text \<open>The loops bring the seconds of the day into range and carry into the days.\<close>

lemma secs_per_day: "SECS_PER_DAY = 86400" "SECS_PER_HOUR = 3600"
  by (simp_all add: SECS_PER_DAY_def SECS_PER_HOUR_def)

lemma rem_up_spec: "r < 86400 \<Longrightarrow> rem_up (s64 d) r = (s64 (d + r div 86400), r mod 86400)"
proof (induction "nat (- r)" arbitrary: d r rule: less_induct)
  case less
  show ?case
  proof (cases "r < 0")
    case True
    have "(r + 86400) div 86400 = r div 86400 + 1" "(r + 86400) mod 86400 = r mod 86400" by simp_all
    moreover have "rem_up (s64 (d - 1)) (r + 86400) = (s64 (d - 1 + (r + 86400) div 86400), (r + 86400) mod 86400)"
      using less(1) [of "r + 86400" "d - 1"] True by simp
    ultimately show ?thesis using True by (subst rem_up.simps) (simp add: secs_per_day s64_diff)
  next
    case False
    then show ?thesis using less(2) by (subst rem_up.simps) simp
  qed
qed

lemma rem_down_spec: "0 \<le> r \<Longrightarrow> rem_down (s64 d) r = (s64 (d + r div 86400), r mod 86400)"
proof (induction "nat r" arbitrary: d r rule: less_induct)
  case less
  show ?case
  proof (cases "r \<ge> 86400")
    case True
    have "(r - 86400) div 86400 = r div 86400 - 1" "(r - 86400) mod 86400 = r mod 86400" by simp_all
    moreover have "rem_down (s64 (d + 1)) (r - 86400) = (s64 (d + 1 + (r - 86400) div 86400), (r - 86400) mod 86400)"
      using less(1) [of "r - 86400" "d + 1"] True by simp
    ultimately show ?thesis using True by (subst rem_down.simps) (simp add: secs_per_day s64_add)
  next
    case False
    then show ?thesis using less(2) by (subst rem_down.simps) (simp add: secs_per_day)
  qed
qed

lemma rem_loops: "(case rem_up (s64 days) rm of (x, y) \<Rightarrow> rem_down x y) = (s64 (days + rm div 86400), rm mod 86400)"
proof (cases "rm < 0")
  case True
  then show ?thesis using rem_up_spec [of rm days] rem_down_spec [of "rm mod 86400" "days + rm div 86400"] by simp
next
  case False
  then have "rem_up (s64 days) rm = (s64 days, rm)" by (subst rem_up.simps) simp
  then show ?thesis using False rem_down_spec [of rm days] by simp
qed

lemma sdiv_smod_sum:
  fixes t k :: int
  assumes "0 < k"
  shows "t sdiv k + (t smod k + x) div k = (t + x) div k" "(t smod k + x) mod k = (t + x) mod k"
proof -
  have e: "t + x = (t smod k + x) + k * (t sdiv k)" using sdiv_mult_smod_eq [of t k] by (simp add: mult.commute)
  show "t sdiv k + (t smod k + x) div k = (t + x) div k" "(t smod k + x) mod k = (t + x) mod k"
    using assms by (simp_all add: e)
qed

lemma sdiv_nonneg: "0 \<le> a \<Longrightarrow> 0 < b \<Longrightarrow> a sdiv b = a div b \<and> a smod b = a mod b" for a b :: int
  by (cases "a = 0") (simp_all add: signed_divide_int_def signed_modulo_int_def)

lemma smod7: "(if x smod 7 < 0 then x smod 7 + 7 else x smod 7) = x mod 7" for x :: int
proof (cases "0 \<le> x")
  case True
  then show ?thesis using sdiv_nonneg [of x 7] by simp
next
  case False
  then have "x smod 7 = - ((- x) mod 7)" by (simp add: signed_modulo_int_def)
  moreover have "x mod 7 = (if (- x) mod 7 = 0 then 0 else 7 - (- x) mod 7)" using zmod_zminus1_eq_if [of "- x" 7] by simp
  moreover have "0 \<le> (- x) mod 7" by simp
  ultimately show ?thesis by auto
qed

lemma small_div: "0 \<le> x \<Longrightarrow> x < 86400 \<Longrightarrow> 0 < k \<Longrightarrow> s32 (x div k) = x div k"
proof -
  assume a: "0 \<le> x" "x < 86400" "0 < k"
  then have "0 \<le> x div k" "x div k \<le> x" using zdiv_mono2 [of x 1 k] by (simp_all add: pos_imp_zdiv_nonneg_iff)
  then show ?thesis using a by (simp add: s32_id)
qed

lemma small_mod: "0 < k \<Longrightarrow> k < 86400 \<Longrightarrow> s32 (x mod k) = x mod k"
proof -
  assume a: "0 < k" "k < 86400"
  then have "0 \<le> x mod k" "x mod k < k" by simp_all
  then show ?thesis using a(2) by (intro s32_id) (rule order_trans [of _ 0], simp_all)
qed

lemma time64_to_tm_spec:
  assumes "in_s64 totalsecs" "- (2 ^ 31) \<le> offset" "offset < 2 ^ 31"
  defines "n \<equiv> (totalsecs + offset) div 86400" and "r \<equiv> (totalsecs + offset) mod 86400"
  shows "time64_to_tm totalsecs offset = (case days_to_date n of (y, mo, md, yd) \<Rightarrow>
      \<lparr>tm_sec = r mod 3600 mod 60, tm_min = r mod 3600 div 60, tm_hour = r div 3600, tm_mday = md, tm_mon = mo,
       tm_year = y, tm_wday = (4 + n) mod 7, tm_yday = yd\<rparr>)"
    and "- (2 ^ 60) \<le> n" "n + 1 \<le> 2 ^ 60" "0 \<le> r" "r < 86400"
proof -
  have e: "totalsecs + offset = 86400 * n + r" and r: "0 \<le> r" "r < 86400" by (simp_all add: n_def r_def)
  have p: "(2 :: int) ^ 63 = 9223372036854775808" "(2 :: int) ^ 60 = 1152921504606846976" "(2 :: int) ^ 31 = 2147483648" by simp_all
  show n: "- (2 ^ 60) \<le> n" "n + 1 \<le> 2 ^ 60" using assms(1-3) e r unfolding in_s64_def p by linarith+
  show "0 \<le> r" "r < 86400" by (fact r)+
  have i: "in_s64 n" "in_s64 (4 + n)" using n unfolding in_s64_def p by linarith+
  have td: "totalsecs = 86400 * (totalsecs sdiv 86400) + totalsecs smod 86400"
    using sdiv_mult_smod_eq [of totalsecs 86400] by simp
  have "\<bar>totalsecs smod 86400\<bar> < 86400" by (simp add: signed_modulo_int_def abs_mult sgn_if)
  then have "in_s64 (totalsecs sdiv 86400)" using assms(1) td unfolding in_s64_def p by linarith
  then have "(case rem_up (totalsecs sdiv 86400) (totalsecs smod 86400 + offset) of (x, y) \<Rightarrow> rem_down x y) = (n, r)"
    using rem_loops [of "totalsecs sdiv 86400" "totalsecs smod 86400 + offset"] i(1)
    by (simp add: s64_id sdiv_smod_sum n_def r_def)
  then obtain x z where l: "rem_up (totalsecs sdiv 86400) (totalsecs smod 86400 + offset) = (x, z)" "rem_down x z = (n, r)"
    by (cases "rem_up (totalsecs sdiv 86400) (totalsecs smod 86400 + offset)") simp
  have m: "0 \<le> r mod 3600" "r mod 3600 < 3600" by simp_all
  have d: "r sdiv 3600 = r div 3600" "r smod 3600 = r mod 3600" "(r mod 3600) sdiv 60 = r mod 3600 div 60"
    "(r mod 3600) smod 60 = r mod 3600 mod 60" using sdiv_nonneg [of r 3600] sdiv_nonneg [of "r mod 3600" 60] r m by simp_all
  have w: "s32 (r div 3600) = r div 3600" "s32 (r mod 3600 div 60) = r mod 3600 div 60" "s32 (r mod 3600 mod 60) = r mod 3600 mod 60"
    using small_div [OF r, of 3600] small_div [of "r mod 3600" 60] small_mod [of 60 "r mod 3600"] m by simp_all
  obtain y mo md yd where g: "days_to_date n = (y, mo, md, yd)" by (cases "days_to_date n") auto
  show "time64_to_tm totalsecs offset = (case days_to_date n of (y, mo, md, yd) \<Rightarrow>
      \<lparr>tm_sec = r mod 3600 mod 60, tm_min = r mod 3600 div 60, tm_hour = r div 3600, tm_mday = md, tm_mon = mo,
       tm_year = y, tm_wday = (4 + n) mod 7, tm_yday = yd\<rparr>)"
    unfolding time64_to_tm_def secs_per_day Let_def l prod.case d w g s64_id [OF i(2)] smod7 by (rule refl)
qed

lemma gregorian_valid:
  assumes "0 \<le> d" "d < 365 + of_bool (is_leap (y + 1))"
  shows "valid_date (gregorian y d)"
proof -
  have "d \<le> 365" using assms(2) by (cases "is_leap (y + 1)") simp_all
  then show ?thesis using assms(2)
    by (rule_tac month_cases [OF assms(1)]) (simp_all add: gregorian_def march_rows last_day_of_month_def)
qed

lemma tm_date_spec:
  assumes "in_s64 totalsecs" "- (2 ^ 31) \<le> offset" "offset < 2 ^ 31"
  obtains y d where "day_in_year ((totalsecs + offset) div 86400 + 719468) y d"
    "tm_date (time64_to_tm totalsecs offset) = gregorian y d"
proof -
  note st = time64_to_tm_spec [OF assms]
  obtain y d where d: "day_in_year ((totalsecs + offset) div 86400 + 719468) y d"
    "days_to_date ((totalsecs + offset) div 86400) = (case gregorian y d of (ye, mo, md, yd) \<Rightarrow> (ye - 1900, mo - 1, md, yd))"
    by (rule days_to_date_spec [OF st(2)]) (use st(3) in simp_all)
  have "tm_date (time64_to_tm totalsecs offset) = gregorian y d"
    by (cases "gregorian y d") (simp add: st(1) d(2) tm_date_def)
  then show ?thesis using that d(1) by blast
qed

lemma tm_date_is:
  assumes "in_s64 totalsecs" "- (2 ^ 31) \<le> offset" "offset < 2 ^ 31" "day_in_year ((totalsecs + offset) div 86400 + 719468) y d"
  shows "tm_date (time64_to_tm totalsecs offset) = gregorian y d"
  by (rule tm_date_spec [OF assms(1-3)]) (use day_in_year_unique [OF assms(4)] in blast)

lemma tm_date_next:
  assumes "in_s64 totalsecs" "in_s64 (totalsecs + 86400)" "- (2 ^ 31) \<le> offset" "offset < 2 ^ 31"
  shows "tm_date (time64_to_tm (totalsecs + 86400) offset) = advance_date (tm_date (time64_to_tm totalsecs offset))"
proof -
  let ?n = "(totalsecs + offset) div 86400 + 719468"
  have "totalsecs + 86400 + offset = (totalsecs + offset) + 86400" by simp
  then have e: "(totalsecs + 86400 + offset) div 86400 + 719468 = ?n + 1" by simp
  obtain y d where a: "day_in_year ?n y d" "tm_date (time64_to_tm totalsecs offset) = gregorian y d"
    by (rule tm_date_spec [OF assms(1,3,4)])
  obtain y' d' where b: "day_in_year (?n + 1) y' d'" "tm_date (time64_to_tm (totalsecs + 86400) offset) = gregorian y' d'"
    unfolding e [symmetric] by (rule tm_date_spec [OF assms(2-4)])
  show ?thesis using gregorian_succ [OF a(1) b(1)] a(2) b(2) by simp
qed

lemma epoch: "day_in_year 719468 1969 306"
  by (simp add: day_in_year_def year_start_def)

lemma epoch_date: "gregorian 1969 306 = (1970, 1, 1, 0)"
  by (simp add: gregorian_def march_rows)

lemma tm_clock:
  assumes "in_s64 totalsecs" "- (2 ^ 31) \<le> offset" "offset < 2 ^ 31"
  shows "tm_wday (time64_to_tm totalsecs offset) = (4 + (totalsecs + offset) div 86400) mod 7 \<and>
    tm_hour (time64_to_tm totalsecs offset) * 3600 + tm_min (time64_to_tm totalsecs offset) * 60 +
      tm_sec (time64_to_tm totalsecs offset) = (totalsecs + offset) mod 86400 \<and>
    tm_hour (time64_to_tm totalsecs offset) \<in> {0..23} \<and> tm_min (time64_to_tm totalsecs offset) \<in> {0..59} \<and>
    tm_sec (time64_to_tm totalsecs offset) \<in> {0..59}"
proof -
  note st = time64_to_tm_spec [OF assms]
  define r where "r = (totalsecs + offset) mod 86400"
  obtain h a where h: "r = 3600 * h + a" "0 \<le> a" "a < 3600" "r div 3600 = h" "r mod 3600 = a" by (rule int_divmod [of 3600 r]) simp_all
  obtain m b where m: "a = 60 * m + b" "0 \<le> b" "b < 60" "a div 60 = m" "a mod 60 = b" by (rule int_divmod [of 60 a]) simp_all
  have r: "0 \<le> r" "r < 86400" by (simp_all add: r_def)
  have "h * 3600 + m * 60 + b = r" "0 \<le> h" "h \<le> 23" "0 \<le> m" "m \<le> 59" using h m r by linarith+
  moreover have "tm_wday (time64_to_tm totalsecs offset) = (4 + (totalsecs + offset) div 86400) mod 7"
    "tm_hour (time64_to_tm totalsecs offset) = h" "tm_min (time64_to_tm totalsecs offset) = m" "tm_sec (time64_to_tm totalsecs offset) = b"
    using st(1) unfolding r_def [symmetric] by (cases "days_to_date ((totalsecs + offset) div 86400)"; simp add: h(4,5) m(4,5))+
  ultimately show ?thesis using m(2,3) unfolding r_def by (intro conjI) simp_all
qed

section \<open>Properties\<close>

text \<open>C30: the conversion of a time to a date is right for every 64-bit number of seconds and every 32-bit offset:
  the first day is 1970-01-01, a day later the date is the one that the reference calendar advances
  to, every date is one that exists in the Gregorian calendar, the weekday counts from a Thursday,
  and hour, minute and second are those of the rest of the day.\<close>

theorem time64_to_tm_calendar:
  assumes "- (2 ^ 63) \<le> totalsecs" "totalsecs < 2 ^ 63" "- (2 ^ 31) \<le> offset" "offset < 2 ^ 31"
  shows "let r = time64_to_tm totalsecs offset; n = (totalsecs + offset) div 86400 in
    (n = 0 \<longrightarrow> tm_date r = (1970, 1, 1, 0)) \<and>
    (totalsecs + 86400 < 2 ^ 63 \<longrightarrow> tm_date (time64_to_tm (totalsecs + 86400) offset) = advance_date (tm_date r)) \<and>
    valid_date (tm_date r) \<and> tm_wday r = (4 + n) mod 7 \<and>
    tm_hour r * 3600 + tm_min r * 60 + tm_sec r = (totalsecs + offset) mod 86400 \<and>
    tm_hour r \<in> {0..23} \<and> tm_min r \<in> {0..59} \<and> tm_sec r \<in> {0..59}"
proof -
  have i: "in_s64 totalsecs" using assms by (simp add: in_s64_def)
  have first: "(totalsecs + offset) div 86400 = 0 \<longrightarrow> tm_date (time64_to_tm totalsecs offset) = (1970, 1, 1, 0)"
    using tm_date_is [OF i assms(3,4)] epoch epoch_date by simp
  have nxt: "totalsecs + 86400 < 2 ^ 63 \<longrightarrow>
      tm_date (time64_to_tm (totalsecs + 86400) offset) = advance_date (tm_date (time64_to_tm totalsecs offset))"
    using tm_date_next [OF i _ assms(3,4)] assms(1) by (simp add: in_s64_def)
  obtain y d where d: "day_in_year ((totalsecs + offset) div 86400 + 719468) y d" "tm_date (time64_to_tm totalsecs offset) = gregorian y d"
    by (rule tm_date_spec [OF i assms(3,4)])
  then have v: "valid_date (tm_date (time64_to_tm totalsecs offset))"
    using gregorian_valid [of d y] day_in_year_bound by (simp add: day_in_year_def)
  show ?thesis unfolding Let_def using first nxt v tm_clock [OF i assms(3,4)] by blast
qed

theorem time64_to_tm_calendar_witness:
  "tm_date (time64_to_tm 0 0) = (1970, 1, 1, 0) \<and> tm_date (time64_to_tm 86400 0) = (1970, 1, 2, 1) \<and> tm_wday (time64_to_tm 0 0) = 4"
  using time64_to_tm_calendar [of 0 0] by (simp add: Let_def last_day_of_month_def)

lemma test_rounds_ok:
  assumes "in_s64 secs" "in_s64 (secs + 86400 * int n)" "d = tm_date (time64_to_tm secs 0)"
  shows "test_rounds n secs d"
  using assms
proof (induction n arbitrary: secs d)
  case (Suc n)
  obtain year month mdday yday where d: "d = (year, month, mdday, yday)" by (cases d) auto
  have i: "in_s64 (secs + 86400)" using Suc.prems(1,2) by (simp add: in_s64_def)
  have "advance_date d = tm_date (time64_to_tm (secs + 86400) 0)"
    using tm_date_next [OF Suc.prems(1) i, of 0] Suc.prems(3) by simp
  then have "test_rounds n (secs + 86400) (advance_date d)"
    using Suc.IH [OF i] Suc.prems(2) by (simp add: algebra_simps)
  then show ?case using Suc.prems(3) unfolding d by (simp add: tm_date_def)
qed simp

text \<open>C32: the test of the conversion in time_test.c, which compares it day by day with the reference calendar over
  160000 years, succeeds.\<close>

theorem time_test_succeeds: "time64_to_tm_test_date_range"
proof -
  have t: "total_secs = 2524556160000" by (simp add: total_secs_def)
  have "day_in_year (719468 + 146097 * (- 200)) (1969 + 400 * (- 200)) 306" unfolding day_in_year_shift by (rule epoch)
  then have "tm_date (time64_to_tm (- total_secs) 0) = gregorian (1969 - 80000) 306"
    using tm_date_is [of "- total_secs" 0 "1969 - 80000" 306] by (simp add: t in_s64_def)
  also have "\<dots> = (1970 - 80000, 1, 1, 0)" by (simp add: gregorian_def march_rows)
  finally show ?thesis unfolding time64_to_tm_test_date_range_def
    by (intro test_rounds_ok) (simp_all add: t in_s64_def)
qed

lemma mktime64_march:
  assumes "0 \<le> y" "y < 11767034" "0 \<le> d" "d \<le> 365" "gregorian y d = (year, mon, mday, yday)"
    "0 \<le> h" "h \<le> 23" "0 \<le> mi" "mi \<le> 59" "0 \<le> sec" "sec \<le> 59"
  shows "mktime64 year mon mday h mi sec = (year_start y + d - 719468) * 86400 + h * 3600 + mi * 60 + sec"
proof -
  define mm where "mm = march_month d - 1"
  have b: "1 \<le> mm" "mm \<le> 12" "306 \<le> d \<longleftrightarrow> 11 \<le> mm" "0 \<le> march_day d" "march_day d < 31"
    "367 * mm div 12 + march_day d - 30 = d"
    using march_bounds [OF assms(3,4)] unfolding mm_def by auto
  have md: "mday = march_day d + 1" using assms(5) by (simp add: gregorian_def split: if_splits)
  have adj: "(if 0 \<ge> s32 (u32_of (mon - 2)) then (u32_of (u32_of (mon - 2) + 12), u32_of (year - 1)) else (u32_of (mon - 2), year)) = (mm, y)"
  proof (cases "306 \<le> d")
    case True
    then have "year = y + 1" "mon = mm - 10" using assms(5) by (simp_all add: gregorian_def mm_def)
    moreover have "mm = 11 \<or> mm = 12" using True b by linarith
    ultimately show ?thesis using assms(1,2) by (auto simp: u32_of_def s32_def)
  next
    case False
    then have "year = y" "mon = mm + 2" using assms(5) by (simp_all add: gregorian_def mm_def)
    then show ?thesis using b by (simp add: u32_id s32_id)
  qed
  have q: "y div 100 \<le> y div 4" "0 \<le> y div 400" "y div 4 \<le> y" "y div 400 \<le> y" "0 \<le> y div 100"
    using assms(1) zdiv_mono2 [of y 4 100] zdiv_mono2 [of y 1 4] zdiv_mono2 [of y 1 400] by (simp_all add: pos_imp_zdiv_nonneg_iff)
  have m367: "u32_of (367 * mm) = 367 * mm" using b by (simp add: u32_id)
  define e where "e = y div 4 - y div 100 + y div 400 + 367 * mm div 12 + mday"
  have e: "e = year_start y - 365 * y + d + 31" using b(6) md by (simp add: e_def year_start_def)
  have eb: "0 \<le> e" "e < 30000000" using q assms(2) b md assms(3,4) unfolding e_def by linarith+
  have "u32_of e = e" using eb by (simp add: u32_id)
  moreover have "u32_of (y * 365) = y * 365" using assms(1,2) by (simp add: u32_id)
  moreover have "s64 (e + y * 365 - 719499) = year_start y + d - 719468"
    using e eb assms(1,2) by (subst s64_id) (simp_all add: in_s64_def)
  moreover have n: "- (2 ^ 40) \<le> year_start y + d - 719468" "year_start y + d - 719468 < 2 ^ 40"
    using e eb assms(1-3) by simp_all
  ultimately show ?thesis using assms(6-11) unfolding mktime64_def Let_def adj prod.case m367 e_def [symmetric]
    by (simp add: s64_id in_s64_def algebra_simps)
qed

text \<open>C31: from the first of March of year 0 until the last of February of the year 11767034, converting a time to
  a date and the date back with mktime64 gives the time.\<close>

theorem mktime64_inverts_time64_to_tm:
  assumes "- 62162035200 \<le> t" "t < 371269565020800"
  shows "let r = time64_to_tm t 0 in
    mktime64 (tm_year r + 1900) (tm_mon r + 1) (tm_mday r) (tm_hour r) (tm_min r) (tm_sec r) = t"
proof -
  have i: "in_s64 t" using assms by (simp add: in_s64_def)
  let ?n = "t div 86400 + 719468"
  obtain y d where d: "day_in_year ?n y d" "tm_date (time64_to_tm t 0) = gregorian y d"
    using tm_date_spec [OF i, of 0] by auto
  obtain n r where nr: "t = 86400 * n + r" "0 \<le> r" "r < 86400" "t div 86400 = n" by (rule int_divmod [of 86400 t]) simp_all
  have ys: "year_start 11767034 = 4297820915" "year_start 0 = 0" by (simp_all add: year_start_def)
  have n: "0 \<le> ?n" "?n < 4297820915" using assms nr by linarith+
  have y: "0 \<le> y" "y < 11767034"
  proof -
    have "\<not> y + 1 \<le> 0" "\<not> 11767034 \<le> y"
      using year_start_mono [of "y + 1" 0] year_start_mono [of 11767034 y] d(1) n ys by (auto simp: day_in_year_def)
    then show "0 \<le> y" "y < 11767034" by linarith+
  qed
  have "0 \<le> d" "d < 365 + of_bool (is_leap (y + 1))" using d(1) day_in_year_bound [OF d(1)] by (simp_all add: day_in_year_def)
  then have dd: "0 \<le> d" "d \<le> 365" by (cases "is_leap (y + 1)"; simp)+
  have g: "gregorian y d = (tm_year (time64_to_tm t 0) + 1900, tm_mon (time64_to_tm t 0) + 1, tm_mday (time64_to_tm t 0), tm_yday (time64_to_tm t 0))"
    using d(2) by (simp add: tm_date_def)
  show ?thesis unfolding Let_def using mktime64_march [OF y dd g] tm_clock [OF i, of 0] d(1) nr
    by (simp add: day_in_year_def)
qed

theorem mktime64_inverts_time64_to_tm_witness:
  "(let r = time64_to_tm 951782399 0 in
    mktime64 (tm_year r + 1900) (tm_mon r + 1) (tm_mday r) (tm_hour r) (tm_min r) (tm_sec r)) = 951782399"
  using mktime64_inverts_time64_to_tm [of 951782399] by (simp add: Let_def)

text \<open>From then on the product of the year and 365 no longer fits in 32 bits.\<close>

lemma mktime64_wraps: "mktime64 11767034 3 1 0 0 0 = 184390646400"
  by code_simp

end
