(* ===== verification/Timekeeping.thy ===== *)
theory Timekeeping
  imports Timespec "HOL-Library.Signed_Division"
begin

text \<open>
  The two time calls of Practica1 (kernel/get_current_time.c, kernel/get_system_uptime.c) over the
  timekeeper that they read (kernel/time/timekeeping.c): the part of its state behind the wall clock
  and the time since boot, the calls that set the wall clock, and the account of time spent asleep. The counter of the clock source at
  the time of a call is an argument. Left out are NTP and leap seconds, the copies for user space and for
  interrupt context, the warning about an inconsistent offset and the notification of timers.
\<close>

section \<open>State\<close>

record tk_read_base =
  tk_mask :: int
  cycle_last :: int
  mult :: int
  shift :: nat
  xtime_nsec :: int
  base :: int
  base_real :: int

record timekeeper =
  tkr_mono :: tk_read_base
  tkr_raw :: tk_read_base
  xtime_sec :: int
  ktime_sec :: int
  wall_to_monotonic :: timespec64
  offs_real :: int
  offs_boot :: int
  offs_tai :: int
  tai_offset :: int
  clock_was_set_seq :: int
  raw_sec :: int
  monotonic_to_boot :: timespec64

section \<open>Reading\<close>

definition ktime_get_real_seconds :: "timekeeper \<Rightarrow> int" where
  "ktime_get_real_seconds tk = s64 (xtime_sec tk)"

definition ktime_get_coarse_boottime :: "timekeeper \<Rightarrow> int" where
  "ktime_get_coarse_boottime tk =
     s64 (s64 (base (tkr_mono tk) + offs_boot tk) + xtime_nsec (tkr_mono tk) div 2 ^ shift (tkr_mono tk))"

definition ktime_divns :: "int \<Rightarrow> int \<Rightarrow> int" where "ktime_divns kt d = kt sdiv d"

definition ktime_get_boottime_seconds :: "timekeeper \<Rightarrow> int" where
  "ktime_get_boottime_seconds tk = ktime_divns (ktime_get_coarse_boottime tk) NSEC_PER_SEC"

text \<open>The value goes through an unsigned long and is returned as a long.\<close>

definition get_current_time :: "timekeeper \<Rightarrow> int" where
  "get_current_time tk = (let epoch_time = u64_of (ktime_get_real_seconds tk) in s64 epoch_time)"

definition get_system_uptime :: "timekeeper \<Rightarrow> int" where
  "get_system_uptime tk = (let uptime = u64_of (ktime_get_boottime_seconds tk) in s64 uptime)"

section \<open>Updating\<close>

text \<open>The loops of \<open>tk_normalize_xtime\<close>: None when a second is zero shifted nanoseconds, where they do
  not end.\<close>

function norm_secs :: "int \<Rightarrow> int \<Rightarrow> int \<Rightarrow> (int \<times> int) option" where
  "norm_secs step ns sec =
     (if ns \<ge> step then if step \<le> 0 then None else norm_secs step (ns - step) (u64_of (sec + 1))
      else Some (ns, sec))"
  by pat_completeness auto
termination by (relation "measure (\<lambda>(step, ns, sec). nat ns)") auto

declare norm_secs.simps [simp del]

definition shifted_second :: "tk_read_base \<Rightarrow> int" where
  "shifted_second r = u64_of (NSEC_PER_SEC * 2 ^ shift r)"

definition tk_normalize_xtime :: "timekeeper \<Rightarrow> timekeeper option" where
  "tk_normalize_xtime tk =
     (case norm_secs (shifted_second (tkr_mono tk)) (xtime_nsec (tkr_mono tk)) (xtime_sec tk) of None \<Rightarrow> None
      | Some (ns, sec) \<Rightarrow>
          (case norm_secs (shifted_second (tkr_raw tk)) (xtime_nsec (tkr_raw tk)) (raw_sec tk) of None \<Rightarrow> None
           | Some (rns, rsec) \<Rightarrow>
               Some (tk\<lparr>tkr_mono := (tkr_mono tk)\<lparr>xtime_nsec := ns\<rparr>, xtime_sec := sec,
                        tkr_raw := (tkr_raw tk)\<lparr>xtime_nsec := rns\<rparr>, raw_sec := rsec\<rparr>)))"

definition tk_xtime :: "timekeeper \<Rightarrow> timespec64" where
  "tk_xtime tk = \<lparr>tv_sec = s64 (xtime_sec tk), tv_nsec = s64 (xtime_nsec (tkr_mono tk) div 2 ^ shift (tkr_mono tk))\<rparr>"

definition tk_set_xtime :: "timespec64 \<Rightarrow> timekeeper \<Rightarrow> timekeeper" where
  "tk_set_xtime ts tk =
     tk\<lparr>xtime_sec := u64_of (tv_sec ts),
        tkr_mono := (tkr_mono tk)\<lparr>xtime_nsec := u64_of (u64_of (tv_nsec ts) * 2 ^ shift (tkr_mono tk))\<rparr>\<rparr>"

definition tk_xtime_add :: "timespec64 \<Rightarrow> timekeeper \<Rightarrow> timekeeper option" where
  "tk_xtime_add ts tk =
     tk_normalize_xtime (tk\<lparr>xtime_sec := u64_of (xtime_sec tk + tv_sec ts),
        tkr_mono := (tkr_mono tk)\<lparr>xtime_nsec :=
          u64_of (xtime_nsec (tkr_mono tk) + u64_of (u64_of (tv_nsec ts) * 2 ^ shift (tkr_mono tk)))\<rparr>\<rparr>)"

definition ktime_set :: "int \<Rightarrow> int \<Rightarrow> int" where
  "ktime_set secs nsecs = (if secs \<ge> KTIME_SEC_MAX then KTIME_MAX else s64 (s64 (secs * NSEC_PER_SEC) + nsecs))"

definition tk_set_wall_to_mono :: "timespec64 \<Rightarrow> timekeeper \<Rightarrow> timekeeper" where
  "tk_set_wall_to_mono wtm tk =
     (let tmp = set_normalized_timespec64 (s64 (- tv_sec wtm)) (- tv_nsec wtm);
          real = ktime_set (tv_sec tmp) (tv_nsec tmp)
      in tk\<lparr>wall_to_monotonic := wtm, offs_real := real, offs_tai := s64 (real + ktime_set (tai_offset tk) 0)\<rparr>)"

definition tk_update_ktime_data :: "timekeeper \<Rightarrow> timekeeper" where
  "tk_update_ktime_data tk =
     (let seconds = u64_of (xtime_sec tk + tv_sec (wall_to_monotonic tk));
          nsec = tv_nsec (wall_to_monotonic tk) mod 2 ^ 32;
          nsec' = (nsec + (xtime_nsec (tkr_mono tk) div 2 ^ shift (tkr_mono tk)) mod 2 ^ 32) mod 2 ^ 32
      in tk\<lparr>tkr_mono := (tkr_mono tk)\<lparr>base := s64 (u64_of (u64_of (seconds * NSEC_PER_SEC) + nsec))\<rparr>,
            ktime_sec := (if nsec' \<ge> NSEC_PER_SEC then u64_of (seconds + 1) else seconds),
            tkr_raw := (tkr_raw tk)\<lparr>base := s64 (u64_of (raw_sec tk * NSEC_PER_SEC))\<rparr>\<rparr>)"

text \<open>With the flag TK_CLOCK_WAS_SET, which both setters pass.\<close>

definition timekeeping_update :: "timekeeper \<Rightarrow> timekeeper" where
  "timekeeping_update tk =
     (let tk = tk_update_ktime_data tk in
      tk\<lparr>tkr_mono := (tkr_mono tk)\<lparr>base_real := s64 (base (tkr_mono tk) + offs_real tk)\<rparr>,
         clock_was_set_seq := (clock_was_set_seq tk + 1) mod 2 ^ 32\<rparr>)"

definition clocksource_delta :: "int \<Rightarrow> int \<Rightarrow> int \<Rightarrow> int" where
  "clocksource_delta now prev m =
     (let ret = u64_of (now - prev) AND m in if ret AND u64_of (NOT (m div 2)) \<noteq> 0 then 0 else ret)"

definition timekeeping_forward_now :: "int \<Rightarrow> timekeeper \<Rightarrow> timekeeper option" where
  "timekeeping_forward_now cycle_now tk =
     (let delta = clocksource_delta cycle_now (cycle_last (tkr_mono tk)) (tk_mask (tkr_mono tk)) in
      tk_normalize_xtime
        (tk\<lparr>tkr_mono := (tkr_mono tk)\<lparr>cycle_last := cycle_now,
              xtime_nsec := u64_of (xtime_nsec (tkr_mono tk) + u64_of (delta * mult (tkr_mono tk)))\<rparr>,
            tkr_raw := (tkr_raw tk)\<lparr>cycle_last := cycle_now,
              xtime_nsec := u64_of (xtime_nsec (tkr_raw tk) + u64_of (delta * mult (tkr_raw tk)))\<rparr>\<rparr>))"

definition do_settimeofday64 :: "int \<Rightarrow> timespec64 \<Rightarrow> timekeeper \<Rightarrow> (int \<times> timekeeper) option" where
  "do_settimeofday64 cycle_now ts tk =
     (if \<not> timespec64_valid_settod ts then Some (- EINVAL, tk)
      else (case timekeeping_forward_now cycle_now tk of None \<Rightarrow> None
            | Some tk \<Rightarrow>
                (let xt = tk_xtime tk; ts_delta = timespec64_sub ts xt in
                 if timespec64_compare (wall_to_monotonic tk) ts_delta > 0 then Some (- EINVAL, timekeeping_update tk)
                 else Some (0, timekeeping_update (tk_set_xtime ts
                        (tk_set_wall_to_mono (timespec64_sub (wall_to_monotonic tk) ts_delta) tk))))))"

definition timekeeping_inject_offset :: "int \<Rightarrow> timespec64 \<Rightarrow> timekeeper \<Rightarrow> (int \<times> timekeeper) option" where
  "timekeeping_inject_offset cycle_now ts tk =
     (if tv_nsec ts < 0 \<or> tv_nsec ts \<ge> NSEC_PER_SEC then Some (- EINVAL, tk)
      else (case timekeeping_forward_now cycle_now tk of None \<Rightarrow> None
            | Some tk \<Rightarrow>
                (let tmp = timespec64_add (tk_xtime tk) ts in
                 if timespec64_compare (wall_to_monotonic tk) ts > 0 \<or> \<not> timespec64_valid_settod tmp
                 then Some (- EINVAL, timekeeping_update tk)
                 else map_option (\<lambda>tk'. (0, timekeeping_update (tk_set_wall_to_mono (timespec64_sub (wall_to_monotonic tk) ts) tk')))
                        (tk_xtime_add ts tk))))"

text \<open>Time spent asleep.\<close>

definition tk_update_sleep_time :: "int \<Rightarrow> timekeeper \<Rightarrow> timekeeper" where
  "tk_update_sleep_time delta tk =
     (let boot = s64 (offs_boot tk + delta) in tk\<lparr>offs_boot := boot, monotonic_to_boot := ns_to_timespec64 boot\<rparr>)"

definition inject_sleeptime :: "timespec64 \<Rightarrow> timekeeper \<Rightarrow> timekeeper option" where
  "inject_sleeptime delta tk =
     (if \<not> timespec64_valid_strict delta then Some tk
      else map_option (\<lambda>tk. tk_update_sleep_time (ktime_set (tv_sec delta) (tv_nsec delta))
              (tk_set_wall_to_mono (timespec64_sub (wall_to_monotonic tk) delta) tk)) (tk_xtime_add delta tk))"

definition timekeeping_inject_sleeptime64 :: "int \<Rightarrow> timespec64 \<Rightarrow> timekeeper \<Rightarrow> timekeeper option" where
  "timekeeping_inject_sleeptime64 cycle_now delta tk =
     (case timekeeping_forward_now cycle_now tk of None \<Rightarrow> None
      | Some tk \<Rightarrow> map_option timekeeping_update (inject_sleeptime delta tk))"

section \<open>Invariant\<close>

text \<open>The nanoseconds of the wall clock, whole ones only, and the time since boot without sleep.\<close>

definition wall_ns :: "timekeeper \<Rightarrow> int" where
  "wall_ns tk = xtime_sec tk * NSEC_PER_SEC + xtime_nsec (tkr_mono tk) div 2 ^ shift (tkr_mono tk)"

definition mono_ns :: "timekeeper \<Rightarrow> int" where
  "mono_ns tk = wall_ns tk + total_ns (wall_to_monotonic tk)"

definition tk_wf :: "timekeeper \<Rightarrow> bool" where
  "tk_wf tk \<longleftrightarrow> 0 \<le> xtime_sec tk \<and> xtime_sec tk < KTIME_SEC_MAX \<and> 0 \<le> xtime_nsec (tkr_mono tk) \<and>
     xtime_nsec (tkr_mono tk) < NSEC_PER_SEC * 2 ^ shift (tkr_mono tk) \<and> shift (tkr_mono tk) \<le> 32 \<and>
     normal (wall_to_monotonic tk) \<and> total_ns (wall_to_monotonic tk) \<le> 0 \<and> 0 \<le> mono_ns tk \<and>
     offs_real tk = - total_ns (wall_to_monotonic tk)"

lemma s64_cong: "x mod 2 ^ 64 = y mod 2 ^ 64 \<Longrightarrow> s64 x = s64 y"
  unfolding s64_def by (metis mod_add_left_eq)

lemma u64_mod: "u64_of x mod 2 ^ 64 = x mod 2 ^ 64"
  by (simp add: u64_of_def)

lemma s64_mod: "s64 x mod 2 ^ 64 = x mod 2 ^ 64"
  unfolding s64_def by (metis add_diff_cancel_right' mod_diff_left_eq)

lemma s64_u64_id: "in_s64 x \<Longrightarrow> s64 (u64_of x) = x"
  using s64_cong [OF u64_mod] s64_id by metis

text \<open>The time since boot that is read after an update.\<close>

lemma update_boottime:
  assumes "0 \<le> tv_nsec (wall_to_monotonic tk)" "tv_nsec (wall_to_monotonic tk) < 2 ^ 32"
  shows "ktime_get_coarse_boottime (timekeeping_update tk) = s64 (mono_ns tk + offs_boot tk)"
proof -
  let ?w = "wall_to_monotonic tk" and ?q = "xtime_nsec (tkr_mono tk) div 2 ^ shift (tkr_mono tk)"
  have n: "tv_nsec ?w mod 2 ^ 32 = tv_nsec ?w" using assms by simp
  let ?b = "s64 (u64_of (u64_of (u64_of (xtime_sec tk + tv_sec ?w) * NSEC_PER_SEC) + tv_nsec ?w))"
  have "?b mod 2 ^ 64 = ((xtime_sec tk + tv_sec ?w) * NSEC_PER_SEC + tv_nsec ?w) mod 2 ^ 64"
    unfolding s64_mod u64_mod by (simp add: u64_of_def mod_simps)
  then have "(s64 (?b + offs_boot tk) + ?q) mod 2 ^ 64 =
      ((xtime_sec tk + tv_sec ?w) * NSEC_PER_SEC + tv_nsec ?w + offs_boot tk + ?q) mod 2 ^ 64"
    using s64_mod [of "?b + offs_boot tk"] by (metis mod_add_left_eq)
  moreover have "(xtime_sec tk + tv_sec ?w) * NSEC_PER_SEC + tv_nsec ?w + offs_boot tk + ?q = mono_ns tk + offs_boot tk"
    by (simp add: mono_ns_def wall_ns_def total_ns_def algebra_simps)
  ultimately have "s64 (s64 (?b + offs_boot tk) + ?q) = s64 (mono_ns tk + offs_boot tk)" using s64_cong by metis
  then show ?thesis by (simp add: ktime_get_coarse_boottime_def timekeeping_update_def tk_update_ktime_data_def Let_def n [simplified])
qed

lemma div_below:
  fixes x :: int
  assumes "x < m * 2 ^ k"
  shows "x div 2 ^ k < m"
proof -
  have "0 \<le> x mod 2 ^ k" by simp
  then have "x div 2 ^ k * 2 ^ k \<le> x" using div_mult_mod_eq [of x "2 ^ k"] by linarith
  then have "x div 2 ^ k * 2 ^ k < m * 2 ^ k" using assms by linarith
  then show ?thesis by simp
qed

lemma wf_bounds:
  assumes "tk_wf tk"
  shows "normal (tk_xtime tk)" "total_ns (tk_xtime tk) = wall_ns tk" "0 \<le> wall_ns tk" "wall_ns tk < 9223372036000000000"
proof -
  let ?q = "xtime_nsec (tkr_mono tk) div 2 ^ shift (tkr_mono tk)"
  have w: "0 \<le> xtime_sec tk" "xtime_sec tk < 9223372036" "0 \<le> xtime_nsec (tkr_mono tk)"
    "xtime_nsec (tkr_mono tk) < NSEC_PER_SEC * 2 ^ shift (tkr_mono tk)"
    using assms by (simp_all add: tk_wf_def KTIME_SEC_MAX_def KTIME_MAX_def NSEC_PER_SEC_def)
  have q: "0 \<le> ?q" "?q < NSEC_PER_SEC" using w(3) div_below [OF w(4)] by (simp_all add: pos_imp_zdiv_nonneg_iff)
  have qi: "in_s64 ?q" using q by (simp add: in_s64_def NSEC_PER_SEC_def)
  have "in_s64 (xtime_sec tk)" using w(1,2) by (simp add: in_s64_def)
  then show "normal (tk_xtime tk)" "total_ns (tk_xtime tk) = wall_ns tk"
    using q s64_id [of "xtime_sec tk"] s64_id [of ?q] qi by (simp_all add: tk_xtime_def normal_def total_ns_def wall_ns_def)
  show "0 \<le> wall_ns tk" "wall_ns tk < 9223372036000000000"
    using q w(1,2) unfolding wall_ns_def NSEC_PER_SEC_def by linarith+
qed

text \<open>The difference of two normalized times whose nanoseconds fit in 64 bits is exact.\<close>

lemma sub_exact:
  assumes "normal x" "normal y" "in_s64 (total_ns x - total_ns y)"
  shows "normal (timespec64_sub x y)" "total_ns (timespec64_sub x y) = total_ns x - total_ns y"
  using exact_result [OF sec_in_s64 [OF assms(3)] add_spec(2) [OF assms(1,2)]] by simp_all

lemma negated_offset:
  assumes "normal w" "total_ns w \<le> 0" "- 9223372036000000000 < total_ns w"
  defines "tmp \<equiv> set_normalized_timespec64 (s64 (- tv_sec w)) (- tv_nsec w)"
  shows "ktime_set (tv_sec tmp) (tv_nsec tmp) = - total_ns w"
proof -
  let ?r = "- total_ns w"
  have N: "NSEC_PER_SEC \<noteq> 0" by (simp add: NSEC_PER_SEC_def)
  have e: "?r = - tv_nsec w + (- tv_sec w) * NSEC_PER_SEC" by (simp add: total_ns_def)
  have i: "in_s64 ?r" using assms(2,3) by (simp add: in_s64_def)
  have dm: "- tv_sec w + (- tv_nsec w) div NSEC_PER_SEC = ?r div NSEC_PER_SEC" "(- tv_nsec w) mod NSEC_PER_SEC = ?r mod NSEC_PER_SEC"
    unfolding e div_mult_self1 [OF N] mod_mult_self1 by simp_all
  have t: "tv_sec tmp = ?r div NSEC_PER_SEC" "tv_nsec tmp = ?r mod NSEC_PER_SEC"
    using s64_id [OF sec_in_s64 [OF i]] unfolding tmp_def set_normalized_spec dm by simp_all
  have "?r div NSEC_PER_SEC < 9223372036" using assms(3) ns_parts [of ?r] unfolding NSEC_PER_SEC_def by linarith
  then have "\<not> tv_sec tmp \<ge> KTIME_SEC_MAX" unfolding t by (simp add: KTIME_SEC_MAX_def KTIME_MAX_def NSEC_PER_SEC_def)
  then show ?thesis using s64_id [OF i] unfolding ktime_set_def t by (simp add: s64_add)
qed

section \<open>Setting the wall clock\<close>

lemma set_clock:
  assumes "tk_wf tk" "normal ts" "0 \<le> tv_sec ts" "tv_sec ts < KTIME_SEC_MAX" "total_ns (wall_to_monotonic tk) \<le> total_ns ts - wall_ns tk"
  defines "tk' \<equiv> tk_set_xtime ts (tk_set_wall_to_mono (timespec64_sub (wall_to_monotonic tk) (timespec64_sub ts (tk_xtime tk))) tk)"
  shows "tk_wf tk' \<and> tk_xtime tk' = ts \<and> xtime_sec tk' = tv_sec ts \<and> mono_ns tk' = mono_ns tk \<and> offs_boot tk' = offs_boot tk"
proof -
  let ?w = "wall_to_monotonic tk" and ?d = "timespec64_sub ts (tk_xtime tk)" and ?k = "shift (tkr_mono tk)"
  note b = wf_bounds [OF assms(1)]
  have wf: "normal ?w" "total_ns ?w \<le> 0" "0 \<le> wall_ns tk + total_ns ?w" "?k \<le> 32" using assms(1) by (simp_all add: tk_wf_def mono_ns_def)
  have km: "KTIME_SEC_MAX = 9223372036" by (simp add: KTIME_SEC_MAX_def KTIME_MAX_def NSEC_PER_SEC_def)
  have n: "0 \<le> tv_nsec ts" "tv_nsec ts < 1000000000" using assms(2) by (simp_all add: normal_def NSEC_PER_SEC_def)
  have T: "0 \<le> total_ns ts" "total_ns ts < 9223372036000000000"
    using assms(3,4) n unfolding total_ns_def NSEC_PER_SEC_def km by linarith+
  have p: "(2 :: int) ^ 63 = 9223372036854775808" "(2 :: int) ^ 64 = 18446744073709551616" by simp_all
  have d: "normal ?d" "total_ns ?d = total_ns ts - wall_ns tk"
    using sub_exact [OF assms(2) b(1)] T b(2-4) unfolding in_s64_def p by simp_all
  have w': "normal (timespec64_sub ?w ?d)" "total_ns (timespec64_sub ?w ?d) = total_ns ?w + wall_ns tk - total_ns ts"
    using sub_exact [OF wf(1) d(1)] d(2) T b(3,4) wf(2,3) assms(5) unfolding in_s64_def p by simp_all
  have neg: "- 9223372036000000000 < total_ns (timespec64_sub ?w ?d)" "total_ns (timespec64_sub ?w ?d) \<le> 0"
    using w'(2) T wf(3) assms(5) by linarith+
  have two: "(0 :: int) < 2 ^ ?k" "(2 :: int) ^ ?k \<le> 4294967296" using power_increasing [OF wf(4), of "2 :: int"] by simp_all
  have m: "0 \<le> tv_nsec ts * 2 ^ ?k" "tv_nsec ts * 2 ^ ?k \<le> 1000000000 * 4294967296"
    using n two mult_mono [of "tv_nsec ts" 1000000000 "2 ^ ?k" 4294967296] by simp_all
  have x: "xtime_sec tk' = tv_sec ts" "xtime_nsec (tkr_mono tk') = tv_nsec ts * 2 ^ ?k" "shift (tkr_mono tk') = ?k"
    "wall_to_monotonic tk' = timespec64_sub ?w ?d" "offs_boot tk' = offs_boot tk" "offs_real tk' = - total_ns (timespec64_sub ?w ?d)"
    using assms(3,4) n m negated_offset [OF w'(1) neg(2,1)] unfolding km
    by (simp_all add: tk'_def tk_set_xtime_def tk_set_wall_to_mono_def Let_def u64_of_def)
  have wall: "wall_ns tk' = total_ns ts" using two by (simp add: wall_ns_def x total_ns_def)
  have "in_s64 (tv_nsec ts)" "in_s64 (tv_sec ts)" using n assms(3,4) unfolding km by (simp_all add: in_s64_def)
  then have "tk_xtime tk' = ts" using two s64_id by (simp add: tk_xtime_def x normal_def)
  moreover have mono: "mono_ns tk' = mono_ns tk" using wall by (simp add: mono_ns_def x w'(2))
  moreover have "tv_nsec ts * 2 ^ ?k < NSEC_PER_SEC * 2 ^ ?k" using n two by (simp add: NSEC_PER_SEC_def)
  then have "tk_wf tk'" using assms(1,3,4) m(1) w'(1) neg mono wf(4) by (simp add: tk_wf_def x)
  ultimately show ?thesis using x by simp
qed

lemma update_simps:
  "xtime_sec (timekeeping_update tk) = xtime_sec tk" "mono_ns (timekeeping_update tk) = mono_ns tk"
  "wall_ns (timekeeping_update tk) = wall_ns tk" "tk_wf (timekeeping_update tk) = tk_wf tk" "get_current_time (timekeeping_update tk) = get_current_time tk"
  by (simp_all add: timekeeping_update_def tk_update_ktime_data_def Let_def mono_ns_def wall_ns_def tk_wf_def
      get_current_time_def ktime_get_real_seconds_def)

lemma uptime_kept:
  assumes "tk_wf tkf" "tk_wf tk1" "mono_ns tk1 = mono_ns tkf" "offs_boot tk1 = offs_boot tkf"
  shows "get_system_uptime (timekeeping_update tk1) = get_system_uptime (timekeeping_update tkf)"
  using assms update_boottime [of tk1] update_boottime [of tkf]
  by (simp add: tk_wf_def normal_def NSEC_PER_SEC_def get_system_uptime_def ktime_get_boottime_seconds_def)

lemma compare_pos:
  assumes "normal a" "normal b"
  shows "timespec64_compare a b > 0 \<longleftrightarrow> \<not> total_ns a \<le> total_ns b"
  using compare_sign [OF assms] by (metis (mono_tags, opaque_lifting) sgn_greater diff_gt_0_iff_gt linorder_not_le)

section \<open>Advancing to the current cycle\<close>

text \<open>The interval since the last update fits in the 64-bit accumulator and the clock stays before its limit.\<close>

definition tk_headroom :: "int \<Rightarrow> timekeeper \<Rightarrow> bool" where
  "tk_headroom cycle_now tk \<longleftrightarrow>
     (let r = tkr_mono tk; e = xtime_nsec r + clocksource_delta cycle_now (cycle_last r) (tk_mask r) * mult r in
      0 \<le> mult r \<and> e < 2 ^ 64 \<and> xtime_sec tk + e div (NSEC_PER_SEC * 2 ^ shift r) < KTIME_SEC_MAX \<and> shift (tkr_raw tk) \<le> 32)"

lemma norm_secs_exact:
  assumes "0 < step" "0 \<le> ns" "0 \<le> sec" "sec < 2 ^ 64"
  shows "norm_secs step ns sec = Some (ns mod step, u64_of (sec + ns div step))"
  using assms
proof (induction step ns sec rule: norm_secs.induct)
  case (1 step ns sec)
  show ?case
  proof (cases "step \<le> ns")
    case True
    have "(ns - step) mod step = ns mod step" by simp
    moreover have "(ns - step) div step = ns div step - 1" using 1(2) div_add_self2 [of step "ns - step"] by simp
    moreover have "u64_of (u64_of (sec + 1) + x) = u64_of (sec + 1 + x)" for x by (simp add: u64_of_def mod_simps)
    ultimately show ?thesis using 1 True norm_secs.simps [of step ns sec] by (simp add: u64_of_def)
  next
    case False
    then show ?thesis using 1 norm_secs.simps [of step ns sec] by (simp add: u64_of_def)
  qed
qed

lemma norm_secs_some: "0 < step \<Longrightarrow> \<exists>p. norm_secs step ns sec = Some p"
proof (induction step ns sec rule: norm_secs.induct)
  case (1 step ns sec)
  then show ?case using norm_secs.simps [of step ns sec] by (cases "step \<le> ns") simp_all
qed

lemma shifted_second_exact:
  assumes "shift r \<le> 32"
  shows "shifted_second r = NSEC_PER_SEC * 2 ^ shift r" "0 < shifted_second r"
proof -
  have "(0 :: int) < 2 ^ shift r" "(2 :: int) ^ shift r \<le> 4294967296" using power_increasing [OF assms, of "2 :: int"] by simp_all
  then show "shifted_second r = NSEC_PER_SEC * 2 ^ shift r" "0 < shifted_second r"
    by (simp_all add: shifted_second_def u64_of_def NSEC_PER_SEC_def)
qed

lemma seconds_and_rest:
  fixes e :: int
  assumes "0 < N"
  shows "e div (N * 2 ^ k) * N + e mod (N * 2 ^ k) div 2 ^ k = e div 2 ^ k"
proof -
  have "e = e mod (N * 2 ^ k) + e div (N * 2 ^ k) * N * 2 ^ k" using div_mult_mod_eq [of e "N * 2 ^ k"] by (simp add: mult.assoc)
  then have "e div 2 ^ k = (e mod (N * 2 ^ k) + e div (N * 2 ^ k) * N * 2 ^ k) div 2 ^ k" by (rule arg_cong)
  then show ?thesis by simp
qed

lemma clocksource_delta_nonneg: "0 \<le> clocksource_delta now prev m"
  by (simp add: clocksource_delta_def Let_def u64_of_def)

lemma forward_now:
  assumes "tk_wf tk" "tk_headroom cycle_now tk"
  shows "\<exists>tkf. timekeeping_forward_now cycle_now tk = Some tkf \<and> tk_wf tkf \<and> wall_ns tk \<le> wall_ns tkf \<and>
    wall_to_monotonic tkf = wall_to_monotonic tk \<and> offs_boot tkf = offs_boot tk \<and> shift (tkr_raw tkf) \<le> 32"
proof -
  let ?r = "tkr_mono tk" let ?k = "shift ?r" and ?S = "NSEC_PER_SEC * 2 ^ shift ?r"
  let ?dl = "clocksource_delta cycle_now (cycle_last ?r) (tk_mask ?r)"
  let ?e = "xtime_nsec ?r + ?dl * mult ?r"
  let ?raw = "tkr_raw tk" let ?f = "u64_of (xtime_nsec ?raw + u64_of (?dl * mult ?raw))"
  have h: "0 \<le> mult ?r" "?e < 2 ^ 64" "xtime_sec tk + ?e div ?S < KTIME_SEC_MAX" "shift ?raw \<le> 32"
    using assms(2) by (simp_all add: tk_headroom_def Let_def)
  have w: "0 \<le> xtime_sec tk" "0 \<le> xtime_nsec ?r" "?k \<le> 32" using assms(1) by (simp_all add: tk_wf_def)
  have km: "KTIME_SEC_MAX = 9223372036" by (simp add: KTIME_SEC_MAX_def KTIME_MAX_def NSEC_PER_SEC_def)
  have dl: "0 \<le> ?dl * mult ?r" using h(1) clocksource_delta_nonneg by simp
  then have e: "0 \<le> ?e" "xtime_nsec ?r \<le> ?e" using w(2) by simp_all
  have u: "u64_of (xtime_nsec ?r + u64_of (?dl * mult ?r)) = ?e" using dl h(2) e w(2) by (simp add: u64_of_def)
  have S: "0 < ?S" by (simp add: NSEC_PER_SEC_def)
  have q: "0 \<le> ?e div ?S" using e(1) S by (simp add: pos_imp_zdiv_nonneg_iff)
  have sec: "u64_of (xtime_sec tk + ?e div ?S) = xtime_sec tk + ?e div ?S" "xtime_sec tk < 2 ^ 64"
    using q w(1) h(3) unfolding km by (simp_all add: u64_of_def)
  have n1: "norm_secs ?S ?e (xtime_sec tk) = Some (?e mod ?S, xtime_sec tk + ?e div ?S)"
    using norm_secs_exact [OF S e(1) w(1) sec(2)] sec(1) by simp
  obtain rns rsec where n2: "norm_secs (shifted_second ?raw) ?f (raw_sec tk) = Some (rns, rsec)"
    using norm_secs_some [OF shifted_second_exact(2) [OF h(4)]] by (metis surj_pair)
  let ?tkf = "tk\<lparr>tkr_mono := ?r\<lparr>cycle_last := cycle_now, xtime_nsec := ?e mod ?S\<rparr>, xtime_sec := xtime_sec tk + ?e div ?S,
    tkr_raw := ?raw\<lparr>cycle_last := cycle_now, xtime_nsec := rns\<rparr>, raw_sec := rsec\<rparr>"
  have f: "timekeeping_forward_now cycle_now tk = Some ?tkf"
    using n1 n2 u shifted_second_exact(1) [of ?r] w(3)
    by (simp add: timekeeping_forward_now_def tk_normalize_xtime_def Let_def shifted_second_def)
  have "wall_ns ?tkf = xtime_sec tk * NSEC_PER_SEC + ?e div 2 ^ ?k"
    using seconds_and_rest [of NSEC_PER_SEC ?e ?k] by (simp add: wall_ns_def algebra_simps NSEC_PER_SEC_def)
  then have le: "wall_ns tk \<le> wall_ns ?tkf" using zdiv_mono1 [OF e(2), of "2 ^ ?k"] by (simp add: wall_ns_def)
  have "tk_wf ?tkf" using assms(1) le q h(3) S pos_mod_bound [OF S] by (simp add: tk_wf_def mono_ns_def)
  then show ?thesis using f le h(4) by (intro exI [of _ ?tkf]) simp
qed

text \<open>Setting the time on a timekeeper that was advanced to the current cycle.\<close>

lemma set_time_of_day:
  assumes "timekeeping_forward_now cycle_now tk = Some tkf" "tk_wf tkf" "in_s64 (tv_sec ts)" "in_s64 (tv_nsec ts)"
  shows "\<exists>r tk'. do_settimeofday64 cycle_now ts tk = Some (r, tk') \<and>
    (\<not> timespec64_valid_settod ts \<longrightarrow> r = - EINVAL \<and> tk' = tk) \<and>
    (timespec64_valid_settod ts \<longrightarrow>
      (r = 0 \<longleftrightarrow> mono_ns tkf \<le> total_ns ts) \<and> (r \<noteq> 0 \<longrightarrow> r = - EINVAL \<and> get_current_time tk' = get_current_time tkf) \<and>
      (r = 0 \<longrightarrow> get_current_time tk' = tv_sec ts) \<and>
      get_system_uptime tk' = get_system_uptime (timekeeping_update tkf) \<and>
      mono_ns tk' = mono_ns tkf \<and> tk_wf tk')"
proof (cases "timespec64_valid_settod ts")
  case False
  then show ?thesis by (simp add: do_settimeofday64_def)
next
  case True
  let ?w = "wall_to_monotonic tkf" and ?d = "timespec64_sub ts (tk_xtime tkf)"
  note b = wf_bounds [OF assms(2)]
  have v: "timespec64_valid ts" "u64_of (tv_sec ts) < TIME_SETTOD_SEC_MAX"
    using True by (simp_all add: timespec64_valid_settod_def split: if_splits)
  then have n: "normal ts" "0 \<le> tv_sec ts" using valid_iff [OF assms(3,4)] by simp_all
  then have sec: "tv_sec ts < KTIME_SEC_MAX"
    using v(2) assms(3) by (simp add: u64_of_def in_s64_def TIME_SETTOD_SEC_MAX_def TIME_UPTIME_SEC_MAX_def)
  have T: "0 \<le> total_ns ts" "total_ns ts < 9223372036000000000"
    using n sec unfolding total_ns_def normal_def NSEC_PER_SEC_def by (simp_all add: KTIME_SEC_MAX_def KTIME_MAX_def NSEC_PER_SEC_def)
  have d: "normal ?d" "total_ns ?d = total_ns ts - wall_ns tkf"
    using sub_exact [OF n(1) b(1)] T b(2-4) by (simp_all add: in_s64_def)
  have w: "normal ?w" using assms(2) by (simp add: tk_wf_def)
  have c: "timespec64_compare ?w ?d > 0 \<longleftrightarrow> \<not> mono_ns tkf \<le> total_ns ts"
    unfolding compare_pos [OF w d(1)] d(2) mono_ns_def by linarith
  show ?thesis
  proof (cases "mono_ns tkf \<le> total_ns ts")
    case False
    then have "do_settimeofday64 cycle_now ts tk = Some (- EINVAL, timekeeping_update tkf)"
      using True assms(1) c by (simp add: do_settimeofday64_def Let_def)
    then show ?thesis using True False assms(2) by (simp add: errno_defs update_simps)
  next
    case le: True
    let ?tk = "tk_set_xtime ts (tk_set_wall_to_mono (timespec64_sub ?w ?d) tkf)"
    have r: "do_settimeofday64 cycle_now ts tk = Some (0, timekeeping_update ?tk)"
      using True assms(1) c le by (simp add: do_settimeofday64_def Let_def)
    have s: "tk_wf ?tk \<and> tk_xtime ?tk = ts \<and> xtime_sec ?tk = tv_sec ts \<and> mono_ns ?tk = mono_ns tkf \<and> offs_boot ?tk = offs_boot tkf"
      using set_clock [OF assms(2) n sec] le by (simp add: mono_ns_def)
    then have "get_current_time (timekeeping_update ?tk) = tv_sec ts" using s64_id [OF assms(3)] s64_u64_id [OF assms(3)]
      by (simp add: get_current_time_def ktime_get_real_seconds_def update_simps)
    then show ?thesis using r s uptime_kept [OF assms(2), of ?tk] le True by (simp add: update_simps)
  qed
qed

section \<open>Shifting the wall clock\<close>

text \<open>The sum that is checked is valid exactly when no second of it leaves the range, wrap-around included.\<close>

lemma shifted_time_valid:
  assumes "tk_wf tk" "normal ts" "0 \<le> wall_ns tk + total_ns ts"
  shows "timespec64_valid_settod (timespec64_add (tk_xtime tk) ts) \<longleftrightarrow> wall_ns tk + total_ns ts < TIME_SETTOD_SEC_MAX * NSEC_PER_SEC"
proof -
  note b = wf_bounds [OF assms(1)]
  let ?t = "wall_ns tk + total_ns ts" let ?q = "?t div NSEC_PER_SEC"
  have a: "timespec64_add (tk_xtime tk) ts = \<lparr>tv_sec = s64 ?q, tv_nsec = ?t mod NSEC_PER_SEC\<rparr>"
    using add_spec(1) [OF b(1) assms(2)] b(2) by simp
  have m: "TIME_SETTOD_SEC_MAX = 8277292036"
    by (simp add: TIME_SETTOD_SEC_MAX_def TIME_UPTIME_SEC_MAX_def KTIME_SEC_MAX_def KTIME_MAX_def NSEC_PER_SEC_def)
  have s: "tv_sec ts < 9223372036854775808" "tv_nsec ts < 1000000000" using assms(2) by (simp_all add: normal_def in_s64_def NSEC_PER_SEC_def)
  have q: "0 \<le> ?q" "?q < 9223372050000000000"
    using ns_parts [of ?t] assms(3) b(4) s unfolding total_ns_def NSEC_PER_SEC_def by linarith+
  have lt: "?q < 8277292036 \<longleftrightarrow> ?t < TIME_SETTOD_SEC_MAX * NSEC_PER_SEC"
    using ns_parts [of ?t] unfolding m NSEC_PER_SEC_def by linarith
  have n: "u64_of (?t mod NSEC_PER_SEC) = ?t mod NSEC_PER_SEC" using ns_parts(2,3) [of ?t] by (simp add: u64_of_def NSEC_PER_SEC_def)
  have v: "timespec64_valid_settod (timespec64_add (tk_xtime tk) ts) \<longleftrightarrow> 0 \<le> s64 ?q \<and> u64_of (s64 ?q) < 8277292036"
    using n ns_parts(3) [of ?t] unfolding a timespec64_valid_settod_def timespec64_valid_def m by auto
  show ?thesis
  proof (cases "?q < 9223372036854775808")
    case True
    then have "s64 ?q = ?q" using q(1) by (intro s64_id) (simp add: in_s64_def)
    moreover have "u64_of ?q = ?q" using q(1) True by (simp add: u64_of_def)
    ultimately show ?thesis unfolding v lt [symmetric] using q(1) by simp
  next
    case False
    have "(?q - 9223372036854775808) mod 18446744073709551616 = ?q - 9223372036854775808"
      using q(2) False by (intro mod_pos_pos_trivial) linarith+
    then have "(?q + 2 ^ 63) mod 2 ^ 64 = ?q - 9223372036854775808"
      using mod_add_self2 [of "?q - 9223372036854775808" 18446744073709551616] by (simp add: algebra_simps)
    then have "s64 ?q < 0" using q(2) unfolding s64_def by simp
    then show ?thesis unfolding v lt [symmetric] using False by simp
  qed
qed

lemma shift_xtime:
  assumes "tk_wf tk" "normal ts" "0 \<le> wall_ns tk + total_ns ts" "wall_ns tk + total_ns ts < TIME_SETTOD_SEC_MAX * NSEC_PER_SEC" "shift (tkr_raw tk) \<le> 32"
  shows "\<exists>tk'. tk_xtime_add ts tk = Some tk' \<and> wall_ns tk' = wall_ns tk + total_ns ts \<and> 0 \<le> xtime_sec tk' \<and> xtime_sec tk' < KTIME_SEC_MAX \<and>
    0 \<le> xtime_nsec (tkr_mono tk') \<and> xtime_nsec (tkr_mono tk') < NSEC_PER_SEC * 2 ^ shift (tkr_mono tk) \<and> shift (tkr_mono tk') = shift (tkr_mono tk) \<and>
    wall_to_monotonic tk' = wall_to_monotonic tk \<and> offs_boot tk' = offs_boot tk"
proof -
  let ?r = "tkr_mono tk" let ?k = "shift ?r" and ?S = "NSEC_PER_SEC * 2 ^ shift ?r"
  let ?n = "xtime_nsec ?r + tv_nsec ts * 2 ^ shift ?r" let ?s = "xtime_sec tk + tv_sec ts"
  have w: "0 \<le> xtime_nsec ?r" "xtime_nsec ?r < ?S" "?k \<le> 32" using assms(1) by (simp_all add: tk_wf_def)
  have t: "0 \<le> tv_nsec ts" "tv_nsec ts < 1000000000" using assms(2) by (simp_all add: normal_def NSEC_PER_SEC_def)
  have two: "(0 :: int) < 2 ^ ?k" "(2 :: int) ^ ?k \<le> 4294967296" using power_increasing [OF w(3), of "2 :: int"] by simp_all
  have m: "0 \<le> tv_nsec ts * 2 ^ ?k" "tv_nsec ts * 2 ^ ?k \<le> 1000000000 * 4294967296"
    using t two mult_mono [of "tv_nsec ts" 1000000000 "2 ^ ?k" 4294967296] by simp_all
  have S: "0 < ?S" "?S \<le> 1000000000 * 4294967296" using two by (simp_all add: NSEC_PER_SEC_def)
  have nn: "0 \<le> ?n" using w(1) m(1) by linarith
  have u: "u64_of (xtime_nsec ?r + u64_of (u64_of (tv_nsec ts) * 2 ^ ?k)) = ?n"
    using t m w(1,2) S(2) by (simp add: u64_of_def)
  have "(?s + ?n div ?S) * NSEC_PER_SEC + ?n mod ?S div 2 ^ ?k = ?s * NSEC_PER_SEC + ?n div 2 ^ ?k"
    using seconds_and_rest [of NSEC_PER_SEC ?n ?k] by (simp add: algebra_simps NSEC_PER_SEC_def)
  also have "?n div 2 ^ ?k = xtime_nsec ?r div 2 ^ ?k + tv_nsec ts" using two(1) by simp
  finally have e: "(?s + ?n div ?S) * NSEC_PER_SEC + ?n mod ?S div 2 ^ ?k = wall_ns tk + total_ns ts"
    by (simp add: wall_ns_def total_ns_def algebra_simps)
  have rest: "0 \<le> ?n mod ?S" "?n mod ?S < ?S" using S(1) by simp_all
  have rq: "0 \<le> ?n mod ?S div 2 ^ ?k" "?n mod ?S div 2 ^ ?k < NSEC_PER_SEC"
    using rest(1) div_below [OF rest(2)] two(1) by (simp_all add: pos_imp_zdiv_nonneg_iff)
  have x: "0 \<le> ?s + ?n div ?S" "?s + ?n div ?S < 9223372036"
    using e rq assms(3,4) unfolding NSEC_PER_SEC_def TIME_SETTOD_SEC_MAX_def TIME_UPTIME_SEC_MAX_def KTIME_SEC_MAX_def KTIME_MAX_def by simp_all
  have "u64_of (u64_of ?s + ?n div ?S) = ?s + ?n div ?S" using x mod_add_left_eq [of ?s "2 ^ 64" "?n div ?S"] by (simp add: u64_of_def)
  then have n1: "norm_secs ?S ?n (u64_of ?s) = Some (?n mod ?S, ?s + ?n div ?S)"
    using norm_secs_exact [OF S(1) nn, of "u64_of ?s"] by (simp add: u64_of_def)
  obtain rns rsec where n2: "norm_secs (shifted_second (tkr_raw tk)) (xtime_nsec (tkr_raw tk)) (raw_sec tk) = Some (rns, rsec)"
    using norm_secs_some [OF shifted_second_exact(2) [OF assms(5)]] by (metis surj_pair)
  let ?tk = "tk\<lparr>tkr_mono := ?r\<lparr>xtime_nsec := ?n mod ?S\<rparr>, xtime_sec := ?s + ?n div ?S, tkr_raw := (tkr_raw tk)\<lparr>xtime_nsec := rns\<rparr>, raw_sec := rsec\<rparr>"
  have "tk_xtime_add ts tk = Some ?tk" using n1 n2 u shifted_second_exact(1) [OF w(3)]
    by (simp add: tk_xtime_add_def tk_normalize_xtime_def shifted_second_def)
  moreover have "wall_ns ?tk = wall_ns tk + total_ns ts" using e by (simp add: wall_ns_def)
  ultimately show ?thesis using x rest by (intro exI [of _ ?tk]) (simp add: KTIME_SEC_MAX_def KTIME_MAX_def NSEC_PER_SEC_def)
qed

lemma shift_both:
  assumes "tk_wf tkf" "shift (tkr_raw tkf) \<le> 32" "normal ts" "total_ns (wall_to_monotonic tkf) \<le> total_ns ts"
    "wall_ns tkf + total_ns ts < TIME_SETTOD_SEC_MAX * NSEC_PER_SEC"
  defines "w' \<equiv> timespec64_sub (wall_to_monotonic tkf) ts"
  shows "\<exists>tk1. tk_xtime_add ts tkf = Some tk1 \<and> wall_to_monotonic tk1 = wall_to_monotonic tkf \<and> tk_wf (tk_set_wall_to_mono w' tk1) \<and>
    wall_ns (tk_set_wall_to_mono w' tk1) = wall_ns tkf + total_ns ts \<and> mono_ns (tk_set_wall_to_mono w' tk1) = mono_ns tkf \<and>
    offs_boot (tk_set_wall_to_mono w' tk1) = offs_boot tkf"
proof -
  let ?w = "wall_to_monotonic tkf"
  have wf: "normal ?w" "total_ns ?w \<le> 0" "0 \<le> wall_ns tkf + total_ns ?w" using assms(1) by (simp_all add: tk_wf_def mono_ns_def)
  have pos: "0 \<le> wall_ns tkf + total_ns ts" using wf(3) assms(4) by simp
  obtain tk1 where x: "tk_xtime_add ts tkf = Some tk1" "wall_ns tk1 = wall_ns tkf + total_ns ts" "0 \<le> xtime_sec tk1" "xtime_sec tk1 < KTIME_SEC_MAX"
    "0 \<le> xtime_nsec (tkr_mono tk1)" "xtime_nsec (tkr_mono tk1) < NSEC_PER_SEC * 2 ^ shift (tkr_mono tkf)"
    "shift (tkr_mono tk1) = shift (tkr_mono tkf)" "wall_to_monotonic tk1 = ?w" "offs_boot tk1 = offs_boot tkf"
    using shift_xtime [OF assms(1,3) pos assms(5,2)] by blast
  let ?tk = "tk_set_wall_to_mono w' tk1"
  have M: "wall_ns tkf + total_ns ts < 9223372036000000000"
    using assms(5) by (simp add: TIME_SETTOD_SEC_MAX_def TIME_UPTIME_SEC_MAX_def KTIME_SEC_MAX_def KTIME_MAX_def NSEC_PER_SEC_def)
  have w': "normal w'" "total_ns w' = total_ns ?w - total_ns ts"
    using sub_exact [OF wf(1) assms(3)] M wf(3) assms(4) by (simp_all add: w'_def in_s64_def)
  have wall: "wall_ns ?tk = wall_ns tkf + total_ns ts" using x(2) by (simp add: tk_set_wall_to_mono_def wall_ns_def Let_def)
  have mono: "mono_ns ?tk = mono_ns tkf" using wall w'(2) by (simp add: mono_ns_def) (simp add: tk_set_wall_to_mono_def Let_def)
  have "tk_wf ?tk" using x(3-7) w' M wf(2,3) assms(1,4) mono negated_offset [OF w'(1)]
    by (simp add: tk_wf_def) (simp add: tk_set_wall_to_mono_def Let_def)
  moreover have "offs_boot ?tk = offs_boot tkf" using x(9) by (simp add: tk_set_wall_to_mono_def Let_def)
  ultimately show ?thesis using x(1,8) wall mono by blast
qed

text \<open>Shifting the time on a timekeeper that was advanced to the current cycle.\<close>

lemma shift_time_of_day:
  assumes "timekeeping_forward_now cycle_now tk = Some tkf" "tk_wf tkf" "shift (tkr_raw tkf) \<le> 32" "normal ts"
  shows "\<exists>r tk'. timekeeping_inject_offset cycle_now ts tk = Some (r, tk') \<and>
    (r = 0 \<longleftrightarrow> 0 \<le> wall_ns tkf + total_ns ts - mono_ns tkf \<and> wall_ns tkf + total_ns ts < TIME_SETTOD_SEC_MAX * NSEC_PER_SEC) \<and>
    (r \<noteq> 0 \<longrightarrow> r = - EINVAL \<and> wall_ns tk' = wall_ns tkf) \<and> (r = 0 \<longrightarrow> wall_ns tk' = wall_ns tkf + total_ns ts) \<and>
    get_system_uptime tk' = get_system_uptime (timekeeping_update tkf) \<and> mono_ns tk' = mono_ns tkf \<and> tk_wf tk'"
proof -
  let ?w = "wall_to_monotonic tkf"
  note b = wf_bounds [OF assms(2)]
  have wf: "normal ?w" "total_ns ?w \<le> 0" "0 \<le> wall_ns tkf + total_ns ?w" using assms(2) by (simp_all add: tk_wf_def mono_ns_def)
  have n: "\<not> (tv_nsec ts < 0 \<or> tv_nsec ts \<ge> NSEC_PER_SEC)" using assms(4) by (simp add: normal_def)
  have c: "timespec64_compare ?w ts > 0 \<longleftrightarrow> \<not> total_ns ?w \<le> total_ns ts" by (rule compare_pos [OF wf(1) assms(4)])
  have m: "0 \<le> wall_ns tkf + total_ns ts - mono_ns tkf \<longleftrightarrow> total_ns ?w \<le> total_ns ts" unfolding mono_ns_def by linarith
  show ?thesis
  proof (cases "total_ns ?w \<le> total_ns ts \<and> wall_ns tkf + total_ns ts < TIME_SETTOD_SEC_MAX * NSEC_PER_SEC")
    case False
    then have "timespec64_compare ?w ts > 0 \<or> \<not> timespec64_valid_settod (timespec64_add (tk_xtime tkf) ts)"
      using c shifted_time_valid [OF assms(2,4)] wf(3) by force
    then have "timekeeping_inject_offset cycle_now ts tk = Some (- EINVAL, timekeeping_update tkf)"
      using n assms(1) by (simp add: timekeeping_inject_offset_def Let_def)
    then show ?thesis using False m assms(2) by (auto simp: errno_defs update_simps)
  next
    case True
    then have pos: "0 \<le> wall_ns tkf + total_ns ts" "wall_ns tkf + total_ns ts < TIME_SETTOD_SEC_MAX * NSEC_PER_SEC" using wf(3) by simp_all
    obtain tk1 where x: "tk_xtime_add ts tkf = Some tk1" and y: "tk_wf (tk_set_wall_to_mono (timespec64_sub ?w ts) tk1)"
      "wall_ns (tk_set_wall_to_mono (timespec64_sub ?w ts) tk1) = wall_ns tkf + total_ns ts"
      "mono_ns (tk_set_wall_to_mono (timespec64_sub ?w ts) tk1) = mono_ns tkf"
      "offs_boot (tk_set_wall_to_mono (timespec64_sub ?w ts) tk1) = offs_boot tkf"
      using shift_both [OF assms(2-4) _ pos(2)] True by blast
    have r: "timekeeping_inject_offset cycle_now ts tk = Some (0, timekeeping_update (tk_set_wall_to_mono (timespec64_sub ?w ts) tk1))"
      using n assms(1) c True shifted_time_valid [OF assms(2,4) pos(1)] x by (simp add: timekeeping_inject_offset_def Let_def)
    show ?thesis using r y m True pos uptime_kept [OF assms(2) y(1,3,4)] by (simp add: update_simps)
  qed
qed

section \<open>Time asleep\<close>

lemma uptime_value:
  assumes "tk_wf tk" "0 \<le> mono_ns tk + offs_boot tk" "mono_ns tk + offs_boot tk < 2 ^ 63"
  shows "get_system_uptime (timekeeping_update tk) = (mono_ns tk + offs_boot tk) div NSEC_PER_SEC"
proof -
  let ?t = "mono_ns tk + offs_boot tk"
  have i: "in_s64 ?t" using assms(2,3) by (simp add: in_s64_def)
  have "ktime_get_coarse_boottime (timekeeping_update tk) = ?t"
    using update_boottime [of tk] assms(1) s64_id [OF i] by (simp add: tk_wf_def normal_def NSEC_PER_SEC_def)
  moreover have "?t sdiv NSEC_PER_SEC = ?t div NSEC_PER_SEC" using assms(2) by (simp add: signed_divide_int_def NSEC_PER_SEC_def sgn_if)
  ultimately show ?thesis using s64_u64_id [OF sec_in_s64 [OF i]]
    by (simp add: get_system_uptime_def ktime_get_boottime_seconds_def ktime_divns_def)
qed

lemma ktime_set_exact:
  assumes "normal ts" "0 \<le> tv_sec ts" "in_s64 (tv_sec ts)" "timespec64_valid_strict ts" "total_ns ts < 2 ^ 63"
  shows "ktime_set (tv_sec ts) (tv_nsec ts) = total_ns ts"
proof -
  have "u64_of (tv_sec ts) = tv_sec ts" using assms(2,3) by (simp add: u64_of_def in_s64_def)
  then have "\<not> tv_sec ts \<ge> KTIME_SEC_MAX" using assms(4) by (simp add: timespec64_valid_strict_def split: if_splits)
  moreover have "in_s64 (total_ns ts)" using assms(1,2,5) by (simp add: in_s64_def total_ns_def normal_def NSEC_PER_SEC_def)
  ultimately show ?thesis using s64_id [of "total_ns ts"] by (simp add: ktime_set_def s64_add total_ns_def)
qed

lemma sleep_time_simps:
  "wall_ns (tk_update_sleep_time d tk) = wall_ns tk" "mono_ns (tk_update_sleep_time d tk) = mono_ns tk" "tk_wf (tk_update_sleep_time d tk) = tk_wf tk"
  by (simp_all add: tk_update_sleep_time_def Let_def wall_ns_def mono_ns_def tk_wf_def)

section \<open>Properties\<close>

text \<open>C12: setting the time of day and the two time calls, for a well-formed timekeeper whose interval
  since the last update fits in the accumulator. A value that is not a valid time is refused
  and changes nothing. Otherwise the timekeeper is first advanced to the current cycle, which never moves
  it backwards, and the call succeeds exactly when the new time is not before the monotonic time since
  boot. After a success get_current_time returns the seconds that were set, after a failure those of the
  advanced clock; in both cases get_system_uptime returns what it returns for the advanced clock, and the
  monotonic time and the well-formedness of the timekeeper are kept.\<close>

theorem settimeofday_current_time_and_uptime:
  assumes "tk_wf tk" "tk_headroom cycle_now tk" "in_s64 (tv_sec ts)" "in_s64 (tv_nsec ts)"
  shows "\<exists>tkf r tk'. timekeeping_forward_now cycle_now tk = Some tkf \<and> mono_ns tk \<le> mono_ns tkf \<and>
    do_settimeofday64 cycle_now ts tk = Some (r, tk') \<and>
    (\<not> timespec64_valid_settod ts \<longrightarrow> r = - EINVAL \<and> tk' = tk) \<and>
    (timespec64_valid_settod ts \<longrightarrow>
      (r = 0 \<longleftrightarrow> mono_ns tkf \<le> total_ns ts) \<and> (r \<noteq> 0 \<longrightarrow> r = - EINVAL \<and> get_current_time tk' = get_current_time tkf) \<and>
      (r = 0 \<longrightarrow> get_current_time tk' = tv_sec ts) \<and>
      get_system_uptime tk' = get_system_uptime (timekeeping_update tkf) \<and>
      mono_ns tk' = mono_ns tkf \<and> tk_wf tk')"
proof -
  obtain tkf where f: "timekeeping_forward_now cycle_now tk = Some tkf" "tk_wf tkf" "mono_ns tk \<le> mono_ns tkf"
    using forward_now [OF assms(1,2)] by (auto simp: mono_ns_def)
  then show ?thesis using set_time_of_day [OF f(1,2) assms(3,4)] by blast
qed

text \<open>A clock at 1000 seconds, booted at 900, with a counter of one nanosecond per cycle, is set to 5000.\<close>

definition sample_tk :: timekeeper where
  "sample_tk =
     \<lparr>tkr_mono = \<lparr>tk_mask = 2 ^ 64 - 1, cycle_last = 50, mult = 256, shift = 8, xtime_nsec = 0, base = 100 * NSEC_PER_SEC, base_real = 1000 * NSEC_PER_SEC\<rparr>,
      tkr_raw = \<lparr>tk_mask = 2 ^ 64 - 1, cycle_last = 50, mult = 256, shift = 8, xtime_nsec = 0, base = 100 * NSEC_PER_SEC, base_real = 0\<rparr>,
      xtime_sec = 1000, ktime_sec = 100, wall_to_monotonic = \<lparr>tv_sec = - 900, tv_nsec = 0\<rparr>,
      offs_real = 900 * NSEC_PER_SEC, offs_boot = 7 * NSEC_PER_SEC, offs_tai = 900 * NSEC_PER_SEC, tai_offset = 0,
      clock_was_set_seq = 0, raw_sec = 100, monotonic_to_boot = \<lparr>tv_sec = 7, tv_nsec = 0\<rparr>\<rparr>"

theorem settimeofday_current_time_and_uptime_witness:
  "tk_wf sample_tk \<and> tk_headroom 2000000050 sample_tk \<and>
   (\<exists>tkf tk'. timekeeping_forward_now 2000000050 sample_tk = Some tkf \<and>
      do_settimeofday64 2000000050 \<lparr>tv_sec = 5000, tv_nsec = 0\<rparr> sample_tk = Some (0, tk') \<and>
      get_current_time tk' = 5000 \<and> get_system_uptime tk' = get_system_uptime (timekeeping_update tkf) \<and> mono_ns tk' = 102 * NSEC_PER_SEC)"
proof -
  let ?ts = "\<lparr>tv_sec = 5000, tv_nsec = 0\<rparr>"
  have h: "tk_wf sample_tk" "tk_headroom 2000000050 sample_tk" "in_s64 (tv_sec ?ts)" "in_s64 (tv_nsec ?ts)" "timespec64_valid_settod ?ts"
    by code_simp+
  have "map_option mono_ns (timekeeping_forward_now 2000000050 sample_tk) = Some (102 * NSEC_PER_SEC)" "total_ns ?ts = 5000 * NSEC_PER_SEC"
    by code_simp+
  then show ?thesis using settimeofday_current_time_and_uptime [OF h(1-4)] h by (auto simp: NSEC_PER_SEC_def)
qed

text \<open>C13: shifting the clock by an offset, which may be negative, for a well-formed timekeeper whose
  interval since the last update fits in the accumulator. An offset whose nanoseconds are out of
  range is refused and changes nothing. Otherwise the call succeeds exactly when the shifted clock is
  neither before the monotonic time since boot nor beyond the limit for a settable time, whatever the
  64-bit sums do; then the clock moves by exactly the offset, to the nanosecond, and on a failure it stays
  at the current cycle. In both cases get_system_uptime and the monotonic time are those of the advanced
  clock, and the timekeeper stays well formed.\<close>

theorem inject_offset_shifts_clock_only:
  assumes "tk_wf tk" "tk_headroom cycle_now tk" "in_s64 (tv_sec ts)"
  shows "\<exists>tkf r tk'. timekeeping_forward_now cycle_now tk = Some tkf \<and> wall_ns tk \<le> wall_ns tkf \<and>
    timekeeping_inject_offset cycle_now ts tk = Some (r, tk') \<and>
    (tv_nsec ts \<notin> {0..<NSEC_PER_SEC} \<longrightarrow> r = - EINVAL \<and> tk' = tk) \<and>
    (tv_nsec ts \<in> {0..<NSEC_PER_SEC} \<longrightarrow>
      (r = 0 \<longleftrightarrow> 0 \<le> wall_ns tkf + total_ns ts - mono_ns tkf \<and> wall_ns tkf + total_ns ts < TIME_SETTOD_SEC_MAX * NSEC_PER_SEC) \<and>
      (r \<noteq> 0 \<longrightarrow> r = - EINVAL \<and> wall_ns tk' = wall_ns tkf) \<and> (r = 0 \<longrightarrow> wall_ns tk' = wall_ns tkf + total_ns ts) \<and>
      get_system_uptime tk' = get_system_uptime (timekeeping_update tkf) \<and> mono_ns tk' = mono_ns tkf \<and> tk_wf tk')"
proof -
  obtain tkf where f: "timekeeping_forward_now cycle_now tk = Some tkf" "tk_wf tkf" "wall_ns tk \<le> wall_ns tkf" "shift (tkr_raw tkf) \<le> 32"
    using forward_now [OF assms(1,2)] by blast
  show ?thesis
  proof (cases "tv_nsec ts \<in> {0..<NSEC_PER_SEC}")
    case True
    then have "normal ts" using assms(3) by (simp add: normal_def)
    then show ?thesis using shift_time_of_day [OF f(1,2,4)] f(1,3) True by blast
  next
    case False
    then have "timekeeping_inject_offset cycle_now ts tk = Some (- EINVAL, tk)" by (auto simp: timekeeping_inject_offset_def)
    then show ?thesis using f(1,3) False by blast
  qed
qed

theorem inject_offset_shifts_clock_only_witness:
  "tk_wf sample_tk \<and> tk_headroom 2000000050 sample_tk \<and>
   (\<exists>tk'. timekeeping_inject_offset 2000000050 \<lparr>tv_sec = - 300, tv_nsec = 5\<rparr> sample_tk = Some (0, tk') \<and>
      wall_ns tk' = 702 * NSEC_PER_SEC + 5 \<and> mono_ns tk' = 102 * NSEC_PER_SEC)"
proof -
  let ?ts = "\<lparr>tv_sec = - 300, tv_nsec = 5\<rparr>"
  have h: "tk_wf sample_tk" "tk_headroom 2000000050 sample_tk" "in_s64 (tv_sec ?ts)" by code_simp+
  have "map_option mono_ns (timekeeping_forward_now 2000000050 sample_tk) = Some (102 * NSEC_PER_SEC)"
    "map_option wall_ns (timekeeping_forward_now 2000000050 sample_tk) = Some (1002 * NSEC_PER_SEC)"
    "total_ns ?ts = 5 - 300 * NSEC_PER_SEC" "TIME_SETTOD_SEC_MAX = 8277292036"
    by code_simp+
  then show ?thesis using inject_offset_shifts_clock_only [OF h] h by (auto simp: NSEC_PER_SEC_def)
qed

text \<open>C14: time spent asleep counts in the uptime. When a valid sleep interval is reported and the clocks stay in
  range, the wall clock moves forward by exactly that interval, the monotonic time does not move, the
  timekeeper stays well formed, and get_system_uptime, which returned the whole seconds of the monotonic
  time and the sleep so far, then returns those of the sum with the interval.\<close>

theorem sleep_counts_in_uptime:
  assumes "tk_wf tk" "tk_headroom cycle_now tk" "timekeeping_forward_now cycle_now tk = Some tkf"
    and "in_s64 (tv_sec delta)" "in_s64 (tv_nsec delta)" "timespec64_valid_strict delta"
    and "wall_ns tkf + total_ns delta < TIME_SETTOD_SEC_MAX * NSEC_PER_SEC"
    and "0 \<le> offs_boot tkf" "mono_ns tkf + offs_boot tkf + total_ns delta < 2 ^ 63"
  shows "get_system_uptime (timekeeping_update tkf) = (mono_ns tkf + offs_boot tkf) div NSEC_PER_SEC \<and>
    (\<exists>tk'. timekeeping_inject_sleeptime64 cycle_now delta tk = Some tk' \<and> tk_wf tk' \<and>
      wall_ns tk' = wall_ns tkf + total_ns delta \<and> mono_ns tk' = mono_ns tkf \<and>
      get_system_uptime tk' = (mono_ns tkf + offs_boot tkf + total_ns delta) div NSEC_PER_SEC)"
proof -
  have f: "tk_wf tkf" "shift (tkr_raw tkf) \<le> 32" using forward_now [OF assms(1,2)] assms(3) by auto
  have n: "normal delta" "0 \<le> tv_sec delta"
    using assms(6) valid_iff [OF assms(4,5)] by (simp_all add: timespec64_valid_strict_def split: if_splits)
  then have d: "0 \<le> total_ns delta" by (simp add: total_ns_def normal_def NSEC_PER_SEC_def)
  have w: "total_ns (wall_to_monotonic tkf) \<le> total_ns delta" "0 \<le> mono_ns tkf" using f(1) d by (simp_all add: tk_wf_def)
  have k: "ktime_set (tv_sec delta) (tv_nsec delta) = total_ns delta" by (rule ktime_set_exact [OF n assms(4,6)]) (use w(2) assms(8,9) in linarith)
  obtain tk1 where x: "tk_xtime_add delta tkf = Some tk1" "wall_to_monotonic tk1 = wall_to_monotonic tkf"
    and y: "tk_wf (tk_set_wall_to_mono (timespec64_sub (wall_to_monotonic tkf) delta) tk1)"
      "wall_ns (tk_set_wall_to_mono (timespec64_sub (wall_to_monotonic tkf) delta) tk1) = wall_ns tkf + total_ns delta"
      "mono_ns (tk_set_wall_to_mono (timespec64_sub (wall_to_monotonic tkf) delta) tk1) = mono_ns tkf"
      "offs_boot (tk_set_wall_to_mono (timespec64_sub (wall_to_monotonic tkf) delta) tk1) = offs_boot tkf"
    using shift_both [OF f n(1) w(1) assms(7)] by blast
  let ?tk = "tk_update_sleep_time (total_ns delta) (tk_set_wall_to_mono (timespec64_sub (wall_to_monotonic tkf) delta) tk1)"
  have r: "timekeeping_inject_sleeptime64 cycle_now delta tk = Some (timekeeping_update ?tk)"
    using assms(3,6) x k by (simp add: timekeeping_inject_sleeptime64_def inject_sleeptime_def)
  have b: "offs_boot ?tk = offs_boot tkf + total_ns delta"
    using y(4) s64_id [of "offs_boot tkf + total_ns delta"] w(2) d assms(8,9) by (simp add: tk_update_sleep_time_def Let_def in_s64_def)
  show ?thesis using r y sleep_time_simps b uptime_value [OF f(1)] uptime_value [of ?tk] w(2) d assms(8,9) by (simp add: update_simps algebra_simps)
qed

theorem sleep_counts_in_uptime_witness:
  "\<exists>tkf tk'. timekeeping_forward_now 2000000050 sample_tk = Some tkf \<and> get_system_uptime (timekeeping_update tkf) = 109 \<and>
     timekeeping_inject_sleeptime64 2000000050 \<lparr>tv_sec = 60, tv_nsec = 0\<rparr> sample_tk = Some tk' \<and>
     get_system_uptime tk' = 169 \<and> wall_ns tk' = 1062 * NSEC_PER_SEC"
proof -
  let ?d = "\<lparr>tv_sec = 60, tv_nsec = 0\<rparr>"
  have h: "tk_wf sample_tk" "tk_headroom 2000000050 sample_tk" by code_simp+
  have d: "in_s64 (tv_sec ?d)" "in_s64 (tv_nsec ?d)" "timespec64_valid_strict ?d" "total_ns ?d = 60 * NSEC_PER_SEC" by code_simp+
  have "map_option (\<lambda>k. (wall_ns k, mono_ns k, offs_boot k)) (timekeeping_forward_now 2000000050 sample_tk) =
      Some (1002 * NSEC_PER_SEC, 102 * NSEC_PER_SEC, 7 * NSEC_PER_SEC)" by code_simp
  then obtain tkf where f: "timekeeping_forward_now 2000000050 sample_tk = Some tkf"
    "wall_ns tkf = 1002 * NSEC_PER_SEC" "mono_ns tkf = 102 * NSEC_PER_SEC" "offs_boot tkf = 7 * NSEC_PER_SEC" by auto
  have b: "wall_ns tkf + total_ns ?d < TIME_SETTOD_SEC_MAX * NSEC_PER_SEC" "0 \<le> offs_boot tkf" "mono_ns tkf + offs_boot tkf + total_ns ?d < 2 ^ 63"
    unfolding f d by code_simp+
  show ?thesis using sleep_counts_in_uptime [OF h f(1) d(1-3) b] f d(4) by (auto simp: NSEC_PER_SEC_def)
qed

end
