(* ===== verification/Cpudl.thy ===== *)
theory Cpudl
  imports Simulation
begin

text \<open>
  The heap of CPUs by deadline of the deadline scheduler (kernel/sched/cpudeadline.c). One array serves
  twice: entry \<open>i\<close> holds the CPU and the deadline at heap position \<open>i\<close>, and entry \<open>c\<close> holds the heap
  position of CPU \<open>c\<close>. An access outside the array is the value None. The heap is shown to implement
  a map from CPUs to deadlines with the latest deadline first, as long as the deadlines lie within
  half of the 64-bit range, where the wrapping comparison is an order.
\<close>

section \<open>Data\<close>

record cpudl_item =
  dl :: u64
  cpu :: nat
  idx :: int

record cpudl =
  heap_size :: nat
  free_cpus :: "nat set"
  elements :: "cpudl_item list"

definition IDX_INVALID :: int where "IDX_INVALID = - 1"

definition dl_time_before :: "u64 \<Rightarrow> u64 \<Rightarrow> bool" where
  "dl_time_before a b \<longleftrightarrow> sint (a - b) < 0"

definition parent :: "nat \<Rightarrow> nat" where "parent i = (i - 1) div 2"
definition left_child :: "nat \<Rightarrow> nat" where "left_child i = 2 * i + 1"
definition right_child :: "nat \<Rightarrow> nat" where "right_child i = 2 * i + 2"

text \<open>Reading an entry, and storing a CPU and its deadline at a position together with the position of
  the CPU.\<close>

definition elem :: "cpudl_item list \<Rightarrow> nat \<Rightarrow> cpudl_item option" where
  "elem es i = (if i < length es then Some (es ! i) else None)"

definition place :: "cpudl_item list \<Rightarrow> nat \<Rightarrow> nat \<Rightarrow> u64 \<Rightarrow> cpudl_item list option" where
  "place es i c d =
     (if i < length es \<and> c < length es
      then (let es = es[i := (es ! i)\<lparr>cpu := c, dl := d\<rparr>] in Some (es[c := (es ! c)\<lparr>idx := int i\<rparr>]))
      else None)"

section \<open>Sifting\<close>

text \<open>One choice of the downward loop: the position of the latest deadline among the saved one and
  those of the children.\<close>

definition pick_largest :: "nat \<Rightarrow> u64 \<Rightarrow> cpudl_item list \<Rightarrow> nat \<Rightarrow> nat option" where
  "pick_largest n orig_dl es i =
     (let l = left_child i; r = right_child i in
      case (if l < n
            then (case elem es l of None \<Rightarrow> None
                  | Some e \<Rightarrow> Some (if dl_time_before orig_dl (dl e) then (l, dl e) else (i, orig_dl)))
            else Some (i, orig_dl)) of
        None \<Rightarrow> None
      | Some (largest, largest_dl) \<Rightarrow>
          if r < n
          then (case elem es r of None \<Rightarrow> None
                | Some e \<Rightarrow> Some (if dl_time_before largest_dl (dl e) then r else largest))
          else Some largest)"

lemma pick_largest_cases:
  "pick_largest n d es i = Some g \<Longrightarrow> g = i \<or> (g = left_child i \<or> g = right_child i) \<and> g < n"
  by (auto simp: pick_largest_def Let_def split: if_splits option.splits)

function down_loop :: "nat \<Rightarrow> u64 \<Rightarrow> cpudl_item list \<Rightarrow> nat \<Rightarrow> (cpudl_item list \<times> nat) option" where
  "down_loop n orig_dl es i =
     (case pick_largest n orig_dl es i of None \<Rightarrow> None
      | Some largest \<Rightarrow>
          if largest = i then Some (es, i)
          else (case elem es largest of None \<Rightarrow> None
                | Some e \<Rightarrow> (case place es i (cpu e) (dl e) of None \<Rightarrow> None
                             | Some es' \<Rightarrow> down_loop n orig_dl es' largest)))"
  by pat_completeness auto
termination
  by (relation "measure (\<lambda>(n, d, es, i). n - i)")
    (auto dest!: pick_largest_cases simp: left_child_def right_child_def)

definition cpudl_heapify_down :: "nat \<Rightarrow> cpudl_item list \<Rightarrow> nat \<Rightarrow> cpudl_item list option" where
  "cpudl_heapify_down n es i =
     (case elem es i of None \<Rightarrow> None
      | Some e \<Rightarrow>
          if left_child i \<ge> n then Some es
          else (case down_loop n (dl e) es i of None \<Rightarrow> None
                | Some (es', j) \<Rightarrow> place es' j (cpu e) (dl e)))"

function up_loop :: "u64 \<Rightarrow> cpudl_item list \<Rightarrow> nat \<Rightarrow> (cpudl_item list \<times> nat) option" where
  "up_loop orig_dl es i =
     (let p = parent i in
      case elem es p of None \<Rightarrow> None
      | Some e \<Rightarrow>
          if dl_time_before orig_dl (dl e) then Some (es, i)
          else (case place es i (cpu e) (dl e) of None \<Rightarrow> None
                | Some es' \<Rightarrow> if p \<noteq> 0 then up_loop orig_dl es' p else Some (es', p)))"
  by pat_completeness auto
termination
  by (relation "measure (\<lambda>(d, es, i). i)") (auto simp: parent_def)

declare down_loop.simps [simp del] up_loop.simps [simp del]

definition cpudl_heapify_up :: "cpudl_item list \<Rightarrow> nat \<Rightarrow> cpudl_item list option" where
  "cpudl_heapify_up es i =
     (case elem es i of None \<Rightarrow> None
      | Some e \<Rightarrow>
          if i = 0 then Some es
          else (case up_loop (dl e) es i of None \<Rightarrow> None
                | Some (es', j) \<Rightarrow> place es' j (cpu e) (dl e)))"

definition cpudl_heapify :: "nat \<Rightarrow> cpudl_item list \<Rightarrow> nat \<Rightarrow> cpudl_item list option" where
  "cpudl_heapify n es i =
     (if i > 0
      then (case (elem es (parent i), elem es i) of
              (Some p, Some e) \<Rightarrow> if dl_time_before (dl p) (dl e) then cpudl_heapify_up es i else cpudl_heapify_down n es i
            | _ \<Rightarrow> None)
      else cpudl_heapify_down n es i)"

section \<open>Operations\<close>

definition cpudl_maximum :: "cpudl \<Rightarrow> nat option" where
  "cpudl_maximum cp = map_option cpu (elem (elements cp) 0)"

definition cpudl_clear :: "cpudl \<Rightarrow> nat \<Rightarrow> cpudl option" where
  "cpudl_clear cp c =
     (case elem (elements cp) c of None \<Rightarrow> None
      | Some ec \<Rightarrow>
          if idx ec = IDX_INVALID then Some cp
          else
            (let old_idx = nat (idx ec); n = heap_size cp - 1 in
             case (if heap_size cp = 0 then None else elem (elements cp) n) of None \<Rightarrow> None
             | Some e \<Rightarrow>
                 (case place (elements cp) old_idx (cpu e) (dl e) of None \<Rightarrow> None
                  | Some es \<Rightarrow>
                      map_option (\<lambda>es. cp\<lparr>heap_size := n, elements := es, free_cpus := insert c (free_cpus cp)\<rparr>)
                        (cpudl_heapify n (es[c := (es ! c)\<lparr>idx := IDX_INVALID\<rparr>]) old_idx))))"

definition cpudl_set :: "cpudl \<Rightarrow> nat \<Rightarrow> u64 \<Rightarrow> cpudl option" where
  "cpudl_set cp c d =
     (case elem (elements cp) c of None \<Rightarrow> None
      | Some ec \<Rightarrow>
          if idx ec = IDX_INVALID
          then (let new_idx = heap_size cp in
                case place (elements cp) new_idx c d of None \<Rightarrow> None
                | Some es \<Rightarrow>
                    map_option (\<lambda>es. cp\<lparr>heap_size := new_idx + 1, elements := es, free_cpus := free_cpus cp - {c}\<rparr>)
                      (cpudl_heapify_up es new_idx))
          else (let old_idx = nat (idx ec); es = elements cp in
                if old_idx < length es
                then map_option (\<lambda>es. cp\<lparr>elements := es\<rparr>)
                       (cpudl_heapify (heap_size cp) (es[old_idx := (es ! old_idx)\<lparr>dl := d\<rparr>]) old_idx)
                else None))"

definition cpudl_set_freecpu :: "cpudl \<Rightarrow> nat \<Rightarrow> cpudl" where
  "cpudl_set_freecpu cp c = cp\<lparr>free_cpus := insert c (free_cpus cp)\<rparr>"

definition cpudl_clear_freecpu :: "cpudl \<Rightarrow> nat \<Rightarrow> cpudl" where
  "cpudl_clear_freecpu cp c = cp\<lparr>free_cpus := free_cpus cp - {c}\<rparr>"

text \<open>The two allocations succeed or fail by a parameter; every id below nr_cpu_ids is that of a possible CPU.\<close>

definition cpudl_init :: "nat \<Rightarrow> bool \<Rightarrow> bool \<Rightarrow> int \<times> cpudl option" where
  "cpudl_init nr_cpu_ids kcalloc_ok zalloc_ok =
     (if \<not> kcalloc_ok then (- ENOMEM, None)
      else if \<not> zalloc_ok then (- ENOMEM, None)
      else (0, Some \<lparr>heap_size = 0, free_cpus = {}, elements = replicate nr_cpu_ids \<lparr>dl = 0, cpu = 0, idx = IDX_INVALID\<rparr>\<rparr>))"

text \<open>The search for a CPU. The rest of the scheduler enters as parameters: whether CPUs differ in
  capacity, which CPU has capacity enough for the task, the capacities and the CPU of the task. The
  loop visits the CPUs of the mask in ascending order. A mask in which bit -1 is to be set is a
  failure.\<close>

fun fit_loop :: "(nat \<Rightarrow> bool) \<Rightarrow> (nat \<Rightarrow> u64) \<Rightarrow> nat \<Rightarrow> nat list \<Rightarrow> nat set \<Rightarrow> u64 \<Rightarrow> nat option \<Rightarrow> nat set \<times> nat option" where
  "fit_loop fits cap task_cpu [] later max_cap max_cpu = (later, max_cpu)"
| "fit_loop fits cap task_cpu (c # cs) later max_cap max_cpu =
     (if \<not> fits c
      then if cap c > max_cap \<or> c = task_cpu \<and> cap c = max_cap
           then fit_loop fits cap task_cpu cs (later - {c}) (cap c) (Some c)
           else fit_loop fits cap task_cpu cs (later - {c}) max_cap max_cpu
      else fit_loop fits cap task_cpu cs later max_cap max_cpu)"

definition cpudl_find ::
  "cpudl \<Rightarrow> bool \<Rightarrow> (nat \<Rightarrow> bool) \<Rightarrow> (nat \<Rightarrow> u64) \<Rightarrow> nat \<Rightarrow> nat set \<Rightarrow> u64 \<Rightarrow> bool \<Rightarrow> (int \<times> nat set option) option" where
  "cpudl_find cp asym_cpucap fits cap task_cpu cpus_mask deadline later_mask =
     (let later = free_cpus cp \<inter> cpus_mask in
      if later_mask \<and> later \<noteq> {}
      then if \<not> asym_cpucap then Some (1, Some later)
           else (case fit_loop fits cap task_cpu (sorted_list_of_set later) later 0 None of
                   (m, max_cpu) \<Rightarrow>
                     if m = {} then map_option (\<lambda>c. (1, Some {c})) max_cpu else Some (1, Some m))
      else (case elem (elements cp) 0 of None \<Rightarrow> None
            | Some e \<Rightarrow>
                if cpu e \<in> cpus_mask \<and> dl_time_before deadline (dl e)
                then Some (1, if later_mask then Some (insert (cpu e) later) else None)
                else Some (0, if later_mask then Some later else None)))"

section \<open>Views and invariant\<close>

text \<open>What the array says as a heap, and what it says as an index.\<close>

definition hv :: "cpudl_item list \<Rightarrow> nat \<Rightarrow> nat \<times> u64" where "hv es i = (cpu (es ! i), dl (es ! i))"
definition iv :: "cpudl_item list \<Rightarrow> nat \<Rightarrow> int" where "iv es c = idx (es ! c)"

definition consistent :: "(nat \<Rightarrow> nat \<times> u64) \<Rightarrow> (nat \<Rightarrow> int) \<Rightarrow> nat \<Rightarrow> nat \<Rightarrow> bool" where
  "consistent H I n nr \<longleftrightarrow> n \<le> nr \<and> (\<forall>i<n. fst (H i) < nr \<and> I (fst (H i)) = int i) \<and>
     (\<forall>c<nr. I c = IDX_INVALID \<or> (\<exists>i<n. I c = int i \<and> fst (H i) = c))"

text \<open>The deadline of each CPU in the heap: the map that the heap stands for.\<close>

definition deadlines :: "(nat \<Rightarrow> nat \<times> u64) \<Rightarrow> (nat \<Rightarrow> int) \<Rightarrow> nat \<Rightarrow> nat \<Rightarrow> u64 option" where
  "deadlines H I nr c = (if c < nr \<and> I c \<noteq> IDX_INVALID then Some (snd (H (nat (I c)))) else None)"

definition key :: "u64 \<Rightarrow> u64 \<Rightarrow> nat" where "key b x = unat (x - b)"

definition in_window :: "u64 \<Rightarrow> u64 \<Rightarrow> bool" where "in_window b x \<longleftrightarrow> key b x < 2 ^ 63"

definition is_heap :: "(nat \<Rightarrow> nat) \<Rightarrow> nat \<Rightarrow> bool" where
  "is_heap K n \<longleftrightarrow> (\<forall>i. 0 < i \<and> i < n \<longrightarrow> K i \<le> K (parent i))"

text \<open>A heap but for position \<open>j\<close>, and what is missing below and above it.\<close>

definition almost :: "(nat \<Rightarrow> nat) \<Rightarrow> nat \<Rightarrow> nat \<Rightarrow> bool" where
  "almost K n j \<longleftrightarrow> (\<forall>i. 0 < i \<and> i < n \<and> i \<noteq> j \<and> parent i \<noteq> j \<longrightarrow> K i \<le> K (parent i)) \<and>
     (\<forall>i. 0 < i \<and> i < n \<and> parent i = j \<and> 0 < j \<longrightarrow> K i \<le> K (parent j))"

definition over_children :: "(nat \<Rightarrow> nat) \<Rightarrow> nat \<Rightarrow> nat \<Rightarrow> bool" where
  "over_children K n j \<longleftrightarrow> (\<forall>i. 0 < i \<and> i < n \<and> parent i = j \<longrightarrow> K i \<le> K j)"

definition under_parent :: "(nat \<Rightarrow> nat) \<Rightarrow> nat \<Rightarrow> bool" where
  "under_parent K j \<longleftrightarrow> (0 < j \<longrightarrow> K j \<le> K (parent j))"

definition keys :: "u64 \<Rightarrow> cpudl_item list \<Rightarrow> nat \<Rightarrow> nat" where "keys b es i = key b (snd (hv es i))"

definition good :: "u64 \<Rightarrow> nat \<Rightarrow> nat \<Rightarrow> cpudl_item list \<Rightarrow> bool" where
  "good b nr n es \<longleftrightarrow> length es = nr \<and> consistent (hv es) (iv es) n nr \<and> (\<forall>i<n. in_window b (snd (hv es i)))"

section \<open>The order of deadlines\<close>

lemma sint_neg_iff: "sint w < 0 \<longleftrightarrow> 2 ^ 63 \<le> unat w" for w :: u64
proof -
  have "sint w < 0 \<longleftrightarrow> bit w 63" using bit_last_iff [of w] by simp
  also have "\<dots> \<longleftrightarrow> bit (unat w) 63" by (simp add: bit_unsigned_iff)
  also have "\<dots> \<longleftrightarrow> odd (unat w div 2 ^ 63)" by (rule bit_iff_odd)
  also have "\<dots> \<longleftrightarrow> 2 ^ 63 \<le> unat w"
  proof -
    have "unat w < 2 * 2 ^ 63" using unat_bound [of w] by simp
    then have "unat w div 2 ^ 63 < 2" by (simp add: less_mult_imp_div_less)
    then have "unat w div 2 ^ 63 = 0 \<or> unat w div 2 ^ 63 = 1" by linarith
    then show ?thesis by (auto simp: div_eq_0_iff)
  qed
  finally show ?thesis .
qed

lemma before_key: "in_window b x \<Longrightarrow> in_window b y \<Longrightarrow> dl_time_before x y \<longleftrightarrow> key b x < key b y"
proof -
  assume w: "in_window b x" "in_window b y"
  define u v where "u = x - b" and "v = y - b"
  have e: "x - y = u - v" by (simp add: u_def v_def)
  have l: "unat u < 2 ^ 63" "unat v < 2 ^ 63" using w by (simp_all add: in_window_def key_def u_def v_def)
  have p: "(2 :: nat) ^ 63 = 9223372036854775808" "(2 :: nat) ^ 64 = 18446744073709551616" by simp_all
  have d: "unat (u - v) = (if unat v \<le> unat u then unat u - unat v else unat u + 2 ^ 64 - unat v)"
    using unat_sub_if' [of u v] by simp
  have "2 ^ 63 \<le> unat (u - v) \<longleftrightarrow> unat u < unat v"
  proof (cases "unat v \<le> unat u")
    case True
    then have "unat (u - v) = unat u - unat v" using d by (simp only: if_True)
    then show ?thesis using True l unfolding p by linarith
  next
    case False
    then have "unat (u - v) = unat u + 2 ^ 64 - unat v" using d by (simp only: if_False)
    then show ?thesis using False l unfolding p by linarith
  qed
  then show ?thesis unfolding dl_time_before_def sint_neg_iff e key_def u_def [symmetric] v_def [symmetric] .
qed

section \<open>Heap positions\<close>

lemma parent_less: "0 < i \<Longrightarrow> parent i < i"
  by (simp add: parent_def)

lemma parent_children: "0 < i \<Longrightarrow> parent i = j \<longleftrightarrow> i = left_child j \<or> i = right_child j"
  by (auto simp: parent_def left_child_def right_child_def)

lemma heapI: "almost K n j \<Longrightarrow> over_children K n j \<Longrightarrow> under_parent K j \<Longrightarrow> is_heap K n"
  unfolding is_heap_def almost_def over_children_def under_parent_def by metis

lemma heap_top: "is_heap K n \<Longrightarrow> i < n \<Longrightarrow> K i \<le> K 0"
proof (induction i rule: less_induct)
  case (less i)
  show ?case
  proof (cases "i = 0")
    case False
    then have "K i \<le> K (parent i)" "K (parent i) \<le> K 0" using less parent_less [of i] unfolding is_heap_def by auto
    then show ?thesis by simp
  qed simp
qed

lemma sift_down_step:
  assumes "almost K n j" "under_parent K j" "0 < g" "g < n" "parent g = j" "K j < K g"
    "\<And>i. 0 < i \<Longrightarrow> i < n \<Longrightarrow> parent i = j \<Longrightarrow> K i \<le> K g"
  defines "K' \<equiv> K(j := K g, g := K j)"
  shows "almost K' n g \<and> under_parent K' g"
proof -
  have jg: "j < g" using parent_less [OF assms(3)] assms(5) by simp
  have "K' i \<le> K' (parent i)" if i: "0 < i" "i < n" "i \<noteq> g" "parent i \<noteq> g" for i
  proof (cases "i = j")
    case True
    then have "parent i < i" "K g \<le> K (parent j)" using assms(1,3,4,5) i parent_less unfolding almost_def by auto
    then show ?thesis using True jg by (simp add: K'_def)
  next
    case False
    then show ?thesis using assms(1,7) i jg unfolding almost_def K'_def by auto
  qed
  moreover have "K' i \<le> K' (parent g)" if i: "0 < i" "i < n" "parent i = g" for i
    using assms(1,5) i jg parent_less [of i] unfolding almost_def K'_def by auto
  moreover have "K' g \<le> K' (parent g)" using assms(5,6) jg by (simp add: K'_def)
  ultimately show ?thesis unfolding almost_def under_parent_def by blast
qed

lemma sift_up_step:
  assumes "almost K n j" "over_children K n j" "0 < j" "j < n" "K (parent j) \<le> K j"
  defines "p \<equiv> parent j"
  defines "K' \<equiv> K(j := K p, p := K j)"
  shows "almost K' n p \<and> over_children K' n p"
proof -
  have pj: "p < j" using parent_less [OF assms(3)] by (simp add: p_def)
  have ch: "K i \<le> K p" if "0 < i" "i < n" "parent i = j" for i using assms(1,3) that unfolding almost_def p_def by blast
  have sib: "K i \<le> K p" if "0 < i" "i < n" "parent i = p" "i \<noteq> j" for i
    using assms(1) that pj unfolding almost_def by auto
  have pp: "K p \<le> K (parent p)" if "0 < p"
    using assms(1,4) that pj parent_less [OF that] unfolding almost_def by auto
  have "K' i \<le> K' (parent i)" if i: "0 < i" "i < n" "i \<noteq> p" "parent i \<noteq> p" for i
    using assms(1) i pj ch unfolding almost_def K'_def p_def by auto
  moreover have "K' i \<le> K' (parent p)" if i: "0 < i" "i < n" "parent i = p" "0 < p" for i
    using i pj sib [OF i(1-3)] pp [OF i(4)] parent_less [OF i(4)] parent_less [OF i(1)] by (auto simp: K'_def)
  moreover have "K' i \<le> K' p" if i: "0 < i" "i < n" "parent i = p" for i
    using i pj sib [OF i] assms(5) parent_less [OF i(1)] by (auto simp: K'_def p_def)
  ultimately show ?thesis unfolding almost_def over_children_def by blast
qed

section \<open>Array views\<close>

lemma place_Some:
  assumes "place es i c d = Some es'"
  shows "i < length es" "c < length es" "length es' = length es" "hv es' = (hv es)(i := (c, d))" "iv es' = (iv es)(c := int i)"
  using assms by (auto simp: place_def Let_def hv_def iv_def nth_list_update fun_eq_iff split: if_splits)

lemma place_ok: "i < length es \<Longrightarrow> c < length es \<Longrightarrow> \<exists>es'. place es i c d = Some es'"
  by (simp add: place_def Let_def)

lemma consistent_swap:
  assumes "consistent H I n nr" "i < n" "j < n" "i \<noteq> j"
  defines "H' \<equiv> H(i := H j, j := H i)" and "I' \<equiv> I(fst (H j) := int i, fst (H i) := int j)"
  shows "consistent H' I' n nr \<and> deadlines H' I' nr = deadlines H I nr"
proof -
  have A: "fst (H k) < nr" "I (fst (H k)) = int k" if "k < n" for k using assms(1) that by (auto simp: consistent_def)
  have inj: "fst (H k) = fst (H l) \<longleftrightarrow> k = l" if "k < n" "l < n" for k l using A that by (metis of_nat_eq_iff)
  have d: "fst (H i) \<noteq> fst (H j)" using inj assms(2-4) by simp
  have "I' (fst (H' k)) = int k \<and> fst (H' k) < nr" if "k < n" for k
    using that A(1,2) [OF that] A [OF assms(2)] A [OF assms(3)] inj [OF that assms(2)] inj [OF that assms(3)] d assms(4)
    unfolding H'_def I'_def by (cases "k = i"; cases "k = j") simp_all
  moreover have B: "I' c = IDX_INVALID \<and> I c = IDX_INVALID \<or> (\<exists>k<n. I' c = int k \<and> fst (H' k) = c \<and> I c \<noteq> IDX_INVALID \<and> snd (H' k) = snd (H (nat (I c))))"
    if c: "c < nr" for c
  proof -
    consider "I c = IDX_INVALID" | k where "k < n" "I c = int k" "fst (H k) = c" using assms(1) c unfolding consistent_def by blast
    then show ?thesis
    proof cases
      case 1
      then have "c \<noteq> fst (H i)" "c \<noteq> fst (H j)" using A assms(2,3) by (auto simp: IDX_INVALID_def)
      then show ?thesis using 1 by (simp add: I'_def)
    next
      case 2
      consider "k = i" | "k = j" | "k \<noteq> i" "k \<noteq> j" by blast
      then show ?thesis
      proof cases
        case 1
        then show ?thesis using 2 d assms(2-4) by (intro disjI2 exI [of _ j]) (auto simp: H'_def I'_def IDX_INVALID_def)
      next
        case c2: 2
        then show ?thesis using 2 d assms(2-4) by (intro disjI2 exI [of _ i]) (auto simp: H'_def I'_def IDX_INVALID_def)
      next
        case 3
        then have "c \<noteq> fst (H i)" "c \<noteq> fst (H j)" using inj 2 assms(2,3) by auto
        then show ?thesis using 2 3 by (intro disjI2 exI [of _ k]) (auto simp: H'_def I'_def IDX_INVALID_def)
      qed
    qed
  qed
  moreover have "deadlines H' I' nr c = deadlines H I nr c" for c
    using B [of c] by (auto simp: deadlines_def IDX_INVALID_def)
  ultimately show ?thesis using assms(1) by (auto simp: consistent_def)
qed

text \<open>Pulling an entry onto the hole and putting the saved one in its place exchanges the two.\<close>

lemma place_swap:
  assumes "place es i oc od = Some es0" "place es i (cpu (es ! g)) (dl (es ! g)) = Some es'" "place es' g oc od = Some es1" "g \<noteq> i"
  shows "hv es1 = (hv es0)(i := hv es0 g, g := hv es0 i)"
    "iv es1 = (iv es0)(fst (hv es0 g) := int i, fst (hv es0 i) := int g)"
  using assms(4) unfolding place_Some [OF assms(1)] place_Some [OF assms(2)] place_Some [OF assms(3)]
  by (auto simp: hv_def fun_eq_iff)

lemma good_swap:
  assumes "good b nr n es0" "i < n" "g < n" "g \<noteq> i" "hv es1 = (hv es0)(i := hv es0 g, g := hv es0 i)"
    "iv es1 = (iv es0)(fst (hv es0 g) := int i, fst (hv es0 i) := int g)" "length es1 = length es0"
  shows "good b nr n es1 \<and> deadlines (hv es1) (iv es1) nr = deadlines (hv es0) (iv es0) nr \<and>
    keys b es1 = (keys b es0)(i := keys b es0 g, g := keys b es0 i)"
proof -
  have "keys b es1 = (keys b es0)(i := keys b es0 g, g := keys b es0 i)" using assms(4,5) by (auto simp: keys_def fun_eq_iff)
  moreover have "in_window b (snd (hv es1 k))" if "k < n" for k using assms(1-5) that by (simp add: good_def)
  ultimately show ?thesis
    using consistent_swap [of "hv es0" "iv es0" n nr i g] assms unfolding good_def by simp
qed

lemma good_before:
  assumes "good b nr n es" "x < n" "y < n"
  shows "dl_time_before (snd (hv es x)) (snd (hv es y)) \<longleftrightarrow> keys b es x < keys b es y"
  using assms before_key by (simp add: good_def keys_def)

lemma good_length: "good b nr n es \<Longrightarrow> n \<le> length es \<and> length es = nr"
  by (auto simp: good_def consistent_def)

lemma good_cpu: "good b nr n es \<Longrightarrow> i < n \<Longrightarrow> fst (hv es i) < length es"
  by (simp add: good_def consistent_def)

section \<open>The loops restore the heap\<close>

lemma pick_spec:
  assumes "place es i oc od = Some es0" "good b nr n es0" "i < n"
  obtains g where "pick_largest n od es i = Some g" "g = i \<longrightarrow> over_children (keys b es0) n i"
    "g \<noteq> i \<longrightarrow> 0 < g \<and> g < n \<and> parent g = i \<and> keys b es0 i < keys b es0 g \<and>
       (\<forall>k. 0 < k \<and> k < n \<and> parent k = i \<longrightarrow> keys b es0 k \<le> keys b es0 g)"
proof -
  let ?K = "keys b es0" and ?l = "left_child i" and ?r = "right_child i"
  note p = place_Some [OF assms(1)] and len = good_length [OF assms(2)]
  have ord: "i < ?l" "?l < ?r" by (simp_all add: left_child_def right_child_def)
  have rd: "elem es k = Some (es ! k) \<and> dl (es ! k) = snd (hv es0 k)" if "k < n" "k \<noteq> i" for k
    using that len p(3,4) by (simp add: elem_def hv_def)
  have od: "od = snd (hv es0 i)" using p(4) by simp
  note bk = good_before [OF assms(2)]
  have ch: "parent k = i \<longleftrightarrow> k = ?l \<or> k = ?r" if "0 < k" for k using parent_children [OF that] by simp
  define m where "m = (if ?l < n \<and> ?K i < ?K ?l then ?l else i)"
  define g where "g = (if ?r < n \<and> ?K m < ?K ?r then ?r else m)"
  have "pick_largest n od es i = Some g"
    unfolding pick_largest_def Let_def g_def
    using rd [of ?l] rd [of ?r] ord bk [of i ?l] bk [of i ?r] bk [of ?l ?r] assms(3) od
    by (cases "?l < n"; cases "?r < n"; cases "?K i < ?K ?l") (simp_all add: m_def)
  moreover have lr: "?l < n \<longrightarrow> ?K ?l \<le> ?K g" "?r < n \<longrightarrow> ?K ?r \<le> ?K g" "?K i \<le> ?K g" by (auto simp: g_def m_def)
  have all: "?K k \<le> ?K g" if "0 < k" "k < n" "parent k = i" for k using ch [OF that(1)] that(2,3) lr by auto
  then have "g = i \<longrightarrow> over_children ?K n i" by (auto simp: over_children_def)
  moreover have "g \<noteq> i \<longrightarrow> g < n \<and> (g = ?l \<or> g = ?r) \<and> ?K i < ?K g" by (auto simp: g_def m_def)
  then have "g \<noteq> i \<longrightarrow> 0 < g \<and> g < n \<and> parent g = i \<and> ?K i < ?K g \<and> (\<forall>k. 0 < k \<and> k < n \<and> parent k = i \<longrightarrow> ?K k \<le> ?K g)"
    using ch [of g] all ord by (metis gr_zeroI not_less_zero)
  ultimately show ?thesis using that by blast
qed

text \<open>What a loop and the final store of the saved entry achieve.\<close>

definition restored :: "u64 \<Rightarrow> nat \<Rightarrow> nat \<Rightarrow> cpudl_item list \<Rightarrow> cpudl_item list option \<Rightarrow> bool" where
  "restored b nr n es0 res \<longleftrightarrow> (\<exists>es1. res = Some es1 \<and> good b nr n es1 \<and> is_heap (keys b es1) n \<and>
     deadlines (hv es1) (iv es1) nr = deadlines (hv es0) (iv es0) nr)"

lemma down_loop_ok:
  assumes "place es i oc od = Some es0" "good b nr n es0" "i < n" "almost (keys b es0) n i" "under_parent (keys b es0) i"
  shows "restored b nr n es0 (case down_loop n od es i of None \<Rightarrow> None | Some (es', j) \<Rightarrow> place es' j oc od)"
  using assms
proof (induction "n - i" arbitrary: es i es0 rule: less_induct)
  case less
  note p = place_Some [OF less.prems(1)] and len = good_length [OF less.prems(2)]
  obtain g where g: "pick_largest n od es i = Some g" "g = i \<longrightarrow> over_children (keys b es0) n i"
    "g \<noteq> i \<longrightarrow> 0 < g \<and> g < n \<and> parent g = i \<and> keys b es0 i < keys b es0 g \<and>
       (\<forall>k. 0 < k \<and> k < n \<and> parent k = i \<longrightarrow> keys b es0 k \<le> keys b es0 g)"
    by (rule pick_spec [OF less.prems(1-3)])
  show ?case
  proof (cases "g = i")
    case True
    have "is_heap (keys b es0) n" using heapI [OF less.prems(4) _ less.prems(5)] g(2) True by simp
    moreover have "down_loop n od es i = Some (es, i)" by (subst down_loop.simps) (simp add: g(1) True)
    ultimately show ?thesis using less.prems(1,2) by (simp add: restored_def)
  next
    case False
    then have gi: "0 < g" "g < n" "parent g = i" "keys b es0 i < keys b es0 g"
      "\<And>k. 0 < k \<Longrightarrow> k < n \<Longrightarrow> parent k = i \<Longrightarrow> keys b es0 k \<le> keys b es0 g" using g(3) by blast+
    have "hv es0 g = hv es g" using p(4) False by simp
    then have cg: "cpu (es ! g) < length es" using good_cpu [OF less.prems(2) gi(2)] p(3) by (simp add: hv_def)
    obtain es' where e': "place es i (cpu (es ! g)) (dl (es ! g)) = Some es'" using place_ok [OF p(1) cg] by blast
    obtain es1 where e1: "place es' g oc od = Some es1"
      using place_ok [of g es' oc od] place_Some(3) [OF e'] p(2,3) len gi(2) by fastforce
    have eg: "elem es g = Some (es ! g)" using gi(2) len p(3) by (simp add: elem_def)
    have lt: "n - g < n - i" using parent_less [OF gi(1)] gi(2,3) by linarith
    note sw = place_swap [OF less.prems(1) e' e1 False]
    have gd: "good b nr n es1 \<and> deadlines (hv es1) (iv es1) nr = deadlines (hv es0) (iv es0) nr \<and>
        keys b es1 = (keys b es0)(i := keys b es0 g, g := keys b es0 i)"
      using good_swap [OF less.prems(2,3) gi(2) False sw] place_Some(3) [OF e'] place_Some(3) [OF e1] p(3) by simp
    have "almost (keys b es1) n g \<and> under_parent (keys b es1) g"
      unfolding conjunct2 [OF conjunct2 [OF gd]] by (rule sift_down_step [OF less.prems(4,5) gi])
    then have "restored b nr n es1 (case down_loop n od es' g of None \<Rightarrow> None | Some (es', j) \<Rightarrow> place es' j oc od)"
      using less.hyps [OF lt e1 conjunct1 [OF gd] gi(2)] by simp
    moreover have "down_loop n od es i = down_loop n od es' g"
      by (subst down_loop.simps) (simp add: False g(1) eg e')
    ultimately show ?thesis using gd by (simp add: restored_def)
  qed
qed

lemma up_loop_ok:
  assumes "place es i oc od = Some es0" "good b nr n es0" "0 < i" "i < n" "almost (keys b es0) n i" "over_children (keys b es0) n i"
  shows "restored b nr n es0 (case up_loop od es i of None \<Rightarrow> None | Some (es', j) \<Rightarrow> place es' j oc od)"
  using assms
proof (induction i arbitrary: es es0 rule: less_induct)
  case (less i)
  note p = place_Some [OF less.prems(1)] and len = good_length [OF less.prems(2)]
  let ?g = "parent i"
  have gi: "?g < i" "?g < n" "?g \<noteq> i" using parent_less [OF less.prems(3)] less.prems(4) by simp_all
  have eg: "elem es ?g = Some (es ! ?g)" using gi(2) len p(3) by (simp add: elem_def)
  have hg: "hv es0 ?g = hv es ?g" "snd (hv es0 i) = od" using p(4) gi(3) by simp_all
  then have bf: "dl_time_before od (dl (es ! ?g)) \<longleftrightarrow> keys b es0 i < keys b es0 ?g"
    using good_before [OF less.prems(2) less.prems(4) gi(2)] by (simp add: hv_def)
  show ?case
  proof (cases "keys b es0 i < keys b es0 ?g")
    case True
    then have "is_heap (keys b es0) n" using heapI [OF less.prems(5,6)] by (simp add: under_parent_def)
    moreover have "up_loop od es i = Some (es, i)" by (subst up_loop.simps) (simp add: eg bf True)
    ultimately show ?thesis using less.prems(1,2) by (simp add: restored_def)
  next
    case False
    have cg: "cpu (es ! ?g) < length es" using good_cpu [OF less.prems(2) gi(2)] p(3) hg(1) by (simp add: hv_def)
    obtain es' where e': "place es i (cpu (es ! ?g)) (dl (es ! ?g)) = Some es'" using place_ok [OF p(1) cg] by blast
    obtain es1 where e1: "place es' ?g oc od = Some es1"
      using place_ok [of ?g es' oc od] place_Some(3) [OF e'] p(2,3) len gi(2) by fastforce
    note sw = place_swap [OF less.prems(1) e' e1 gi(3)]
    have gd: "good b nr n es1 \<and> deadlines (hv es1) (iv es1) nr = deadlines (hv es0) (iv es0) nr \<and>
        keys b es1 = (keys b es0)(i := keys b es0 ?g, ?g := keys b es0 i)"
      using good_swap [OF less.prems(2,4) gi(2,3) sw] place_Some(3) [OF e'] place_Some(3) [OF e1] p(3) by simp
    then have up: "almost (keys b es1) n ?g \<and> over_children (keys b es1) n ?g"
      using sift_up_step [OF less.prems(5,6,3,4)] False by simp
    show ?thesis
    proof (cases "?g = 0")
      case True
      then have "is_heap (keys b es1) n" using heapI [of "keys b es1" n ?g] up by (simp add: under_parent_def)
      moreover have "up_loop od es i = Some (es', ?g)" using False by (subst up_loop.simps) (simp add: eg [unfolded True] bf [unfolded True] e' [unfolded True] True)
      ultimately show ?thesis using gd e1 by (simp add: restored_def)
    next
      case g0: False
      then have "restored b nr n es1 (case up_loop od es' ?g of None \<Rightarrow> None | Some (es', j) \<Rightarrow> place es' j oc od)"
        using less.IH [OF gi(1) e1 _ _ gi(2)] gd up by blast
      moreover have "up_loop od es i = up_loop od es' ?g" using False by (subst up_loop.simps) (simp add: eg bf e' g0)
      ultimately show ?thesis using gd by (simp add: restored_def)
    qed
  qed
qed

lemma place_same:
  assumes "good b nr n es" "i < n"
  shows "place es i (cpu (es ! i)) (dl (es ! i)) = Some es"
proof -
  have "i < length es" "cpu (es ! i) < length es" "idx (es ! cpu (es ! i)) = int i"
    using assms good_length [OF assms(1)] by (auto simp: good_def consistent_def hv_def iv_def)
  moreover have "es[k := (es ! k)\<lparr>idx := int i\<rparr>] = es" if "idx (es ! k) = int i" for k by (simp add: that [symmetric])
  ultimately show ?thesis by (simp add: place_def Let_def)
qed

lemma heapify_ok:
  assumes "good b nr n es" "i < n" "almost (keys b es) n i"
  shows "restored b nr n es (cpudl_heapify n es i)"
    and "over_children (keys b es) n i \<Longrightarrow> restored b nr n es (cpudl_heapify_up es i)"
proof -
  note ps = place_same [OF assms(1,2)] and len = good_length [OF assms(1)]
  have e: "elem es i = Some (es ! i)" using assms(2) len by (simp add: elem_def)
  have down: "restored b nr n es (cpudl_heapify_down n es i)" if u: "under_parent (keys b es) i"
  proof (cases "left_child i \<ge> n")
    case True
    then have "\<not> (0 < k \<and> k < n \<and> parent k = i)" for k
      using parent_children [of k i] by (auto simp: left_child_def right_child_def)
    then have "over_children (keys b es) n i" by (auto simp: over_children_def)
    then show ?thesis using True e heapI [OF assms(3) _ u] assms(1) by (simp add: cpudl_heapify_down_def restored_def)
  next
    case False
    then show ?thesis using down_loop_ok [OF ps assms u] e by (simp add: cpudl_heapify_down_def)
  qed
  have up: "restored b nr n es (cpudl_heapify_up es i)" if o: "over_children (keys b es) n i"
  proof (cases "i = 0")
    case True
    then show ?thesis using heapI [OF assms(3) o] e assms(1) by (simp add: cpudl_heapify_up_def restored_def under_parent_def)
  next
    case False
    then show ?thesis using up_loop_ok [OF ps assms(1) _ assms(2,3) o] e by (simp add: cpudl_heapify_up_def)
  qed
  then show "over_children (keys b es) n i \<Longrightarrow> restored b nr n es (cpudl_heapify_up es i)" .
  show "restored b nr n es (cpudl_heapify n es i)"
  proof (cases "i = 0")
    case True
    then show ?thesis using down by (simp add: cpudl_heapify_def under_parent_def)
  next
    case False
    then have pn: "parent i < n" using parent_less [of i] assms(2) by simp
    then have ep: "elem es (parent i) = Some (es ! parent i)" using len by (simp add: elem_def)
    have bf: "dl_time_before (dl (es ! parent i)) (dl (es ! i)) \<longleftrightarrow> keys b es (parent i) < keys b es i"
      using good_before [OF assms(1) pn assms(2)] by (simp add: hv_def)
    show ?thesis
    proof (cases "keys b es (parent i) < keys b es i")
      case True
      then have "over_children (keys b es) n i" using assms(3) False unfolding almost_def over_children_def by fastforce
      then show ?thesis using up False ep e bf True by (simp add: cpudl_heapify_def)
    next
      case f: False
      then show ?thesis using down False ep e bf by (simp add: cpudl_heapify_def under_parent_def)
    qed
  qed
qed

section \<open>The operations on the map of deadlines\<close>

text \<open>Everything that holds between calls, for deadlines in the window above \<open>b\<close>.\<close>

definition cpudl_inv :: "u64 \<Rightarrow> nat \<Rightarrow> cpudl \<Rightarrow> bool" where
  "cpudl_inv b nr cp \<longleftrightarrow> good b nr (heap_size cp) (elements cp) \<and> is_heap (keys b (elements cp)) (heap_size cp)"

definition deadline_map :: "cpudl \<Rightarrow> nat \<Rightarrow> u64 option" where
  "deadline_map cp = deadlines (hv (elements cp)) (iv (elements cp)) (length (elements cp))"

lemma restoredD:
  assumes "restored b nr n es0 res"
  obtains es1 where "res = Some es1" "good b nr n es1" "is_heap (keys b es1) n" "length es1 = nr"
    "deadlines (hv es1) (iv es1) nr = deadlines (hv es0) (iv es0) nr"
  using assms good_length by (auto simp: restored_def)

text \<open>Changing one value of a heap leaves a heap but for that position.\<close>

lemma almost_update:
  assumes "is_heap K n" "j < n"
  shows "almost (K(j := x)) n j"
proof -
  have "K i \<le> K (parent j)" if "0 < i" "i < n" "parent i = j" "0 < j" for i
    using assms that unfolding is_heap_def by (metis order_trans)
  moreover have "parent j \<noteq> j" if "0 < j" using parent_less [OF that] by simp
  moreover have "parent i \<noteq> i" if "0 < i" for i using parent_less [OF that] by simp
  ultimately show ?thesis using assms(1) unfolding almost_def is_heap_def by (metis fun_upd_other)
qed

lemma room_for_new:
  assumes "consistent H I n nr" "c < nr" "I c = IDX_INVALID"
  shows "n < nr"
proof -
  have A: "fst (H k) < nr" "I (fst (H k)) = int k" if "k < n" for k using assms(1) that by (auto simp: consistent_def)
  have "inj_on (fst \<circ> H) {..<n}" using A(2) by (auto simp: inj_on_def) (metis of_nat_eq_iff)
  moreover have "(fst \<circ> H) ` {..<n} \<subseteq> {..<nr} - {c}" using A assms(3) by (fastforce simp: IDX_INVALID_def)
  ultimately have "card {..<n} \<le> card ({..<nr} - {c})" by (rule card_inj_on_le) simp
  then show ?thesis using assms(2) by simp
qed

lemma consistent_new:
  fixes d :: u64
  assumes "consistent H I n nr" "c < nr" "I c = IDX_INVALID"
  defines "H' \<equiv> H(n := (c, d))" and "I' \<equiv> I(c := int n)"
  shows "consistent H' I' (Suc n) nr \<and> deadlines H' I' nr = (deadlines H I nr)(c \<mapsto> d)"
proof -
  have A: "fst (H k) < nr" "I (fst (H k)) = int k" "fst (H k) \<noteq> c" if "k < n" for k
    using assms(1,3) that by (auto simp: consistent_def IDX_INVALID_def)
  have "I' (fst (H' k)) = int k \<and> fst (H' k) < nr" if "k < Suc n" for k
    using that A assms(2) by (cases "k = n") (simp_all add: H'_def I'_def)
  moreover have "I' x = IDX_INVALID \<or> (\<exists>i<Suc n. I' x = int i \<and> fst (H' i) = x)" if x: "x < nr" for x
  proof (cases "x = c")
    case False
    consider "I x = IDX_INVALID" | i where "i < n" "I x = int i" "fst (H i) = x" using assms(1) x unfolding consistent_def by blast
    then show ?thesis
    proof cases
      case 2
      then show ?thesis using False by (intro disjI2 exI [of _ i]) (simp add: H'_def I'_def)
    qed (simp add: False I'_def)
  qed (simp add: H'_def I'_def)
  moreover have "deadlines H' I' nr x = ((deadlines H I nr)(c \<mapsto> d)) x" for x
  proof (cases "x = c")
    case False
    have "nat (I x) \<noteq> n" if "x < nr" "I x \<noteq> IDX_INVALID"
      using assms(1) that unfolding consistent_def by (metis nat_int order_less_irrefl)
    then show ?thesis using False by (simp add: deadlines_def H'_def I'_def)
  qed (use assms(2) in \<open>simp add: deadlines_def H'_def I'_def IDX_INVALID_def\<close>)
  ultimately show ?thesis using room_for_new [OF assms(1-3)] by (auto simp: consistent_def)
qed

lemma consistent_update:
  assumes "consistent H I n nr" "i < n"
  shows "consistent (H(i := (fst (H i), d))) I n nr \<and> deadlines (H(i := (fst (H i), d))) I nr = (deadlines H I nr)(fst (H i) \<mapsto> d)"
proof -
  have A: "fst (H i) < nr" "I (fst (H i)) = int i" using assms by (auto simp: consistent_def)
  have c: "consistent (H(i := (fst (H i), d))) I n nr" using assms by (auto simp: consistent_def)
  have "nat (I x) \<noteq> i" if "x < nr" "I x \<noteq> IDX_INVALID" "x \<noteq> fst (H i)" for x
    using assms(1) that unfolding consistent_def by (metis nat_int)
  then have "deadlines (H(i := (fst (H i), d))) I nr x = ((deadlines H I nr)(fst (H i) \<mapsto> d)) x" for x
    using A by (cases "x = fst (H i)") (simp_all add: deadlines_def IDX_INVALID_def)
  then show ?thesis using c by blast
qed

lemma consistent_remove:
  assumes "consistent H I n nr" "i < n"
  defines "H' \<equiv> H(i := H (n - 1))" and "I' \<equiv> I(fst (H (n - 1)) := int i, fst (H i) := IDX_INVALID)"
  shows "consistent H' I' (n - 1) nr \<and> deadlines H' I' nr = (deadlines H I nr)(fst (H i) := None)"
proof -
  have A: "fst (H k) < nr" "I (fst (H k)) = int k" if "k < n" for k using assms(1) that by (auto simp: consistent_def)
  have inj: "fst (H k) = fst (H l) \<longleftrightarrow> k = l" if "k < n" "l < n" for k l using A that by (metis of_nat_eq_iff)
  have l: "n - 1 < n" using assms(2) by simp
  have "I' (fst (H' k)) = int k \<and> fst (H' k) < nr" if "k < n - 1" for k
    using that A [of k] A [OF l] inj [of k i] inj [of k "n - 1"] inj [OF l assms(2)] assms(2)
    by (cases "k = i") (simp_all add: H'_def I'_def)
  moreover have B: "I' x = IDX_INVALID \<or> (\<exists>k<n - 1. I' x = int k \<and> fst (H' k) = x \<and> I x \<noteq> IDX_INVALID \<and> snd (H' k) = snd (H (nat (I x))))"
    "x \<noteq> fst (H i) \<Longrightarrow> I' x = IDX_INVALID \<longleftrightarrow> I x = IDX_INVALID" if x: "x < nr" for x
  proof -
    consider "I x = IDX_INVALID" | k where "k < n" "I x = int k" "fst (H k) = x" using assms(1) x unfolding consistent_def by blast
    then have "(I' x = IDX_INVALID \<or> (\<exists>k<n - 1. I' x = int k \<and> fst (H' k) = x \<and> I x \<noteq> IDX_INVALID \<and> snd (H' k) = snd (H (nat (I x))))) \<and>
      (x \<noteq> fst (H i) \<longrightarrow> (I' x = IDX_INVALID \<longleftrightarrow> I x = IDX_INVALID))"
    proof cases
      case 1
      then have "x \<noteq> fst (H i)" "x \<noteq> fst (H (n - 1))" using A [OF assms(2)] A [OF l] by (auto simp: IDX_INVALID_def)
      then show ?thesis using 1 by (simp add: I'_def)
    next
      case 2
      consider "k = i" | "k \<noteq> i" "k = n - 1" | "k \<noteq> i" "k < n - 1" using 2 by linarith
      then show ?thesis
      proof cases
        case 1
        then show ?thesis using 2 by (simp add: I'_def)
      next
        case c2: 2
        then have "x \<noteq> fst (H i)" "i < n - 1" using inj [OF 2(1) assms(2)] 2 assms(2) by auto
        moreover have "nat (I x) = n - 1" using 2 c2 by simp
        ultimately show ?thesis using 2 c2 by (auto simp: H'_def I'_def IDX_INVALID_def)
      next
        case 3
        then have "x \<noteq> fst (H i)" "x \<noteq> fst (H (n - 1))" using inj [OF 2(1) assms(2)] inj [OF 2(1) l] 2 by auto
        then show ?thesis using 2 3 by (auto simp: H'_def I'_def IDX_INVALID_def intro!: exI [of _ k])
      qed
    qed
    then show "I' x = IDX_INVALID \<or> (\<exists>k<n - 1. I' x = int k \<and> fst (H' k) = x \<and> I x \<noteq> IDX_INVALID \<and> snd (H' k) = snd (H (nat (I x))))"
      "x \<noteq> fst (H i) \<Longrightarrow> I' x = IDX_INVALID \<longleftrightarrow> I x = IDX_INVALID" by blast+
  qed
  moreover have "deadlines H' I' nr x = ((deadlines H I nr)(fst (H i) := None)) x" for x
  proof (cases "x = fst (H i)")
    case True
    then show ?thesis by (simp add: deadlines_def I'_def)
  next
    case False
    then show ?thesis using B [of x] by (auto simp: deadlines_def)
  qed
  ultimately show ?thesis using assms(1) by (auto simp: consistent_def)
qed

lemma index_of:
  assumes "good b nr n es" "c < nr" "idx (es ! c) \<noteq> IDX_INVALID"
  obtains i where "i < n" "nat (idx (es ! c)) = i" "fst (hv es i) = c"
  using assms unfolding good_def consistent_def iv_def by (metis nat_int)

lemma good_elem: "good b nr n es \<Longrightarrow> c < nr \<Longrightarrow> elem es c = Some (es ! c)"
  by (simp add: good_def elem_def)

lemma cpudl_set_new:
  assumes "cpudl_inv b nr cp" "c < nr" "in_window b d" "idx (elements cp ! c) = IDX_INVALID"
  obtains es where "cpudl_set cp c d = Some (cp\<lparr>heap_size := heap_size cp + 1, elements := es, free_cpus := free_cpus cp - {c}\<rparr>)"
    "good b nr (heap_size cp + 1) es" "is_heap (keys b es) (heap_size cp + 1)"
    "deadlines (hv es) (iv es) nr = (deadline_map cp)(c \<mapsto> d)"
proof -
  let ?es = "elements cp" and ?n = "heap_size cp"
  have g: "good b nr ?n ?es" and h: "is_heap (keys b ?es) ?n" using assms(1) by (simp_all add: cpudl_inv_def)
  have co: "consistent (hv ?es) (iv ?es) ?n nr" and ln: "length ?es = nr" using g by (simp_all add: good_def)
  have iv: "iv ?es c = IDX_INVALID" using assms(4) by (simp add: iv_def)
  have "?n < nr" by (rule room_for_new [OF co assms(2) iv])
  then obtain es' where e: "place ?es ?n c d = Some es'" using place_ok [of ?n ?es c d] assms(2) ln by blast
  note p = place_Some [OF e]
  have cn: "consistent (hv es') (iv es') (Suc ?n) nr \<and> deadlines (hv es') (iv es') nr = (deadlines (hv ?es) (iv ?es) nr)(c \<mapsto> d)"
    unfolding p(4,5) by (rule consistent_new [OF co assms(2) iv])
  have g': "good b nr (Suc ?n) es'" using g cn p(3,4) ln assms(3) by (simp add: good_def less_Suc_eq)
  have k: "keys b es' i = keys b ?es i" if "i < ?n" for i using that p(4) by (simp add: keys_def)
  have no: "\<not> (0 < i \<and> i < Suc ?n \<and> parent i = ?n)" for i using parent_less [of i] by auto
  have "keys b es' i \<le> keys b es' (parent i)" if "0 < i" "i < Suc ?n" "i \<noteq> ?n" for i
    using h k [of i] k [of "parent i"] that parent_less [of i] by (simp add: is_heap_def)
  then have "almost (keys b es') (Suc ?n) ?n" "over_children (keys b es') (Suc ?n) ?n" using no by (auto simp: almost_def over_children_def)
  then have "restored b nr (Suc ?n) es' (cpudl_heapify_up es' ?n)" using heapify_ok(2) [OF g'] by simp
  then obtain es1 where r: "cpudl_heapify_up es' ?n = Some es1" "good b nr (Suc ?n) es1" "is_heap (keys b es1) (Suc ?n)"
    "deadlines (hv es1) (iv es1) nr = deadlines (hv es') (iv es') nr" by (rule restoredD)
  have "cpudl_set cp c d = Some (cp\<lparr>heap_size := ?n + 1, elements := es1, free_cpus := free_cpus cp - {c}\<rparr>)"
    using good_elem [OF g assms(2)] assms(4) e r(1) by (simp add: cpudl_set_def)
  then show ?thesis using that r cn ln by (simp add: deadline_map_def)
qed

lemma cpudl_set_old:
  assumes "cpudl_inv b nr cp" "c < nr" "in_window b d" "idx (elements cp ! c) \<noteq> IDX_INVALID"
  obtains es where "cpudl_set cp c d = Some (cp\<lparr>elements := es\<rparr>)" "good b nr (heap_size cp) es"
    "is_heap (keys b es) (heap_size cp)" "deadlines (hv es) (iv es) nr = (deadline_map cp)(c \<mapsto> d)"
proof -
  let ?es = "elements cp" and ?n = "heap_size cp"
  have g: "good b nr ?n ?es" and h: "is_heap (keys b ?es) ?n" using assms(1) by (simp_all add: cpudl_inv_def)
  have co: "consistent (hv ?es) (iv ?es) ?n nr" and ln: "length ?es = nr" using g by (simp_all add: good_def)
  obtain i where i: "i < ?n" "nat (idx (?es ! c)) = i" "fst (hv ?es i) = c" by (rule index_of [OF g assms(2,4)])
  define es' where "es' = ?es[i := (?es ! i)\<lparr>dl := d\<rparr>]"
  have il: "i < length ?es" using i(1) good_length [OF g] by simp
  have v: "hv es' = (hv ?es)(i := (fst (hv ?es i), d))" "iv es' = iv ?es" "length es' = nr"
    using il ln by (auto simp: es'_def hv_def iv_def nth_list_update fun_eq_iff)
  have cn: "consistent (hv es') (iv es') ?n nr \<and> deadlines (hv es') (iv es') nr = (deadlines (hv ?es) (iv ?es) nr)(c \<mapsto> d)"
    unfolding v(1,2) using consistent_update [OF co i(1)] i(3) by simp
  have g': "good b nr ?n es'" using g cn v assms(3) by (simp add: good_def)
  have "keys b es' = (keys b ?es)(i := key b d)" using v(1) by (auto simp: keys_def)
  then have "restored b nr ?n es' (cpudl_heapify ?n es' i)"
    using heapify_ok(1) [OF g' i(1)] almost_update [OF h i(1)] by simp
  then obtain es1 where r: "cpudl_heapify ?n es' i = Some es1" "good b nr ?n es1" "is_heap (keys b es1) ?n"
    "deadlines (hv es1) (iv es1) nr = deadlines (hv es') (iv es') nr" by (rule restoredD)
  have "cpudl_set cp c d = Some (cp\<lparr>elements := es1\<rparr>)"
    using good_elem [OF g assms(2)] assms(4) i(2) il r(1) by (simp add: cpudl_set_def Let_def es'_def)
  then show ?thesis using that r cn ln by (simp add: deadline_map_def)
qed

lemma set_idx_views:
  assumes "c < length es"
  shows "hv (es[c := (es ! c)\<lparr>idx := x\<rparr>]) = hv es" "iv (es[c := (es ! c)\<lparr>idx := x\<rparr>]) = (iv es)(c := x)"
  using assms by (auto simp: hv_def iv_def nth_list_update fun_eq_iff)

lemma heapify_last:
  assumes "good b nr n es" "is_heap (keys b es) n" "i < n" "hv es2 = hv es" "length es2 = nr"
  shows "cpudl_heapify i es2 i = Some es2"
proof -
  have il: "i < length es2" using assms(3,5) good_length [OF assms(1)] by simp
  then have ei: "elem es2 i = Some (es2 ! i)" by (simp add: elem_def)
  then have dn: "cpudl_heapify_down i es2 i = Some es2" by (simp add: cpudl_heapify_down_def left_child_def)
  show ?thesis
  proof (cases "i = 0")
    case True
    then show ?thesis using dn by (simp add: cpudl_heapify_def)
  next
    case False
    then have p: "parent i < i" "parent i < n" using parent_less [of i] assms(3) by simp_all
    then have ep: "elem es2 (parent i) = Some (es2 ! parent i)" using il by (simp add: elem_def)
    have "dl (es2 ! k) = snd (hv es k)" for k using fun_cong [OF assms(4), of k] by (simp add: hv_def)
    moreover have "keys b es i \<le> keys b es (parent i)" using assms(2,3) False by (simp add: is_heap_def)
    ultimately have "\<not> dl_time_before (dl (es2 ! parent i)) (dl (es2 ! i))" using good_before [OF assms(1) p(2) assms(3)] by simp
    then show ?thesis using False ei ep dn by (simp add: cpudl_heapify_def)
  qed
qed

lemma cpudl_clear_in:
  assumes "cpudl_inv b nr cp" "c < nr" "idx (elements cp ! c) \<noteq> IDX_INVALID"
  obtains es where "cpudl_clear cp c =
      Some (cp\<lparr>heap_size := heap_size cp - 1, elements := es, free_cpus := insert c (free_cpus cp)\<rparr>)"
    "good b nr (heap_size cp - 1) es" "is_heap (keys b es) (heap_size cp - 1)"
    "deadlines (hv es) (iv es) nr = (deadline_map cp)(c := None)"
proof -
  let ?es = "elements cp" and ?n = "heap_size cp"
  have g: "good b nr ?n ?es" and h: "is_heap (keys b ?es) ?n" using assms(1) by (simp_all add: cpudl_inv_def)
  have co: "consistent (hv ?es) (iv ?es) ?n nr" and ln: "length ?es = nr" "?n \<le> nr" using g by (simp_all add: good_def consistent_def)
  obtain i where i: "i < ?n" "nat (idx (?es ! c)) = i" "fst (hv ?es i) = c" by (rule index_of [OF g assms(2,3)])
  let ?e = "?es ! (?n - 1)"
  have l: "?n - 1 < ?n" using i(1) by simp
  have el: "elem ?es (?n - 1) = Some ?e" using l ln by (simp add: elem_def)
  have "i < length ?es" "cpu ?e < length ?es" using i(1) ln good_cpu [OF g l] by (simp_all add: hv_def)
  then obtain es1 where e1: "place ?es i (cpu ?e) (dl ?e) = Some es1" using place_ok by blast
  note p = place_Some [OF e1]
  define es2 where "es2 = es1[c := (es1 ! c)\<lparr>idx := IDX_INVALID\<rparr>]"
  have v: "hv es2 = (hv ?es)(i := hv ?es (?n - 1))" "iv es2 = (iv ?es)(fst (hv ?es (?n - 1)) := int i, c := IDX_INVALID)" "length es2 = nr"
    using set_idx_views [of c es1 IDX_INVALID] assms(2) p(3-5) ln by (simp_all add: es2_def hv_def)
  have cn: "consistent (hv es2) (iv es2) (?n - 1) nr \<and> deadlines (hv es2) (iv es2) nr = (deadlines (hv ?es) (iv ?es) nr)(c := None)"
    unfolding v(1,2) using consistent_remove [OF co i(1)] i(3) by simp
  have g': "good b nr (?n - 1) es2" using g cn v l by (simp add: good_def)
  have k: "keys b es2 = (keys b ?es)(i := keys b ?es (?n - 1))" using v(1) by (auto simp: keys_def)
  have "k < ?n - 1 \<Longrightarrow> k < ?n" for k by simp
  then have h': "is_heap (keys b ?es) (?n - 1)" using h unfolding is_heap_def by blast
  have "restored b nr (?n - 1) es2 (cpudl_heapify (?n - 1) es2 i)"
  proof (cases "i < ?n - 1")
    case True
    then show ?thesis using heapify_ok(1) [OF g' True] almost_update [OF h' True] k by simp
  next
    case False
    then have il: "i = ?n - 1" using i(1) by simp
    have "hv es2 = hv ?es" using v(1) il by simp
    then have "cpudl_heapify (?n - 1) es2 i = Some es2" using heapify_last [OF g h i(1) _ v(3)] il by simp
    then show ?thesis using g' h' k il by (simp add: restored_def)
  qed
  then obtain es3 where r: "cpudl_heapify (?n - 1) es2 i = Some es3" "good b nr (?n - 1) es3" "is_heap (keys b es3) (?n - 1)"
    "deadlines (hv es3) (iv es3) nr = deadlines (hv es2) (iv es2) nr" by (rule restoredD)
  have "cpudl_clear cp c = Some (cp\<lparr>heap_size := ?n - 1, elements := es3, free_cpus := insert c (free_cpus cp)\<rparr>)"
    using good_elem [OF g assms(2)] assms(3) i(1,2) el e1 r(1) by (simp add: cpudl_clear_def Let_def es2_def)
  then show ?thesis using that r cn ln by (simp add: deadline_map_def)
qed

text \<open>The operations as steps, with whether they stayed within the array.\<close>

datatype cpudl_op = Set nat u64 | Clear nat | Set_Free nat | Clear_Free nat

definition cpudl_run :: "cpudl option \<Rightarrow> cpudl \<Rightarrow> bool \<times> cpudl" where
  "cpudl_run res cp = (case res of None \<Rightarrow> (False, cp) | Some cp' \<Rightarrow> (True, cp'))"

fun cpudl_step :: "cpudl_op \<Rightarrow> cpudl \<Rightarrow> bool \<times> cpudl" where
  "cpudl_step (Set c d) cp = cpudl_run (cpudl_set cp c d) cp"
| "cpudl_step (Clear c) cp = cpudl_run (cpudl_clear cp c) cp"
| "cpudl_step (Set_Free c) cp = (True, cpudl_set_freecpu cp c)"
| "cpudl_step (Clear_Free c) cp = (True, cpudl_clear_freecpu cp c)"

text \<open>The specification: a map from CPUs to deadlines.\<close>

fun spec_step :: "cpudl_op \<Rightarrow> (nat \<rightharpoonup> u64) \<Rightarrow> bool \<times> (nat \<rightharpoonup> u64)" where
  "spec_step (Set c d) m = (True, m(c \<mapsto> d))"
| "spec_step (Clear c) m = (True, m(c := None))"
| "spec_step (Set_Free c) m = (True, m)"
| "spec_step (Clear_Free c) m = (True, m)"

fun allowed_op :: "u64 \<Rightarrow> nat \<Rightarrow> cpudl_op \<Rightarrow> bool" where
  "allowed_op b nr (Set c d) = (c < nr \<and> in_window b d)"
| "allowed_op b nr (Clear c) = (c < nr)"
| "allowed_op b nr (Set_Free c) = True"
| "allowed_op b nr (Clear_Free c) = True"

lemma inv_length: "cpudl_inv b nr cp \<Longrightarrow> length (elements cp) = nr"
  by (simp add: cpudl_inv_def good_def)

lemma cpudl_set_sim:
  assumes "cpudl_inv b nr cp" "c < nr" "in_window b d"
  shows "\<exists>cp'. cpudl_set cp c d = Some cp' \<and> cpudl_inv b nr cp' \<and> deadline_map cp' = (deadline_map cp)(c \<mapsto> d)"
proof (cases "idx (elements cp ! c) = IDX_INVALID")
  case True
  show ?thesis by (rule cpudl_set_new [OF assms True]) (auto simp: cpudl_inv_def deadline_map_def dest: good_length)
next
  case False
  show ?thesis by (rule cpudl_set_old [OF assms False]) (auto simp: cpudl_inv_def deadline_map_def dest: good_length)
qed

lemma cpudl_clear_sim:
  assumes "cpudl_inv b nr cp" "c < nr"
  shows "\<exists>cp'. cpudl_clear cp c = Some cp' \<and> cpudl_inv b nr cp' \<and> deadline_map cp' = (deadline_map cp)(c := None)"
proof (cases "idx (elements cp ! c) = IDX_INVALID")
  case True
  then have "cpudl_clear cp c = Some cp" "deadline_map cp c = None"
    using assms inv_length [OF assms(1)] by (simp_all add: cpudl_clear_def elem_def deadline_map_def deadlines_def iv_def)
  then show ?thesis using assms(1) by (auto simp: fun_eq_iff)
next
  case False
  show ?thesis by (rule cpudl_clear_in [OF assms False]) (auto simp: cpudl_inv_def deadline_map_def dest: good_length)
qed

interpretation cpudl_map: simulation cpudl_step spec_step "cpudl_inv b nr" deadline_map "allowed_op b nr" for b nr
proof
  fix cp op assume a: "cpudl_inv b nr cp" "allowed_op b nr op"
  show "cpudl_inv b nr (snd (cpudl_step op cp)) \<and> spec_step op (deadline_map cp) = (fst (cpudl_step op cp), deadline_map (snd (cpudl_step op cp)))"
    using a cpudl_set_sim [of b nr cp] cpudl_clear_sim [of b nr cp]
    by (cases op) (force simp: cpudl_run_def cpudl_set_freecpu_def cpudl_clear_freecpu_def cpudl_inv_def deadline_map_def)+
qed

section \<open>Properties\<close>

lemma cpudl_init_inv:
  "cpudl_init nr True True = (0, Some cp) \<Longrightarrow> cpudl_inv b nr cp \<and> deadline_map cp = Map.empty"
  by (auto simp: cpudl_init_def cpudl_inv_def good_def consistent_def is_heap_def deadline_map_def deadlines_def iv_def fun_eq_iff)

lemma map_of_heap:
  assumes "cpudl_inv b nr cp"
  shows "deadline_map cp c = Some d \<longleftrightarrow> (\<exists>i<heap_size cp. hv (elements cp) i = (c, d))"
proof -
  let ?H = "hv (elements cp)" and ?I = "iv (elements cp)"
  have co: "consistent ?H ?I (heap_size cp) nr" "length (elements cp) = nr" using assms by (simp_all add: cpudl_inv_def good_def)
  have A: "fst (?H i) < nr" "?I (fst (?H i)) = int i" if "i < heap_size cp" for i using co(1) that by (auto simp: consistent_def)
  show ?thesis
  proof
    assume "deadline_map cp c = Some d"
    then have c: "c < nr" "?I c \<noteq> IDX_INVALID" "d = snd (?H (nat (?I c)))"
      using co(2) by (auto simp: deadline_map_def deadlines_def split: if_splits)
    then obtain i where "i < heap_size cp" "?I c = int i" "fst (?H i) = c" using co(1) unfolding consistent_def by blast
    then show "\<exists>i<heap_size cp. ?H i = (c, d)" using c(3) by (auto intro!: exI [of _ i] simp: prod_eq_iff)
  next
    assume "\<exists>i<heap_size cp. ?H i = (c, d)"
    then obtain i where i: "i < heap_size cp" "?H i = (c, d)" by blast
    then show "deadline_map cp c = Some d" using A [OF i(1)] co(2) by (simp add: deadline_map_def deadlines_def IDX_INVALID_def)
  qed
qed

lemma maximum_latest:
  assumes "cpudl_inv b nr cp" "0 < heap_size cp"
  obtains e where "elem (elements cp) 0 = Some e" "deadline_map cp (cpu e) = Some (dl e)"
    "\<And>c d. deadline_map cp c = Some d \<Longrightarrow> \<not> dl_time_before (dl e) d"
proof -
  have g: "good b nr (heap_size cp) (elements cp)" and h: "is_heap (keys b (elements cp)) (heap_size cp)"
    using assms(1) by (simp_all add: cpudl_inv_def)
  let ?e = "elements cp ! 0"
  have "elem (elements cp) 0 = Some ?e" using good_length [OF g] assms(2) by (simp add: elem_def)
  moreover have "deadline_map cp (cpu ?e) = Some (dl ?e)" unfolding map_of_heap [OF assms(1)] using assms(2) by (auto simp: hv_def)
  moreover have "\<not> dl_time_before (dl ?e) d" if d: "deadline_map cp c = Some d" for c d
  proof -
    obtain i where i: "i < heap_size cp" "hv (elements cp) i = (c, d)" using d map_of_heap [OF assms(1)] by blast
    then show ?thesis using good_before [OF g assms(2) i(1)] heap_top [OF h i(1)] by (simp add: hv_def)
  qed
  ultimately show ?thesis using that by blast
qed

lemma empty_heap:
  assumes "cpudl_inv b nr cp"
  shows "heap_size cp = 0 \<longleftrightarrow> deadline_map cp = Map.empty"
proof
  assume "deadline_map cp = Map.empty"
  then have "\<not> (\<exists>i<heap_size cp. hv (elements cp) i = (c, d))" for c d using map_of_heap [OF assms, of c d] by simp
  then show "heap_size cp = 0" by (metis gr0I surj_pair)
next
  assume "heap_size cp = 0"
  then show "deadline_map cp = Map.empty" using map_of_heap [OF assms] by (metis ext not_less0 option.exhaust)
qed

text \<open>C22: on every sequence of calls with existing CPUs and deadlines within half of the 64-bit range, starting from
  an initialised structure, no call leaves the array, the heap stands for exactly the map from CPUs
  to deadlines that the calls describe, and its first entry is a CPU with the latest deadline.\<close>

theorem cpudl_refines_map:
  assumes "cpudl_init nr True True = (0, Some cp)" "list_all (allowed_op b nr) ops"
  shows "case run_ops cpudl_step ops cp of (oks, cp') \<Rightarrow>
    list_all id oks \<and> run_ops spec_step ops Map.empty = (oks, deadline_map cp') \<and>
    (deadline_map cp' \<noteq> Map.empty \<longrightarrow> (\<exists>c d. cpudl_maximum cp' = Some c \<and> deadline_map cp' c = Some d \<and>
       (\<forall>c' d'. deadline_map cp' c' = Some d' \<longrightarrow> \<not> dl_time_before d d')))"
proof -
  obtain oks cp' where r: "run_ops cpudl_step ops cp = (oks, cp')" by fastforce
  have i: "cpudl_inv b nr cp" "deadline_map cp = Map.empty" using cpudl_init_inv [OF assms(1)] by simp_all
  have sim: "cpudl_inv b nr cp'" "run_ops spec_step ops Map.empty = (oks, deadline_map cp')"
    using cpudl_map.run_sim [OF i(1) assms(2)] r i(2) by simp_all
  have "list_all id (fst (run_ops spec_step ops m))" for m
  proof (induction ops arbitrary: m)
    case (Cons op ops)
    then show ?case by (cases op) (simp_all add: case_prod_beta)
  qed simp
  then have "list_all id oks" using sim(2) by (metis fst_conv)
  moreover have "\<exists>c d. cpudl_maximum cp' = Some c \<and> deadline_map cp' c = Some d \<and>
      (\<forall>c' d'. deadline_map cp' c' = Some d' \<longrightarrow> \<not> dl_time_before d d')" if "deadline_map cp' \<noteq> Map.empty"
  proof -
    have "0 < heap_size cp'" using empty_heap [OF sim(1)] that by simp
    then show ?thesis by (rule maximum_latest [OF sim(1)]) (auto simp: cpudl_maximum_def)
  qed
  ultimately show ?thesis using r sim(2) by simp
qed

theorem cpudl_refines_map_witness:
  "deadline_map (snd (run_ops cpudl_step [Set 0 5, Set 1 9, Set 0 7, Clear 1]
    \<lparr>heap_size = 0, free_cpus = {}, elements = replicate 2 \<lparr>dl = 0, cpu = 0, idx = - 1\<rparr>\<rparr>)) = [0 \<mapsto> 7]"
  using cpudl_refines_map [of 2 "\<lparr>heap_size = 0, free_cpus = {}, elements = replicate 2 \<lparr>dl = 0, cpu = 0, idx = - 1\<rparr>\<rparr>" 0
      "[Set 0 5, Set 1 9, Set 0 7, Clear 1]"]
  by (auto simp: cpudl_init_def IDX_INVALID_def in_window_def key_def fun_upd_twist split: prod.splits)




text \<open>When no CPU has a deadline the search still reads the first entry, which may be left over.\<close>

lemma cpudl_find_stale:
  "\<exists>cp. snd (run_ops cpudl_step [Set 0 5, Clear 0] \<lparr>heap_size = 0, free_cpus = {}, elements = [\<lparr>dl = 0, cpu = 0, idx = - 1\<rparr>]\<rparr>) = cp \<and>
     heap_size cp = 0 \<and> cpudl_find cp False (\<lambda>c. True) (\<lambda>c. 1) 0 {0} 1 False = Some (1, None)"
  by (rule exI, rule conjI [OF refl]) code_simp

end
