(* ===== verification/Semaphore.thy ===== *)
theory Semaphore
  imports Prelude
begin

text \<open>
  Counting semaphores (kernel/locking/semaphore.c). Every section that runs under the spin lock is one
  step; a task that sleeps is a waiter that takes another step when the scheduler lets it run. Which
  tasks take steps, the signals they have pending and the time left when they wake up are arbitrary.
  A trace records which task was granted the semaphore and what each call returned.
\<close>

section \<open>State\<close>

definition ETIME :: int where "ETIME = 62"

definition TASK_INTERRUPTIBLE :: u32 where "TASK_INTERRUPTIBLE = 0x00000001"
definition TASK_UNINTERRUPTIBLE :: u32 where "TASK_UNINTERRUPTIBLE = 0x00000002"
definition TASK_WAKEKILL :: u32 where "TASK_WAKEKILL = 0x00000100"
definition TASK_KILLABLE :: u32 where "TASK_KILLABLE = TASK_WAKEKILL OR TASK_UNINTERRUPTIBLE"
definition MAX_SCHEDULE_TIMEOUT :: int where "MAX_SCHEDULE_TIMEOUT = 2 ^ 63 - 1"

definition signal_pending_state :: "u32 \<Rightarrow> bool \<Rightarrow> bool \<Rightarrow> bool" where
  "signal_pending_state state signal_pending fatal =
     (if state AND (TASK_INTERRUPTIBLE OR TASK_WAKEKILL) = 0 then False
      else if \<not> signal_pending then False
      else state AND TASK_INTERRUPTIBLE \<noteq> 0 \<or> fatal)"

record semaphore_waiter =
  wstate :: u32
  wtimeout :: int
  wup :: bool

datatype sem_event = Granted nat | Returned nat int | Released

text \<open>The semaphore, the waiters that sleep (by task) and the trace.\<close>

record semaphore =
  sem_count :: u32
  wait_list :: "nat list"
  waiters :: "nat \<Rightarrow> semaphore_waiter option"
  sem_trace :: "sem_event list"

definition sema_init :: "u32 \<Rightarrow> semaphore" where
  "sema_init val = \<lparr>sem_count = val, wait_list = [], waiters = Map.empty, sem_trace = []\<rparr>"

definition log_event :: "sem_event \<Rightarrow> semaphore \<Rightarrow> semaphore" where
  "log_event e s = s\<lparr>sem_trace := sem_trace s @ [e]\<rparr>"

section \<open>Operations\<close>

text \<open>One round of the loop of \<open>___down_common\<close>: give up, or go to sleep.\<close>

definition wait_round :: "nat \<Rightarrow> u32 \<Rightarrow> int \<Rightarrow> bool \<Rightarrow> bool \<Rightarrow> semaphore \<Rightarrow> semaphore" where
  "wait_round t state timeout signal_pending fatal s =
     (if signal_pending_state state signal_pending fatal
      then log_event (Returned t (- EINTR)) (s\<lparr>wait_list := remove1 t (wait_list s), waiters := (waiters s)(t := None)\<rparr>)
      else if timeout \<le> 0
      then log_event (Returned t (- ETIME)) (s\<lparr>wait_list := remove1 t (wait_list s), waiters := (waiters s)(t := None)\<rparr>)
      else s\<lparr>waiters := (waiters s)(t \<mapsto> \<lparr>wstate = state, wtimeout = timeout, wup = False\<rparr>)\<rparr>)"

definition down_common :: "nat \<Rightarrow> u32 \<Rightarrow> int \<Rightarrow> bool \<Rightarrow> bool \<Rightarrow> semaphore \<Rightarrow> semaphore" where
  "down_common t state timeout signal_pending fatal s =
     wait_round t state timeout signal_pending fatal (s\<lparr>wait_list := wait_list s @ [t]\<rparr>)"

text \<open>The part of the loop after \<open>schedule_timeout\<close>, with the time it returns.\<close>

definition wake_up :: "nat \<Rightarrow> semaphore_waiter \<Rightarrow> int \<Rightarrow> bool \<Rightarrow> bool \<Rightarrow> semaphore \<Rightarrow> semaphore" where
  "wake_up t w timeout signal_pending fatal s =
     (if wup w then log_event (Returned t 0) (s\<lparr>waiters := (waiters s)(t := None)\<rparr>)
      else wait_round t (wstate w) timeout signal_pending fatal s)"

definition take_one :: "nat \<Rightarrow> semaphore \<Rightarrow> semaphore" where
  "take_one t s = log_event (Returned t 0) (log_event (Granted t) (s\<lparr>sem_count := sem_count s - 1\<rparr>))"

definition down :: "nat \<Rightarrow> bool \<Rightarrow> bool \<Rightarrow> semaphore \<Rightarrow> semaphore" where
  "down t sp fatal s =
     (if sem_count s > 0 then take_one t s else down_common t TASK_UNINTERRUPTIBLE MAX_SCHEDULE_TIMEOUT sp fatal s)"

definition down_interruptible :: "nat \<Rightarrow> bool \<Rightarrow> bool \<Rightarrow> semaphore \<Rightarrow> semaphore" where
  "down_interruptible t sp fatal s =
     (if sem_count s > 0 then take_one t s else down_common t TASK_INTERRUPTIBLE MAX_SCHEDULE_TIMEOUT sp fatal s)"

definition down_killable :: "nat \<Rightarrow> bool \<Rightarrow> bool \<Rightarrow> semaphore \<Rightarrow> semaphore" where
  "down_killable t sp fatal s =
     (if sem_count s > 0 then take_one t s else down_common t TASK_KILLABLE MAX_SCHEDULE_TIMEOUT sp fatal s)"

definition down_timeout :: "nat \<Rightarrow> int \<Rightarrow> bool \<Rightarrow> bool \<Rightarrow> semaphore \<Rightarrow> semaphore" where
  "down_timeout t timeout sp fatal s =
     (if sem_count s > 0 then take_one t s else down_common t TASK_UNINTERRUPTIBLE timeout sp fatal s)"

text \<open>The new count is a C int, so that a count above 2^31 looks negative.\<close>

definition down_trylock :: "nat \<Rightarrow> semaphore \<Rightarrow> semaphore" where
  "down_trylock t s =
     (let new = sem_count s - 1 in
      if sint new \<ge> 0 then log_event (Returned t 0) (log_event (Granted t) (s\<lparr>sem_count := new\<rparr>))
      else log_event (Returned t 1) s)"

definition up_contended :: "semaphore \<Rightarrow> semaphore" where
  "up_contended s =
     (let t = hd (wait_list s) in
      log_event (Granted t) (s\<lparr>wait_list := tl (wait_list s),
        waiters := (waiters s)(t := map_option (\<lambda>w. w\<lparr>wup := True\<rparr>) (waiters s t))\<rparr>))"

definition up :: "semaphore \<Rightarrow> semaphore" where
  "up s =
     (let s = log_event Released s in
      if wait_list s = [] then s\<lparr>sem_count := sem_count s + 1\<rparr> else up_contended s)"

text \<open>What \<open>schedule_timeout\<close> may return: a wait without limit stays one, and otherwise the time left is not
  negative.\<close>

definition time_left :: "int \<Rightarrow> int \<Rightarrow> bool" where
  "time_left timeout rest \<longleftrightarrow> (if timeout = MAX_SCHEDULE_TIMEOUT then rest = MAX_SCHEDULE_TIMEOUT else 0 \<le> rest)"

text \<open>Steps: a task that does not sleep in the semaphore may call any operation, one that sleeps may
  wake up.\<close>

inductive sem_step :: "semaphore \<Rightarrow> semaphore \<Rightarrow> bool" where
  step_down: "waiters s t = None \<Longrightarrow> sem_step s (down t sp fatal s)"
| step_interruptible: "waiters s t = None \<Longrightarrow> sem_step s (down_interruptible t sp fatal s)"
| step_killable: "waiters s t = None \<Longrightarrow> sem_step s (down_killable t sp fatal s)"
| step_timeout: "waiters s t = None \<Longrightarrow> sem_step s (down_timeout t timeout sp fatal s)"
| step_trylock: "waiters s t = None \<Longrightarrow> sem_step s (down_trylock t s)"
| step_up: "sem_step s (up s)"
| step_wake: "waiters s t = Some w \<Longrightarrow> time_left (wtimeout w) timeout \<Longrightarrow> sem_step s (wake_up t w timeout sp fatal s)"

inductive sem_steps :: "semaphore \<Rightarrow> semaphore \<Rightarrow> bool" where
  sem_refl: "sem_steps s s"
| sem_trans: "sem_steps s s' \<Longrightarrow> sem_step s' s'' \<Longrightarrow> sem_steps s s''"

section \<open>Accounting\<close>

definition tally :: "(sem_event \<Rightarrow> bool) \<Rightarrow> sem_event list \<Rightarrow> nat" where
  "tally P tr = length (filter P tr)"

fun is_grant :: "sem_event \<Rightarrow> bool" where "is_grant (Granted t) = True" | "is_grant e = False"

definition has_grant :: "semaphore \<Rightarrow> nat \<Rightarrow> bool" where
  "has_grant s t \<longleftrightarrow> (\<exists>w. waiters s t = Some w \<and> wup w)"

definition sem_inv :: "nat \<Rightarrow> semaphore \<Rightarrow> bool" where
  "sem_inv n s \<longleftrightarrow>
     (wait_list s \<noteq> [] \<longrightarrow> sem_count s = 0) \<and> distinct (wait_list s) \<and>
     (\<forall>t. t \<in> set (wait_list s) \<longleftrightarrow> (\<exists>w. waiters s t = Some w \<and> \<not> wup w)) \<and>
     (n + tally ((=) Released) (sem_trace s) < 2 ^ 32 \<longrightarrow>
        unat (sem_count s) + tally is_grant (sem_trace s) = n + tally ((=) Released) (sem_trace s)) \<and>
     (\<forall>t. tally ((=) (Granted t)) (sem_trace s) = tally ((=) (Returned t 0)) (sem_trace s) + of_bool (has_grant s t))"

lemma tally_simps [simp]:
  "tally P [] = 0" "tally P (e # tr) = of_bool (P e) + tally P tr" "tally P (tr @ tr') = tally P tr + tally P tr'"
  by (simp_all add: tally_def)

lemma log_simps [simp]:
  "sem_count (log_event e s) = sem_count s" "wait_list (log_event e s) = wait_list s"
  "waiters (log_event e s) = waiters s" "sem_trace (log_event e s) = sem_trace s @ [e]"
  by (simp_all add: log_event_def)

lemma sem_invI:
  assumes "wait_list s \<noteq> [] \<Longrightarrow> sem_count s = 0" "distinct (wait_list s)"
    "\<And>t. t \<in> set (wait_list s) \<longleftrightarrow> (\<exists>w. waiters s t = Some w \<and> \<not> wup w)"
    "n + tally ((=) Released) (sem_trace s) < 2 ^ 32 \<Longrightarrow>
      unat (sem_count s) + tally is_grant (sem_trace s) = n + tally ((=) Released) (sem_trace s)"
    "\<And>t. tally ((=) (Granted t)) (sem_trace s) = tally ((=) (Returned t 0)) (sem_trace s) + of_bool (has_grant s t)"
  shows "sem_inv n s"
  using assms unfolding sem_inv_def by blast

lemma sem_invD:
  assumes "sem_inv n s"
  shows "wait_list s \<noteq> [] \<Longrightarrow> sem_count s = 0" "distinct (wait_list s)"
    "\<And>t. t \<in> set (wait_list s) \<longleftrightarrow> (\<exists>w. waiters s t = Some w \<and> \<not> wup w)"
    "n + tally ((=) Released) (sem_trace s) < 2 ^ 32 \<Longrightarrow>
      unat (sem_count s) + tally is_grant (sem_trace s) = n + tally ((=) Released) (sem_trace s)"
    "\<And>t. tally ((=) (Granted t)) (sem_trace s) = tally ((=) (Returned t 0)) (sem_trace s) + of_bool (has_grant s t)"
  using assms unfolding sem_inv_def by blast+

lemma take_one_inv:
  assumes "sem_inv n s" "sem_count s \<noteq> 0" "waiters s t = None"
  shows "sem_inv n (take_one t s)"
proof -
  note i = sem_invD [OF assms(1)]
  have "wait_list s = []" using i(1) assms(2) by blast
  moreover have "unat (sem_count s - 1) + 1 = unat (sem_count s)" using assms(2) by (simp add: unat_minus_one unat_gt_0)
  moreover have "has_grant (take_one t s) u \<longleftrightarrow> has_grant s u" for u by (simp add: has_grant_def take_one_def)
  ultimately show ?thesis using i(3-5) by (intro sem_invI) (auto simp: take_one_def)
qed

lemma give_up_inv:
  assumes "sem_inv n s" "\<not> has_grant s t" "r \<noteq> 0"
  shows "sem_inv n (log_event (Returned t r) (s\<lparr>wait_list := remove1 t (wait_list s), waiters := (waiters s)(t := None)\<rparr>))"
proof -
  note i = sem_invD [OF assms(1)]
  let ?s = "log_event (Returned t r) (s\<lparr>wait_list := remove1 t (wait_list s), waiters := (waiters s)(t := None)\<rparr>)"
  have "has_grant ?s u \<longleftrightarrow> has_grant s u" for u using assms(2) by (auto simp: has_grant_def)
  moreover have "remove1 t (wait_list s) \<noteq> [] \<Longrightarrow> wait_list s \<noteq> []" by auto
  ultimately show ?thesis using i assms(3) by (intro sem_invI) auto
qed

text \<open>A task that joins the list and at once gives up leaves everything but the trace as it was.\<close>

lemma down_common_inv:
  assumes "sem_inv n s" "sem_count s = 0" "waiters s t = None"
  shows "sem_inv n (down_common t state timeout sp fatal s)"
proof -
  note i = sem_invD [OF assms(1)]
  have t: "t \<notin> set (wait_list s)" using i(3) assms(3) by simp
  have ng: "\<not> has_grant s t" using assms(3) by (simp add: has_grant_def)
  have gu: "sem_inv n (log_event (Returned t r) (s\<lparr>wait_list := remove1 t (wait_list s @ [t]), waiters := (waiters s)(t := None)\<rparr>))"
    if "r \<noteq> 0" for r using give_up_inv [OF assms(1) ng that] t by (simp add: remove1_append remove1_idem)
  let ?s = "s\<lparr>wait_list := wait_list s @ [t], waiters := (waiters s)(t \<mapsto> \<lparr>wstate = state, wtimeout = timeout, wup = False\<rparr>)\<rparr>"
  have "has_grant ?s u \<longleftrightarrow> has_grant s u" for u using ng by (auto simp: has_grant_def)
  then have "sem_inv n ?s" using i t assms(2) by (intro sem_invI) auto
  then show ?thesis using gu [of "- EINTR"] gu [of "- ETIME"]
    by (auto simp: down_common_def wait_round_def errno_defs ETIME_def)
qed

lemma trylock_inv:
  assumes "sem_inv n s" "waiters s t = None"
  shows "sem_inv n (down_trylock t s)"
proof (cases "sint (sem_count s - 1) \<ge> 0")
  case True
  then have "sem_count s \<noteq> 0" by auto
  then show ?thesis using take_one_inv [OF assms(1) _ assms(2)] True by (simp add: down_trylock_def take_one_def)
next
  case False
  note i = sem_invD [OF assms(1)]
  have "has_grant (log_event e s) u \<longleftrightarrow> has_grant s u" for e u by (simp add: has_grant_def)
  then show ?thesis using i False by (intro sem_invI) (auto simp: down_trylock_def Let_def)
qed

lemma up_inv:
  assumes "sem_inv n s"
  shows "sem_inv n (up s)"
proof (cases "wait_list s")
  case Nil
  note i = sem_invD [OF assms]
  have h: "has_grant (up s) u \<longleftrightarrow> has_grant s u" for u using Nil by (simp add: has_grant_def up_def Let_def)
  have "unat (sem_count s + 1) = unat (sem_count s) + 1" if "n + tally ((=) Released) (sem_trace s) + 1 < 2 ^ 32"
    using i(4) that unat_add_no_wrap [of "sem_count s" 1] by simp
  then show ?thesis using i Nil h by (intro sem_invI) (auto simp: up_def Let_def)
next
  case (Cons t ts)
  note i = sem_invD [OF assms]
  obtain w where w: "waiters s t = Some w" "\<not> wup w" using i(3) [of t] Cons by auto
  have h: "has_grant (up s) u \<longleftrightarrow> u = t \<or> has_grant s u" for u
    using Cons w by (auto simp: has_grant_def up_def up_contended_def Let_def)
  have nt: "t \<notin> set ts" "\<not> has_grant s t" using i(2) Cons w by (auto simp: has_grant_def)
  show ?thesis
  proof (rule sem_invI)
    fix u
    show "u \<in> set (wait_list (up s)) \<longleftrightarrow> (\<exists>w. waiters (up s) u = Some w \<and> \<not> wup w)"
      using i(3) [of u] Cons w nt by (auto simp: up_def up_contended_def Let_def)
    show "tally ((=) (Granted u)) (sem_trace (up s)) = tally ((=) (Returned u 0)) (sem_trace (up s)) + of_bool (has_grant (up s) u)"
      using i(5) [of u] h [of u] Cons nt by (auto simp: up_def up_contended_def Let_def)
  qed (use i(1,2,4) Cons in \<open>auto simp: up_def up_contended_def Let_def\<close>)
qed

lemma wake_up_inv:
  assumes "sem_inv n s" "waiters s t = Some w"
  shows "sem_inv n (wake_up t w timeout sp fatal s)"
proof (cases "wup w")
  case True
  note i = sem_invD [OF assms(1)]
  have h: "has_grant s t" "has_grant (wake_up t w timeout sp fatal s) u \<longleftrightarrow> u \<noteq> t \<and> has_grant s u" for u
    using assms(2) True by (auto simp: has_grant_def wake_up_def)
  have nt: "t \<notin> set (wait_list s)" using i(3) [of t] assms(2) True by auto
  show ?thesis
  proof (rule sem_invI)
    fix u
    let ?s = "wake_up t w timeout sp fatal s"
    show "u \<in> set (wait_list ?s) \<longleftrightarrow> (\<exists>w. waiters ?s u = Some w \<and> \<not> wup w)"
      using i(3) [of u] nt True by (auto simp: wake_up_def)
    show "tally ((=) (Granted u)) (sem_trace ?s) = tally ((=) (Returned u 0)) (sem_trace ?s) + of_bool (has_grant ?s u)"
      using i(5) [of u] h True by (auto simp: wake_up_def)
  qed (use i(1,2,4) True in \<open>auto simp: wake_up_def\<close>)
next
  case False
  note i = sem_invD [OF assms(1)]
  have ng: "\<not> has_grant s t" using assms(2) False by (simp add: has_grant_def)
  let ?s = "s\<lparr>waiters := (waiters s)(t \<mapsto> \<lparr>wstate = wstate w, wtimeout = timeout, wup = False\<rparr>)\<rparr>"
  have "has_grant ?s u \<longleftrightarrow> has_grant s u" for u using ng by (auto simp: has_grant_def)
  moreover have "t \<in> set (wait_list s)" using i(3) assms(2) False by blast
  ultimately have "sem_inv n ?s" using i by (intro sem_invI) auto
  then show ?thesis using False give_up_inv [OF assms(1) ng]
    by (auto simp: wake_up_def wait_round_def errno_defs ETIME_def)
qed

lemma sem_step_inv: "sem_step s s' \<Longrightarrow> sem_inv n s \<Longrightarrow> sem_inv n s'"
  by (induction rule: sem_step.induct)
    (auto simp: down_def down_interruptible_def down_killable_def down_timeout_def word_gt_0
      intro: take_one_inv down_common_inv trylock_inv up_inv wake_up_inv)

lemma sem_init_inv: "sem_inv (unat val) (sema_init val)"
  by (simp add: sem_inv_def sema_init_def has_grant_def)

lemma sem_reach_inv: "sem_steps s s' \<Longrightarrow> sem_inv n s \<Longrightarrow> sem_inv n s'"
  by (induction rule: sem_steps.induct) (auto intro: sem_step_inv)

lemma step_trace_grows: "sem_step s s' \<Longrightarrow> \<exists>d. sem_trace s' = sem_trace s @ d"
  by (induction rule: sem_step.induct)
    (auto simp: down_def down_interruptible_def down_killable_def down_timeout_def down_trylock_def take_one_def
      down_common_def wait_round_def up_def up_contended_def wake_up_def Let_def)

lemma trace_grows: "sem_steps s s' \<Longrightarrow> \<exists>d. sem_trace s' = sem_trace s @ d"
  by (induction rule: sem_steps.induct) (auto dest: step_trace_grows)

section \<open>The order of the waiters\<close>

text \<open>A waiting task stays behind at most the tasks that were before it, fewer by one for each release,
  or the step is the one in which it is granted the semaphore or gives up.\<close>

definition keeps_place :: "nat \<Rightarrow> nat list \<Rightarrow> semaphore \<Rightarrow> semaphore \<Rightarrow> bool" where
  "keeps_place t xs s s' \<longleftrightarrow>
     (\<exists>d. sem_trace s' = sem_trace s @ d \<and>
       (Granted t \<in> set d \<or> (\<exists>r. Returned t r \<in> set d) \<or>
        (\<exists>xs' ys'. wait_list s' = xs' @ t # ys' \<and> set xs' \<subseteq> set xs \<and> length xs' + tally ((=) Released) d \<le> length xs)))"

lemma keeps_placeI:
  "sem_trace s' = sem_trace s @ d \<Longrightarrow> wait_list s' = xs' @ t # ys' \<Longrightarrow> set xs' \<subseteq> set xs \<Longrightarrow>
    length xs' + tally ((=) Released) d \<le> length xs \<Longrightarrow> keeps_place t xs s s'"
  unfolding keeps_place_def by blast

lemma give_up_place:
  assumes "wait_list s = xs @ t # ys"
  shows "keeps_place t xs s (log_event (Returned u r) (s\<lparr>wait_list := remove1 u (wait_list s), waiters := f\<rparr>))"
proof (cases "u = t")
  case True
  then show ?thesis unfolding keeps_place_def by (intro exI [of _ "[Returned t r]"]) auto
next
  case False
  show ?thesis
  proof (cases "u \<in> set xs")
    case True
    then show ?thesis using assms set_remove1_subset [of u xs]
      by (intro keeps_placeI [of _ _ "[Returned u r]" "remove1 u xs" _ ys]) (auto simp: remove1_append length_remove1)
  next
    case f: False
    then show ?thesis using assms False
      by (intro keeps_placeI [of _ _ "[Returned u r]" xs _ "remove1 u ys"]) (auto simp: remove1_append)
  qed
qed

lemma down_common_place:
  assumes "wait_list s = xs @ t # ys" "u \<notin> set (wait_list s)"
  shows "keeps_place t xs s (down_common u state timeout sp fatal s)"
proof -
  have "remove1 u (wait_list s @ [u]) = wait_list s" using assms(2) by (simp add: remove1_append)
  then have "keeps_place t xs s (log_event (Returned u r) (s\<lparr>wait_list := remove1 u (wait_list s @ [u]), waiters := f\<rparr>))" for r f
    using assms(1) by (intro keeps_placeI [of _ _ "[Returned u r]" xs _ ys]) auto
  moreover have "keeps_place t xs s (s\<lparr>wait_list := wait_list s @ [u], waiters := f\<rparr>)" for f
    using assms(1) by (intro keeps_placeI [of _ _ "[]" xs _ "ys @ [u]"]) auto
  ultimately show ?thesis by (auto simp: down_common_def wait_round_def)
qed

lemma up_place:
  assumes "wait_list s = xs @ t # ys"
  shows "keeps_place t xs s (up s)"
proof (cases xs)
  case Nil
  then show ?thesis using assms unfolding keeps_place_def
    by (intro exI [of _ "[Released, Granted t]"]) (auto simp: up_def up_contended_def Let_def)
next
  case (Cons x xs')
  then show ?thesis using assms
    by (intro keeps_placeI [of _ _ "[Released, Granted x]" xs' _ ys]) (auto simp: up_def up_contended_def Let_def)
qed

lemma sem_step_place:
  assumes "sem_step s s'" "sem_inv n s" "wait_list s = xs @ t # ys"
  shows "keeps_place t xs s s'"
proof -
  note i = sem_invD [OF assms(2)]
  have c: "sem_count s = 0" using i(1) assms(3) by simp
  have nw: "waiters s u = None \<Longrightarrow> u \<notin> set (wait_list s)" for u using i(3) by simp
  note dp = down_common_place [OF assms(3) nw]
  show ?thesis
    using assms(1)
  proof cases
    case (step_trylock u)
    then show ?thesis using assms(3) c by (intro keeps_placeI [of _ _ "[Returned u 1]" xs _ ys]) (auto simp: down_trylock_def Let_def)
  next
    case step_up
    then show ?thesis using up_place [OF assms(3)] by simp
  next
    case (step_wake u w timeout sp fatal)
    have "keeps_place t xs s (log_event (Returned u 0) (s\<lparr>waiters := f\<rparr>))" for f
      using assms(3) by (intro keeps_placeI [of _ _ "[Returned u 0]" xs _ ys]) auto
    moreover have "keeps_place t xs s (s\<lparr>waiters := f\<rparr>)" for f
      using assms(3) by (intro keeps_placeI [of _ _ "[]" xs _ ys]) auto
    ultimately show ?thesis using step_wake give_up_place [OF assms(3)] by (auto simp: wake_up_def wait_round_def)
  qed (use c dp in \<open>auto simp: down_def down_interruptible_def down_killable_def down_timeout_def\<close>)
qed

text \<open>The new count is an int in \<open>down_trylock\<close>: for a count above \<open>2 ^ 31\<close> it refuses a semaphore that
  \<open>down\<close> takes at once.\<close>

lemma down_trylock_refuses_available:
  assumes "2 ^ 31 < uint (sem_count s)"
  shows "down_trylock t s = log_event (Returned t 1) s" "down t sp fatal s = take_one t s"
proof -
  let ?c = "sem_count s"
  have b: "uint ?c < 2 ^ 32" using uint_lt2p [of ?c] by simp
  have "uint (?c - 1) = uint ?c - 1" using assms b by (simp add: uint_word_ariths)
  moreover have "sint (?c - 1) = take_bit 32 (uint (?c - 1) + 2 ^ 31) - 2 ^ 31"
    by (simp add: sint_uint signed_take_bit_eq_take_bit_shift)
  moreover have "(uint ?c - 1 + 2 ^ 31) mod 2 ^ 32 = uint ?c - 1 - 2 ^ 31"
    using assms b mod_add_self2 [of "uint ?c - 1 - 2 ^ 31" "2 ^ 32"] by (simp add: algebra_simps)
  ultimately have "sint (?c - 1) < 0" using b by (simp add: take_bit_eq_mod)
  then show "down_trylock t s = log_event (Returned t 1) s" by (simp add: down_trylock_def Let_def)
  show "down t sp fatal s = take_one t s" using assms by (simp add: down_def word_less_alt)
qed

text \<open>A wait that \<open>down\<close> started ends only with the semaphore.\<close>

lemma down_never_gives_up:
  assumes "wstate w = TASK_UNINTERRUPTIBLE" "wtimeout w = MAX_SCHEDULE_TIMEOUT" "time_left (wtimeout w) timeout" "Returned t r \<notin> set (sem_trace s)"
  shows "Returned t r \<in> set (sem_trace (wake_up t w timeout sp fatal s)) \<longleftrightarrow> wup w \<and> r = 0"
  using assms by (auto simp: wake_up_def wait_round_def signal_pending_state_def time_left_def TASK_UNINTERRUPTIBLE_def
      TASK_INTERRUPTIBLE_def TASK_WAKEKILL_def MAX_SCHEDULE_TIMEOUT_def)

lemma down_sleeps:
  "sem_count s = 0 \<Longrightarrow> down t sp fatal s = s\<lparr>wait_list := wait_list s @ [t],
    waiters := (waiters s)(t \<mapsto> \<lparr>wstate = TASK_UNINTERRUPTIBLE, wtimeout = MAX_SCHEDULE_TIMEOUT, wup = False\<rparr>)\<rparr>"
  by (simp add: down_def down_common_def wait_round_def signal_pending_state_def TASK_UNINTERRUPTIBLE_def
      TASK_INTERRUPTIBLE_def TASK_WAKEKILL_def MAX_SCHEDULE_TIMEOUT_def)

section \<open>Properties\<close>

text \<open>C15: in every reachable state the permits add up. As long as the releases do not exceed the 32-bit count, the
  count and the grants together are the initial value and the releases; nobody waits while the count
  is positive; and for each task the grants are exactly the calls that returned 0, but for a task
  that was handed the semaphore and has not run yet, so that neither a signal nor a timeout loses or
  duplicates a permit.\<close>

theorem semaphore_accounting:
  assumes "sem_steps (sema_init val) s"
  shows "(wait_list s \<noteq> [] \<longrightarrow> sem_count s = 0) \<and>
    (unat val + tally ((=) Released) (sem_trace s) < 2 ^ 32 \<longrightarrow>
      unat (sem_count s) + tally is_grant (sem_trace s) = unat val + tally ((=) Released) (sem_trace s)) \<and>
    (\<forall>t. tally ((=) (Granted t)) (sem_trace s) = tally ((=) (Returned t 0)) (sem_trace s) + of_bool (has_grant s t))"
  using sem_reach_inv [OF assms sem_init_inv] unfolding sem_inv_def by blast

theorem semaphore_accounting_witness:
  "let s = up (down 1 False False (down 0 False False (sema_init 1))) in
    tally is_grant (sem_trace s) = 2 \<and> tally ((=) (Granted 1)) (sem_trace s) = tally ((=) (Returned 1 0)) (sem_trace s) + 1"
proof -
  define s0 s1 s2 where "s0 = sema_init 1" and "s1 = down 0 False False s0" and "s2 = down 1 False False s1"
  have d: "s1 = \<lparr>sem_count = 0, wait_list = [], waiters = Map.empty, sem_trace = [Granted 0, Returned 0 0]\<rparr>"
    by (simp add: s1_def s0_def down_def sema_init_def take_one_def log_event_def)
  have e: "s2 = s1\<lparr>wait_list := [1], waiters := [1 \<mapsto> \<lparr>wstate = TASK_UNINTERRUPTIBLE, wtimeout = MAX_SCHEDULE_TIMEOUT, wup = False\<rparr>]\<rparr>"
    by (simp add: s2_def down_sleeps d)
  have "sem_steps s0 (up s2)"
    unfolding s2_def s1_def
    by (intro sem_refl sem_trans [of s0, OF _ step_up] sem_trans [of s0, OF _ step_down])
      (simp_all add: s1_def [symmetric] d, simp add: s0_def sema_init_def)
  note acc = semaphore_accounting [OF this [unfolded s0_def]]
  have "unat (sem_count (up s2)) + tally is_grant (sem_trace (up s2)) = 1 + tally ((=) Released) (sem_trace (up s2))"
    "tally ((=) (Granted 1)) (sem_trace (up s2)) = tally ((=) (Returned 1 0)) (sem_trace (up s2)) + of_bool (has_grant (up s2) 1)"
    using conjunct1 [OF conjunct2 [OF acc]] spec [OF conjunct2 [OF conjunct2 [OF acc]], of 1]
    by (simp add: d e up_def up_contended_def Let_def) (rule spec [OF conjunct2 [OF conjunct2 [OF acc]]])
  then show ?thesis unfolding Let_def s0_def [symmetric] s1_def [symmetric] s2_def [symmetric]
    by (simp add: d e up_def up_contended_def Let_def has_grant_def)
qed

text \<open>C16: waiters are served in order and none is passed over: while a waiting task is neither granted the semaphore
  nor gives up, only tasks that were before it are before it, and every release lets one of them go.
  With one release more than there are tasks before it, it is granted the semaphore unless it gives up.\<close>

theorem semaphore_bounded_waiting:
  assumes "sem_steps (sema_init val) s" "wait_list s = xs @ t # ys" "sem_steps s s'"
    "sem_trace s' = sem_trace s @ new" "Granted t \<notin> set new" "\<And>r. Returned t r \<notin> set new"
  shows "\<exists>xs' ys'. wait_list s' = xs' @ t # ys' \<and> set xs' \<subseteq> set xs \<and>
    length xs' + tally ((=) Released) new \<le> length xs"
  using assms(3,1,2,4-6)
proof (induction s s' arbitrary: new rule: sem_steps.induct)
  case (sem_trans s s' s'')
  have inv: "sem_inv (unat val) s'"
    using sem_reach_inv [OF sem_trans.hyps(1) sem_reach_inv [OF sem_trans.prems(1) sem_init_inv]] .
  obtain new' where n: "sem_trace s' = sem_trace s @ new'" using trace_grows [OF sem_trans.hyps(1)] by blast
  obtain d where d: "sem_trace s'' = sem_trace s' @ d" using step_trace_grows [OF sem_trans.hyps(2)] by blast
  have new: "new = new' @ d" using sem_trans.prems(3) n d by simp
  obtain xs' ys' where w: "wait_list s' = xs' @ t # ys'" "set xs' \<subseteq> set xs" "length xs' + tally ((=) Released) new' \<le> length xs"
    using sem_trans.IH [OF sem_trans.prems(1,2) n] sem_trans.prems(4,5) new by auto
  have "keeps_place t xs' s' s''" by (rule sem_step_place [OF sem_trans.hyps(2) inv w(1)])
  then obtain xs'' ys'' where "wait_list s'' = xs'' @ t # ys''" "set xs'' \<subseteq> set xs'" "length xs'' + tally ((=) Released) d \<le> length xs'"
    using d sem_trans.prems(4,5) new unfolding keeps_place_def by auto
  then show ?case using w(2,3) new by (intro exI [of _ xs''] exI [of _ ys'']) auto
next
  case (sem_refl s)
  then show ?case by (intro exI [of _ xs] exI [of _ ys]) simp
qed

theorem semaphore_bounded_waiting_witness:
  "let s = down 1 False False (down 0 False False (sema_init 1)) in \<exists>xs' ys'. wait_list (down 2 False False s) = xs' @ 1 # ys' \<and> length xs' \<le> 0"
proof -
  define s0 s1 s2 where "s0 = sema_init 1" and "s1 = down 0 False False s0" and "s2 = down 1 False False s1"
  have d: "s1 = \<lparr>sem_count = 0, wait_list = [], waiters = Map.empty, sem_trace = [Granted 0, Returned 0 0]\<rparr>"
    by (simp add: s1_def s0_def down_def sema_init_def take_one_def log_event_def)
  have e: "s2 = s1\<lparr>wait_list := [1], waiters := [1 \<mapsto> \<lparr>wstate = TASK_UNINTERRUPTIBLE, wtimeout = MAX_SCHEDULE_TIMEOUT, wup = False\<rparr>]\<rparr>"
    by (simp add: s2_def down_sleeps d)
  have "sem_step s0 s1" unfolding s1_def by (rule step_down) (simp add: s0_def sema_init_def)
  moreover have "sem_step s1 s2" unfolding s2_def by (rule step_down) (simp add: d)
  ultimately have r: "sem_steps (sema_init 1) s2" unfolding s0_def by (blast intro: sem_refl sem_trans)
  have "sem_step s2 (down 2 False False s2)" by (rule step_down) (simp add: e d)
  then have q: "sem_steps s2 (down 2 False False s2)" by (blast intro: sem_refl sem_trans)
  show ?thesis unfolding Let_def s0_def [symmetric] s1_def [symmetric] s2_def [symmetric]
    using semaphore_bounded_waiting [OF r _ q, of "[]" 1 "[]" "[]"] by (simp add: e d down_sleeps)
qed

end
