(* ===== verification/Spec2Isabelle.thy ===== *)
theory Spec2Isabelle
  imports Xor_Properties Apps Tnum Pids Misc_Cg Queue_Stack Creds Ranges Timeconv Timekeeping Cpudl Semaphore
begin

text \<open>
  \<^bold>\<open>What is verified.\<close> The repository holds the work of an operating-systems course: two multithreaded
  system calls that encrypt and decrypt a file by XOR (Practica2), the programs that call them, and
  a Linux 6.6.45 tree into which they and two time calls are built (Practica1). The development
  models the students' code completely, the kernel services it runs on, and a number of
  self-contained components of the same kernel tree. The paths below are relative to
  Practica1/linux-6.6.45 unless they start with Practica2.

  \<^bold>\<open>Theories and code.\<close>
  \<^item> Prelude: machine words, error numbers, shared facts on words and lists.
  \<^item> Kthread: kernel/kthread.c (stop, park and exit of a kernel thread) and the mutex operations of
    kernel/locking/mutex.c that the workers use. A wait is a value (Lock_wait, None), not a loop.
  \<^item> Xor_Workers: the worker functions, argument set-up and main thread of
    Practica2/linux-6.6.45/kernel/my_encrypt.c and my_decrypt.c as step functions on a heap of byte
    arrays, a mutex and the threads. pool_main is the system call's own thread, pool_thread one
    worker; a schedule is a list of choices between them.
  \<^item> Xor_Pool: the locale xor_pool, the contract of a worker function and its argument set-up, with
    the invariant, the rank and the outcome of a call proved once; its facts are interpreted as enc
    and dec in Xor_Syscalls.
  \<^item> Xor_Syscalls: reading and writing files, preparation and outcome of the two system calls. The
    file system is a parameter with the laws vfs_ok.
  \<^item> Xor_Properties: the claims on the system calls: the result when no worker is stopped early, what
    any run may leave, mutual exclusion, a bound on the steps of every run and no deadlock, the
    round trip; and the faults that the code has.
  \<^item> Apps: Practica2/apps/encrypt_app.c and decrypt_app.c with fgets, strtok and atoi; the locale
    command_line gives the session lemmas of both.
  \<^item> Bitops: include/asm-generic/bitops, lib-independent parts of include/linux/bitops.h and log2.h;
    the ladders that search and count bits equal their specifications.
  \<^item> Tnum: kernel/bpf/tnum.c; the locale tnum_op is the contract of a sound abstract operation.
  \<^item> Cgroup_Charge, Pids, Misc_Cg: kernel/cgroup/pids.c and misc.c; the locale path_counter is what
    charging every cgroup on a path to the root does to a counter.
  \<^item> Simulation, Queue_Stack: kernel/bpf/queue_stack_maps.c; the ring of bytes with 32-bit indices is
    shown to simulate a bounded list.
  \<^item> Id_Map, User_Ns: kernel/user_namespace.c with include/linux/bsearch.h; id maps, their text form,
    permission to install them, creation of namespaces, the setgroups switch. The state is a store
    of namespaces, and userns_step is every call a process can make on it.
  \<^item> Creds: the set*id calls of kernel/sys.c, kernel/groups.c, kernel/uid16.c and commit_creds of
    kernel/cred.c, using the id maps.
  \<^item> Ranges: kernel/range.c; adding, merging, subtracting and compacting arrays of ranges as operations
    on the sets of addresses they cover.
  \<^item> Timespec: the timespec64 operations of kernel/time/time.c and include/linux/time64.h; arithmetic,
    comparison, validity and conversion related to the nanoseconds a value stands for.
  \<^item> Timeconv: time64_to_tm of kernel/time/timeconv.c, mktime64 of kernel/time/time.c and the reference
    calendar of kernel/time/time_test.c; the multiplications and shifts of the conversion are shown to
    compute the calendar that the test steps through, over the whole 64-bit range.
  \<^item> Timekeeping: the calls kernel/get_current_time.c and kernel/get_system_uptime.c of Practica1 over the
    timekeeper of kernel/time/timekeeping.c; advancing it to the current cycle, setting the wall
    clock, adding the time spent asleep, and what the two calls return afterwards. The cycle counter is an argument.
  \<^item> Cpudl: kernel/sched/cpudeadline.c; the heap of CPUs by deadline in an array that is also its own
    index, shown to stay within bounds and to implement a map from CPUs to deadlines (through the
    locale simulation), and the search for a CPU.
  \<^item> Semaphore: kernel/locking/semaphore.c; the sections under the spin lock as steps of a relation, a
    trace of grants and results, the accounting of permits and the order of the waiters.

  \<^bold>\<open>Conventions.\<close> A C function is one definition of the same name (a leading underscore is dropped, a
  clash with HOL gets a prefix). Fixed-width integers are words, so that they wrap as in C
  (in Timespec, Timeconv and Timekeeping, integers reduced by s64, u64_of, s32 and u32_of after each operation). Errors are
  negative integers as in the source. What the tree does not contain (the file system, user memory,
  the allocator, the security module, sort, string scanning) is an argument; where a claim depends on
  its documented behaviour that is a named hypothesis (vfs_ok, sort_ok, gsort_ok, rsort_ok, lsm_keeps_ids), and
  each such claim has a witness with a concrete instance.

  \<^bold>\<open>Bounds.\<close> Loops over data are structural or have a termination proof. The interpreter loop of the
  applications and the schedules take a number of rounds or a list of choices, and the claims hold for
  every number and every list; the climb through parent namespaces is given one step more than the
  level of the child, which the invariant on levels shows to be enough. The
  loop that carries seconds in the timekeeper has no end when a second is zero shifted nanoseconds, which
  is the value None; the claims show that it ends for every well-formed timekeeper.

  \<^bold>\<open>Not modelled.\<close> The rest of the kernel tree (unchanged code, listed by area in the manifest), memory
  ordering and reference counts, log output, NTP and suspend in the timekeeper, and the memory dashboard
  of Proyecto and its sample data service.
\<close>



end
